(* ===== verification/Prelude.thy ===== *)
theory Prelude
  imports Main "HOL-Library.Word"
begin

unbundle bit_operations_syntax

text \<open>
  Shared vocabulary of the development: bytes and Go strings, results that are either an
  error or a value, the wrap-around of Go's \<open>int64\<close>, slices of byte sequences, hexadecimal text
  (\<open>encoding/hex\<close>) and fixed-width integers in byte order (\<open>encoding/binary\<close>), together with the
  lemmas on them that every component uses.
\<close>

section \<open>Collections of facts\<close>

named_theorems result_simps \<open>inversion of successful results\<close>
named_theorems wire_simps \<open>lengths and round trips of fixed-width encodings\<close>

section \<open>Types\<close>

type_synonym byte = "8 word"
type_synonym bytes = "byte list"
type_synonym int64 = int
type_synonym uint32 = "32 word"
type_synonym uint64 = "64 word"

section \<open>Results: an error or a value\<close>

definition rbind :: "'e + 'a \<Rightarrow> ('a \<Rightarrow> 'e + 'b) \<Rightarrow> 'e + 'b" where
  "rbind m f = (case m of Inl e \<Rightarrow> Inl e | Inr x \<Rightarrow> f x)"

definition guard :: "bool \<Rightarrow> 'e \<Rightarrow> 'e + unit" where
  "guard ok e = (if ok then Inr () else Inl e)"

lemma rbind_simps [simp]:
  "rbind (Inl e) f = Inl e"
  "rbind (Inr x) f = f x"
  by (simp_all add: rbind_def)

lemma rbind_cong [fundef_cong]:
  "m = m' \<Longrightarrow> (\<And>x. m' = Inr x \<Longrightarrow> f x = g x) \<Longrightarrow> rbind m f = rbind m' g"
  by (simp add: rbind_def split: sum.splits)

lemma rbind_eq_Inr [result_simps]:
  "rbind m f = Inr y \<longleftrightarrow> (\<exists>x. m = Inr x \<and> f x = Inr y)"
  by (auto simp: rbind_def split: sum.splits)

lemma rbind_eq_Inl [result_simps]:
  "rbind m f = Inl e \<longleftrightarrow> m = Inl e \<or> (\<exists>x. m = Inr x \<and> f x = Inl e)"
  by (auto simp: rbind_def split: sum.splits)

lemma rbind_assoc: "rbind (rbind m f) g = rbind m (\<lambda>x. rbind (f x) g)"
  by (cases m) simp_all

lemma guard_True [simp]: "guard True e = Inr ()"
  by (simp add: guard_def)

lemma guard_False [simp]: "guard False e = Inl e"
  by (simp add: guard_def)

lemma guard_eq_Inr [result_simps]: "guard ok e = Inr u \<longleftrightarrow> ok"
  by (simp add: guard_def)

lemma guard_eq_Inl [result_simps]: "guard ok e = Inl e' \<longleftrightarrow> \<not> ok \<and> e' = e"
  by (auto simp: guard_def)

section \<open>Signed 64-bit arithmetic\<close>

text \<open>
  Go's \<open>int64\<close> (and \<open>int\<close> on the 64-bit platforms the program is built for) is modelled by the
  integers with the wrap-around written out by \<open>wrap64\<close> wherever a result can leave the range.
\<close>

definition maxInt64 :: int where
  "maxInt64 = 9223372036854775807"

definition in_int64 :: "int \<Rightarrow> bool" where
  "in_int64 x \<longleftrightarrow> - maxInt64 - 1 \<le> x \<and> x \<le> maxInt64"

definition wrap64 :: "int \<Rightarrow> int" where
  "wrap64 x = (x + 9223372036854775808) mod 18446744073709551616 - 9223372036854775808"

lemma wrap64_id [simp]: "in_int64 x \<Longrightarrow> wrap64 x = x"
  by (simp add: in_int64_def wrap64_def maxInt64_def)

lemma wrap64_range: "in_int64 (wrap64 x)"
  by (auto simp: in_int64_def wrap64_def maxInt64_def)

lemma wrap64_cong: "wrap64 x mod 18446744073709551616 = x mod 18446744073709551616"
  by (simp add: wrap64_def mod_diff_left_eq)

lemma in_int64_nonneg [intro]: "0 \<le> x \<Longrightarrow> x \<le> maxInt64 \<Longrightarrow> in_int64 x"
  by (simp add: in_int64_def maxInt64_def)

section \<open>Slices\<close>

text \<open>\<open>slice i j xs\<close> is Go's \<open>xs[i:j]\<close> for bounds within the sequence.\<close>

definition slice :: "nat \<Rightarrow> nat \<Rightarrow> 'a list \<Rightarrow> 'a list" where
  "slice i j xs = take (j - i) (drop i xs)"

lemma length_slice [simp]: "length (slice i j xs) = min (j - i) (length xs - i)"
  by (simp add: slice_def min.commute)

lemma slice_empty [simp]: "j \<le> i \<Longrightarrow> slice i j xs = []"
  by (simp add: slice_def)

lemma slice_all [simp]: "slice 0 (length xs) xs = xs"
  by (simp add: slice_def)

lemma slice_to_end: "slice i (length xs) xs = drop i xs"
  by (simp add: slice_def)

lemma slice_append: "i \<le> j \<Longrightarrow> j \<le> k \<Longrightarrow> slice i j xs @ slice j k xs = slice i k xs"
proof -
  assume le: "i \<le> j" "j \<le> k"
  have "drop j xs = drop (j - i) (drop i xs)"
    using le by simp
  moreover have "k - i = (j - i) + (k - j)"
    using le by simp
  ultimately show ?thesis
    by (simp add: slice_def take_add)
qed

lemma nth_slice: "k < j - i \<Longrightarrow> i + k < length xs \<Longrightarrow> slice i j xs ! k = xs ! (i + k)"
  by (simp add: slice_def)

lemma slice_append_left: "j \<le> length xs \<Longrightarrow> slice i j (xs @ ys) = slice i j xs"
  by (simp add: slice_def)

lemma slice_append_right:
  "length xs \<le> i \<Longrightarrow> slice i j (xs @ ys) = slice (i - length xs) (j - length xs) ys"
proof -
  assume le: "length xs \<le> i"
  have "j - i = (j - length xs) - (i - length xs)"
    using le by arith
  then show ?thesis
    using le by (simp add: slice_def)
qed

lemma unat_byte_less [simp]: "unat (b :: byte) < 256"
  using unsigned_less [of b, where ?'a = nat] by simp

section \<open>Hexadecimal text\<close>

text \<open>\<open>hex.EncodeToString\<close> writes lower-case digits; \<open>hex.DecodeString\<close> reads either case.\<close>

definition hex_digit :: "nat \<Rightarrow> char" where
  "hex_digit n = (if n < 10 then char_of (48 + n) else char_of (87 + n))"

definition hex_value :: "char \<Rightarrow> nat option" where
  "hex_value c = (let n = of_char c :: nat in
     if 48 \<le> n \<and> n \<le> 57 then Some (n - 48)
     else if 97 \<le> n \<and> n \<le> 102 then Some (n - 87)
     else if 65 \<le> n \<and> n \<le> 70 then Some (n - 55)
     else None)"

fun hex_encode :: "bytes \<Rightarrow> string" where
  "hex_encode [] = []"
| "hex_encode (b # bs) = hex_digit (unat b div 16) # hex_digit (unat b mod 16) # hex_encode bs"

fun hex_decode :: "string \<Rightarrow> bytes option" where
  "hex_decode [] = Some []"
| "hex_decode [c] = None"
| "hex_decode (c # d # s) =
     (case (hex_value c, hex_value d, hex_decode s) of
        (Some h, Some l, Some bs) \<Rightarrow> Some (of_nat (16 * h + l) # bs)
      | _ \<Rightarrow> None)"

lemma hex_value_digit [simp]: "n < 16 \<Longrightarrow> hex_value (hex_digit n) = Some n"
  by (auto simp: hex_digit_def hex_value_def Let_def)

lemma length_hex_encode [simp]: "length (hex_encode bs) = 2 * length bs"
  by (induction bs) auto

lemma hex_decode_encode [simp]: "hex_decode (hex_encode bs) = Some bs"
proof (induction bs)
  case Nil
  show ?case by simp
next
  case (Cons b bs)
  have "unat b < 256"
    by (rule unat_byte_less)
  then have "unat b div 16 < 16" and "unat b mod 16 < 16"
    by (simp_all add: less_mult_imp_div_less)
  then show ?case
    using Cons by simp
qed

lemma hex_encode_inject [simp]: "hex_encode a = hex_encode b \<longleftrightarrow> a = b"
  by (metis hex_decode_encode option.inject)

lemma length_hex_decode: "hex_decode s = Some bs \<Longrightarrow> length s = 2 * length bs"
  by (induction s arbitrary: bs rule: hex_decode.induct) (auto split: option.splits)

section \<open>Fixed-width integers as bytes\<close>

definition be32 :: "uint32 \<Rightarrow> bytes" where
  "be32 w = [ucast (drop_bit 24 w), ucast (drop_bit 16 w), ucast (drop_bit 8 w), ucast w]"

definition be64 :: "uint64 \<Rightarrow> bytes" where
  "be64 w = [ucast (drop_bit 56 w), ucast (drop_bit 48 w), ucast (drop_bit 40 w), ucast (drop_bit 32 w),
             ucast (drop_bit 24 w), ucast (drop_bit 16 w), ucast (drop_bit 8 w), ucast w]"

fun be_nat :: "bytes \<Rightarrow> nat" where
  "be_nat bs = foldl (\<lambda>n b. 256 * n + unat b) 0 bs"

definition of_be32 :: "bytes \<Rightarrow> uint32" where
  "of_be32 bs = of_nat (be_nat bs)"

definition of_be64 :: "bytes \<Rightarrow> uint64" where
  "of_be64 bs = of_nat (be_nat bs)"

definition le16 :: "16 word \<Rightarrow> bytes" where
  "le16 w = [ucast w, ucast (drop_bit 8 w)]"

definition le32 :: "uint32 \<Rightarrow> bytes" where
  "le32 w = rev (be32 w)"

definition le64 :: "uint64 \<Rightarrow> bytes" where
  "le64 w = rev (be64 w)"

definition of_le16 :: "bytes \<Rightarrow> 16 word" where
  "of_le16 bs = of_nat (be_nat (rev bs))"

definition of_le32 :: "bytes \<Rightarrow> uint32" where
  "of_le32 bs = of_be32 (rev bs)"

definition of_le64 :: "bytes \<Rightarrow> uint64" where
  "of_le64 bs = of_be64 (rev bs)"

lemma unat_ucast_drop_bit8:
  "unat (ucast (drop_bit n (w :: 'a::len word)) :: byte) = unat w div 2 ^ n mod 256"
  by (simp add: unsigned_ucast_eq unsigned_drop_bit_eq take_bit_eq_mod flip: drop_bit_eq_div)

lemma unat_ucast8: "unat (ucast (w :: 'a::len word) :: byte) = unat w mod 256"
  by (simp add: unsigned_ucast_eq take_bit_eq_mod)

lemma length_wire [wire_simps, simp]:
  "length (be32 w) = 4" "length (be64 v) = 8"
  "length (le16 h) = 2" "length (le32 w) = 4" "length (le64 v) = 8"
  by (simp_all add: be32_def be64_def le16_def le32_def le64_def)

lemma digit_step: "256 * (n div (d * 256)) + n div d mod 256 = (n div d :: nat)"
  by (simp add: div_mult2_eq)

lemma be_nat_be32: "be_nat (be32 w) = unat w"
proof -
  define n where "n = unat w"
  have "n < 4294967296"
    using unsigned_less [of w, where ?'a = nat] by (simp add: n_def)
  then have top: "n div 16777216 mod 256 = n div 16777216"
    by (simp add: less_mult_imp_div_less)
  show ?thesis
    using digit_step [of n 65536] digit_step [of n 256] digit_step [of n 1]
    by (simp add: be32_def unat_ucast_drop_bit8 unat_ucast8 [of w] top algebra_simps flip: n_def)
qed

lemma be_nat_be64: "be_nat (be64 w) = unat w"
proof -
  define n where "n = unat w"
  have "n < 18446744073709551616"
    using unsigned_less [of w, where ?'a = nat] by (simp add: n_def)
  then have top: "n div 72057594037927936 mod 256 = n div 72057594037927936"
    by (simp add: less_mult_imp_div_less)
  show ?thesis
    using digit_step [of n 281474976710656] digit_step [of n 1099511627776]
      digit_step [of n 4294967296] digit_step [of n 16777216]
      digit_step [of n 65536] digit_step [of n 256] digit_step [of n 1]
    by (simp add: be64_def unat_ucast_drop_bit8 unat_ucast8 [of w] top algebra_simps flip: n_def)
qed

lemma of_be_be [wire_simps, simp]:
  "of_be32 (be32 w) = w" "of_be64 (be64 v) = v"
  "of_le32 (le32 w) = w" "of_le64 (le64 v) = v"
  by (simp_all only: of_be32_def of_be64_def of_le32_def of_le64_def le32_def le64_def
      rev_rev_ident be_nat_be32 be_nat_be64 of_nat_unat ucast_id)

lemma of_le16_le16 [wire_simps, simp]: "of_le16 (le16 h) = h"
proof -
  define n where "n = unat h"
  have "n < 65536"
    using unsigned_less [of h, where ?'a = nat] by (simp add: n_def)
  then have top: "n div 256 mod 256 = n div 256"
    by (simp add: less_mult_imp_div_less)
  have "be_nat (rev (le16 h)) = n"
    using digit_step [of n 1]
    by (simp add: le16_def unat_ucast_drop_bit8 unat_ucast8 [of h] top flip: n_def)
  then show ?thesis
    by (simp only: of_le16_def n_def of_nat_unat ucast_id)
qed

section \<open>Strings and bytes\<close>

text \<open>A Go string is a sequence of bytes; \<open>go_string\<close> and \<open>go_bytes\<close> are the conversions.\<close>

definition go_string :: "bytes \<Rightarrow> string" where
  "go_string bs = map (\<lambda>b. char_of (unat b)) bs"

definition go_bytes :: "string \<Rightarrow> bytes" where
  "go_bytes s = map (\<lambda>c. of_nat (of_char c)) s"

lemma go_string_bytes [simp]: "go_string (go_bytes s) = s"
  by (induction s) (simp_all add: go_string_def go_bytes_def unsigned_of_nat take_bit_nat_eq_self)

lemma go_bytes_string [simp]: "go_bytes (go_string bs) = bs"
  by (induction bs) (simp_all add: go_string_def go_bytes_def)

lemma length_go_bytes [simp]: "length (go_bytes s) = length s"
  by (simp add: go_bytes_def)

lemma go_bytes_eq_iff [simp]: "go_bytes a = go_bytes b \<longleftrightarrow> a = b"
  by (metis go_string_bytes)

text \<open>\<open>strconv.Itoa\<close> of a non-negative number.\<close>

fun itoa :: "nat \<Rightarrow> string" where
  "itoa n = (if n < 10 then [char_of (48 + n)] else itoa (n div 10) @ [char_of (48 + n mod 10)])"

declare itoa.simps [simp del]

lemma itoa_chars: "c \<in> set (itoa n) \<Longrightarrow> \<exists>d<10. c = char_of (48 + d :: nat)"
proof (induction n rule: itoa.induct)
  case (1 n)
  show ?case
  proof (cases "n < 10")
    case True
    then show ?thesis
      using "1.prems" by (auto simp: itoa.simps [of n])
  next
    case False
    then have "c \<in> set (itoa (n div 10)) \<or> c = char_of (48 + n mod 10)"
      using "1.prems" by (auto simp: itoa.simps [of n])
    then show ?thesis
      using "1.IH" [OF False] by (auto intro: exI [of _ "n mod 10"])
  qed
qed

end
