(* ===== verification/Path.thy ===== *)
theory Path
  imports Prelude
begin

text \<open>
  Slash-separated path names, as \<open>path/filepath\<close> treats them on the Unix platforms: \<open>Clean\<close>, \<open>Join\<close>,
  \<open>Base\<close>, \<open>Dir\<close>, \<open>IsAbs\<close>, \<open>Ext\<close> and \<open>Rel\<close>, and the splitting and prefix functions of
  \<open>strings\<close>. On top of them stand the two guards by which the program confines names taken from
  outside: the session-identifier check of \<open>fold\<close>, \<open>vfs\<close> and \<open>enroll\<close>, and \<open>pathWithin\<close>.
\<close>

section \<open>Strings\<close>

fun split_on :: "char \<Rightarrow> string \<Rightarrow> string list" where
  "split_on c [] = [[]]"
| "split_on c (x # xs) =
     (if x = c then [] # split_on c xs
      else (case split_on c xs of [] \<Rightarrow> [[x]] | h # t \<Rightarrow> (x # h) # t))"

fun join_with :: "string \<Rightarrow> string list \<Rightarrow> string" where
  "join_with sep [] = []"
| "join_with sep [x] = x"
| "join_with sep (x # y # zs) = x @ sep @ join_with sep (y # zs)"

definition has_prefix :: "string \<Rightarrow> string \<Rightarrow> bool" where
  "has_prefix p s \<longleftrightarrow> take (length p) s = p"

definition has_suffix :: "string \<Rightarrow> string \<Rightarrow> bool" where
  "has_suffix p s \<longleftrightarrow> has_prefix (rev p) (rev s)"

definition trim_prefix :: "string \<Rightarrow> string \<Rightarrow> string" where
  "trim_prefix p s = (if has_prefix p s then drop (length p) s else s)"

definition trim_suffix :: "string \<Rightarrow> string \<Rightarrow> string" where
  "trim_suffix p s = (if has_suffix p s then take (length s - length p) s else s)"

definition contains_any :: "string \<Rightarrow> string \<Rightarrow> bool" where
  "contains_any cs s \<longleftrightarrow> list_ex (\<lambda>c. c \<in> set cs) s"

lemma has_prefix_append [simp]: "has_prefix p (p @ s)"
  by (simp add: has_prefix_def)

lemma trim_prefix_append [simp]: "trim_prefix p (p @ s) = s"
  by (simp add: trim_prefix_def)

lemma split_on_nonempty [simp]: "split_on c s \<noteq> []"
  by (induction s) (auto split: list.splits)

lemma split_on_append: "split_on c (a @ c # b) = split_on c a @ split_on c b"
  by (induction a) (auto split: list.splits)

lemma split_on_no_sep [simp]: "c \<notin> set s \<Longrightarrow> split_on c s = [s]"
  by (induction s) auto

lemma split_on_parts_clean: "x \<in> set (split_on c s) \<Longrightarrow> c \<notin> set x"
proof (induction s arbitrary: x)
  case Nil
  then show ?case by simp
next
  case (Cons a s)
  then show ?case
    by (cases "split_on c s") (auto split: if_splits)
qed

lemma split_on_join:
  "xs \<noteq> [] \<Longrightarrow> \<forall>x \<in> set xs. c \<notin> set x \<Longrightarrow> split_on c (join_with [c] xs) = xs"
  by (induction "[c]" xs rule: join_with.induct) (auto simp: split_on_append)

section \<open>Clean\<close>

definition slash :: char where
  "slash = CHR ''/''"

definition is_abs :: "string \<Rightarrow> bool" where
  "is_abs p \<longleftrightarrow> p \<noteq> [] \<and> hd p = slash"

definition clean_step :: "bool \<Rightarrow> string list \<Rightarrow> string \<Rightarrow> string list" where
  "clean_step rooted out c =
     (if c = [] \<or> c = ''.'' then out
      else if c = ''..'' then
        (if out \<noteq> [] \<and> last out \<noteq> ''..'' then butlast out
         else if rooted then out
         else out @ [c])
      else out @ [c])"

definition path_comps :: "string \<Rightarrow> string list" where
  "path_comps p = foldl (clean_step (is_abs p)) [] (split_on slash p)"

definition render :: "bool \<Rightarrow> string list \<Rightarrow> string" where
  "render rooted cs =
     (if rooted then slash # join_with [slash] cs
      else if cs = [] then ''.'' else join_with [slash] cs)"

definition path_clean :: "string \<Rightarrow> string" where
  "path_clean p = render (is_abs p) (path_comps p)"

definition path_join :: "string list \<Rightarrow> string" where
  "path_join elems =
     (let es = dropWhile (\<lambda>e. e = []) elems
      in if es = [] then [] else path_clean (join_with [slash] es))"

definition path_base :: "string \<Rightarrow> string" where
  "path_base p =
     (if p = [] then ''.''
      else let q = rev (dropWhile (\<lambda>c. c = slash) (rev p))
           in if q = [] then [slash] else last (split_on slash q))"

definition path_dir :: "string \<Rightarrow> string" where
  "path_dir p = path_clean (rev (dropWhile (\<lambda>c. c \<noteq> slash) (rev p)))"

definition path_ext :: "string \<Rightarrow> string" where
  "path_ext p =
     (let n = last (split_on slash p);
          r = takeWhile (\<lambda>c. c \<noteq> CHR ''.'') (rev n)
      in if CHR ''.'' \<in> set n then CHR ''.'' # rev r else [])"

fun drop_common :: "string list \<Rightarrow> string list \<Rightarrow> string list \<times> string list" where
  "drop_common (x # xs) (y # ys) = (if x = y then drop_common xs ys else (x # xs, y # ys))"
| "drop_common xs ys = (xs, ys)"

text \<open>\<open>None\<close> is the error of \<open>Rel\<close>: the target cannot be made relative to the base.\<close>

definition path_rel :: "string \<Rightarrow> string \<Rightarrow> string option" where
  "path_rel base targ =
     (if path_clean base = path_clean targ then Some ''.''
      else if is_abs base \<noteq> is_abs targ then None
      else case drop_common (path_comps base) (path_comps targ) of (bs, ts) \<Rightarrow>
        if bs \<noteq> [] \<and> hd bs = ''..'' then None
        else Some (join_with [slash] (replicate (length bs) ''..'' @ ts)))"

definition pathWithin :: "string \<Rightarrow> string \<Rightarrow> bool" where
  "pathWithin directory path =
     (case path_rel directory path of
        None \<Rightarrow> False
      | Some relative \<Rightarrow> relative \<noteq> ''..'' \<and> \<not> has_prefix ''../'' relative)"

definition safeSessionID :: "string \<Rightarrow> bool" where
  "safeSessionID sessionID \<longleftrightarrow>
     sessionID \<noteq> [] \<and> sessionID \<noteq> ''.'' \<and> sessionID \<noteq> ''..'' \<and>
     \<not> contains_any [CHR ''/'', CHR 0x5C, CHR 0x00] sessionID"

section \<open>Components of a cleaned path\<close>

definition proper_comp :: "string \<Rightarrow> bool" where
  "proper_comp c \<longleftrightarrow> c \<noteq> [] \<and> c \<noteq> ''.'' \<and> c \<noteq> ''..'' \<and> slash \<notin> set c"

lemma safeSessionID_proper: "safeSessionID s \<Longrightarrow> proper_comp s"
  by (auto simp: safeSessionID_def proper_comp_def contains_any_def list_ex_iff slash_def)

lemma clean_step_proper [simp]: "proper_comp c \<Longrightarrow> clean_step r out c = out @ [c]"
  by (auto simp: proper_comp_def clean_step_def)

lemma clean_step_rooted_proper:
  "\<forall>x \<in> set out. proper_comp x \<Longrightarrow> slash \<notin> set c \<Longrightarrow>
   \<forall>x \<in> set (clean_step True out c). proper_comp x"
  by (auto simp: clean_step_def proper_comp_def dest: in_set_butlastD)

lemma foldl_clean_rooted_proper:
  "\<forall>x \<in> set out. proper_comp x \<Longrightarrow> \<forall>c \<in> set cs. slash \<notin> set c \<Longrightarrow>
   \<forall>x \<in> set (foldl (clean_step True) out cs). proper_comp x"
proof (induction cs arbitrary: out)
  case Nil
  then show ?case by simp
next
  case (Cons c cs)
  have "\<forall>x \<in> set (clean_step True out c). proper_comp x"
    by (rule clean_step_rooted_proper) (use Cons.prems in auto)
  moreover have "\<forall>c \<in> set cs. slash \<notin> set c"
    using Cons.prems by simp
  ultimately show ?case
    unfolding foldl_Cons by (rule Cons.IH)
qed

lemma path_comps_abs_proper: "is_abs p \<Longrightarrow> x \<in> set (path_comps p) \<Longrightarrow> proper_comp x"
  using foldl_clean_rooted_proper [of "[]" "split_on slash p"] split_on_parts_clean
  by (auto simp: path_comps_def)

lemma foldl_clean_proper_id:
  "\<forall>x \<in> set cs. proper_comp x \<Longrightarrow> foldl (clean_step r) out cs = out @ cs"
  by (induction cs arbitrary: out) auto

lemma path_comps_render:
  "\<forall>x \<in> set cs. proper_comp x \<Longrightarrow> path_comps (render True cs) = cs"
  by (cases "cs = []")
    (auto simp: path_comps_def render_def is_abs_def clean_step_def split_on_join
      foldl_clean_proper_id proper_comp_def)

lemma is_abs_render [simp]: "is_abs (render True cs)"
  by (simp add: is_abs_def render_def)

lemma is_abs_clean [simp]: "is_abs p \<Longrightarrow> is_abs (path_clean p)"
  by (simp add: path_clean_def)

lemma path_comps_clean [simp]: "is_abs p \<Longrightarrow> path_comps (path_clean p) = path_comps p"
  by (simp add: path_clean_def path_comps_render path_comps_abs_proper)

lemma path_clean_idem [simp]: "is_abs p \<Longrightarrow> path_clean (path_clean p) = path_clean p"
  using is_abs_clean [of p] by (simp add: path_clean_def [of "path_clean p"])
    (simp add: path_clean_def)

lemma path_clean_eq_iff:
  assumes "is_abs p" and "is_abs q"
  shows "path_clean p = path_clean q \<longleftrightarrow> path_comps p = path_comps q"
proof
  assume "path_clean p = path_clean q"
  then have "path_comps (path_clean p) = path_comps (path_clean q)"
    by (rule arg_cong)
  with assms show "path_comps p = path_comps q"
    by simp
next
  assume "path_comps p = path_comps q"
  with assms show "path_clean p = path_clean q"
    by (simp add: path_clean_def)
qed

section \<open>Joining\<close>

lemma is_abs_append [simp]: "is_abs p \<Longrightarrow> is_abs (p @ q)"
  by (cases p) (auto simp: is_abs_def)

lemma path_comps_append:
  "is_abs p \<Longrightarrow> path_comps (p @ slash # q) = foldl (clean_step True) (path_comps p) (split_on slash q)"
  by (simp add: path_comps_def split_on_append)

lemma path_join_Cons:
  "is_abs p \<Longrightarrow> path_join (p # es) = path_clean (join_with [slash] (p # es))"
  by (auto simp: path_join_def is_abs_def)

lemma join_with_Cons2: "join_with sep (x # y # zs) = x @ sep @ join_with sep (y # zs)"
  by simp

lemma path_comps_join_with:
  "is_abs p \<Longrightarrow> \<forall>e \<in> set es. proper_comp e \<Longrightarrow>
   is_abs (join_with [slash] (p # es)) \<and> path_comps (join_with [slash] (p # es)) = path_comps p @ es"
proof (induction es arbitrary: p)
  case Nil
  then show ?case by simp
next
  case (Cons e es)
  have e: "path_comps (p @ slash # e) = path_comps p @ [e]"
    using Cons.prems by (simp add: path_comps_append) (simp add: proper_comp_def)
  have "join_with [slash] (p # e # es) = join_with [slash] ((p @ slash # e) # es)"
    by (cases es) auto
  moreover have "is_abs (p @ slash # e)"
    using Cons.prems by simp
  ultimately show ?case
    using Cons.IH [of "p @ slash # e"] Cons.prems e by simp
qed

lemma path_join_proper:
  assumes "is_abs p" and "\<forall>e \<in> set es. proper_comp e"
  shows "is_abs (path_join (p # es))" and "path_comps (path_join (p # es)) = path_comps p @ es"
    and "path_join (p # es) = render True (path_comps p @ es)"
proof -
  note * = path_comps_join_with [OF assms]
  show "is_abs (path_join (p # es))" "path_comps (path_join (p # es)) = path_comps p @ es"
    using * assms(1) by (simp_all add: path_join_Cons)
  show "path_join (p # es) = render True (path_comps p @ es)"
    using * assms(1) by (simp add: path_join_Cons path_clean_def)
qed

section \<open>The guards\<close>

lemma drop_common_prefix: "drop_common xs (xs @ ys) = ([], ys)"
  by (induction xs) (cases ys, auto)

lemma drop_common_eq: "drop_common xs ys = (as, bs) \<Longrightarrow> \<exists>p. xs = p @ as \<and> ys = p @ bs"
proof (induction xs ys rule: drop_common.induct)
  case (1 x xs y ys)
  then show ?case
    by (auto split: if_splits)
qed auto

lemma join_dotdot_prefix:
  "join_with [slash] (''..'' # xs) = ''..'' \<or> has_prefix ''../'' (join_with [slash] (''..'' # xs))"
  by (cases xs) (auto simp: has_prefix_def slash_def)

lemma proper_join_not_up:
  assumes "proper_comp x"
  shows "join_with [slash] (x # xs) \<noteq> ''..'' \<and> \<not> has_prefix ''../'' (join_with [slash] (x # xs))"
proof -
  have "hd (split_on slash (join_with [slash] (x # xs))) = x"
    using assms by (cases xs) (auto simp: split_on_append proper_comp_def)
  moreover have "hd (split_on slash ''..'') = ''..''"
    by (simp add: slash_def)
  moreover have "hd (split_on slash s) = ''..''" if "has_prefix ''../'' s" for s
  proof -
    have "s = take 3 s @ drop 3 s"
      by simp
    also have "take 3 s = ''../''"
      using that by (simp add: has_prefix_def numeral_eq_Suc)
    finally obtain t where "s = ''..'' @ slash # t"
      by (simp add: slash_def)
    then show ?thesis
      using split_on_append [of slash "''..''" t] by (simp add: slash_def)
  qed
  ultimately show ?thesis
    using assms by (auto simp: proper_comp_def)
qed

text \<open>
  On absolute paths \<open>pathWithin\<close> decides exactly whether the cleaned directory is a prefix, component
  by component, of the cleaned path.
\<close>

lemma pathWithin_iff_prefix:
  assumes "is_abs d" and "is_abs p"
  shows "pathWithin d p \<longleftrightarrow> (\<exists>rest. path_comps p = path_comps d @ rest)"
proof (cases "path_comps d = path_comps p")
  case True
  then have "pathWithin d p"
    using assms by (simp add: pathWithin_def path_rel_def path_clean_eq_iff has_prefix_def)
  with True show ?thesis by auto
next
  case False
  obtain bs ts where dc: "drop_common (path_comps d) (path_comps p) = (bs, ts)"
    by (cases "drop_common (path_comps d) (path_comps p)")
  then obtain c where c: "path_comps d = c @ bs" "path_comps p = c @ ts"
    using drop_common_eq by blast
  have bs: "\<forall>x \<in> set bs. proper_comp x" and ts: "\<forall>x \<in> set ts. proper_comp x"
    using path_comps_abs_proper [OF assms(1)] path_comps_abs_proper [OF assms(2)] c by auto
  have hdbs: "bs \<noteq> [] \<longrightarrow> hd bs \<noteq> ''..''"
    using bs by (cases bs) (simp_all add: proper_comp_def)
  have rel: "path_rel d p = Some (join_with [slash] (replicate (length bs) ''..'' @ ts))"
    using False assms dc hdbs by (auto simp: path_rel_def path_clean_eq_iff)
  show ?thesis
  proof (cases bs)
    case Nil
    then obtain t ts' where "ts = t # ts'"
      using False c by (cases ts) auto
    then have "pathWithin d p"
      using rel Nil ts proper_join_not_up [of t ts'] by (simp add: pathWithin_def)
    with Nil c show ?thesis by auto
  next
    case (Cons b bs')
    then have "\<not> pathWithin d p"
      using rel join_dotdot_prefix [of "replicate (length bs') ''..'' @ ts"]
      by (auto simp: pathWithin_def)
    moreover have "\<nexists>rest. path_comps p = path_comps d @ rest"
    proof
      assume "\<exists>rest. path_comps p = path_comps d @ rest"
      then obtain rest where "path_comps p = path_comps d @ rest" ..
      then show False
        using dc drop_common_prefix [of "path_comps d" rest] Cons by simp
    qed
    ultimately show ?thesis by blast
  qed
qed

lemma split_on_render_last:
  "cs \<noteq> [] \<Longrightarrow> \<forall>x \<in> set cs. proper_comp x \<Longrightarrow> last (split_on slash (render True cs)) = last cs"
  by (simp add: render_def split_on_join proper_comp_def)

lemma join_with_snoc: "cs \<noteq> [] \<Longrightarrow> join_with sep (cs @ [x]) = join_with sep cs @ sep @ x"
  by (induction sep cs rule: join_with.induct) auto

lemma render_snoc: "render True (cs @ [x]) = (if cs = [] then [slash] else render True cs @ [slash]) @ x"
  by (simp add: render_def join_with_snoc)

lemma path_base_render_snoc:
  assumes "proper_comp x"
  shows "path_base (render True (cs @ [x])) = x"
proof -
  define pre where "pre = (if cs = [] then [] else render True cs)"
  have pre: "render True (cs @ [x]) = pre @ slash # x"
    by (auto simp: render_snoc pre_def)
  have "dropWhile (\<lambda>c. c = slash) (rev x @ slash # rev pre) = rev x @ slash # rev pre"
    using assms by (cases x rule: rev_cases) (auto simp: proper_comp_def)
  then show ?thesis
    using assms by (simp add: path_base_def pre split_on_append proper_comp_def)
qed

lemma dropWhile_rev_no_slash:
  "slash \<notin> set x \<Longrightarrow> dropWhile (\<lambda>c. c \<noteq> slash) (rev x @ slash # r) = slash # r"
  by (induction x rule: rev_induct) auto

lemma path_dir_render_snoc:
  assumes "proper_comp x" and "\<forall>c \<in> set cs. proper_comp c"
  shows "path_dir (render True (cs @ [x])) = render True cs"
proof -
  define pre where "pre = (if cs = [] then [] else render True cs)"
  have pre: "render True (cs @ [x]) = pre @ slash # x"
    by (auto simp: render_snoc pre_def)
  have "rev (dropWhile (\<lambda>c. c \<noteq> slash) (rev (render True (cs @ [x])))) = pre @ [slash]"
    using assms(1) by (simp add: pre dropWhile_rev_no_slash proper_comp_def)
  moreover have "path_clean (pre @ [slash]) = render True cs"
  proof (cases "cs = []")
    case True
    then show ?thesis
      by (simp add: pre_def path_clean_def path_comps_def is_abs_def clean_step_def)
  next
    case False
    then have "path_comps (pre @ [slash]) = cs"
      using path_comps_append [of "render True cs" "[]"] assms(2)
      by (simp add: pre_def path_comps_render clean_step_def)
    with False show ?thesis
      by (simp add: pre_def path_clean_def)
  qed
  ultimately show ?thesis
    by (simp add: path_dir_def)
qed

lemma path_base_join:
  "is_abs p \<Longrightarrow> \<forall>e \<in> set es. proper_comp e \<Longrightarrow> proper_comp x \<Longrightarrow> path_base (path_join (p # es @ [x])) = x"
  using path_join_proper(3) [of p "es @ [x]"] path_base_render_snoc [of x "path_comps p @ es"]
  by simp

lemma path_dir_join:
  "is_abs p \<Longrightarrow> \<forall>e \<in> set es. proper_comp e \<Longrightarrow> proper_comp x \<Longrightarrow>
   path_dir (path_join (p # es @ [x])) = path_join (p # es)"
  using path_join_proper(3) [of p "es @ [x]"] path_join_proper(3) [of p es]
    path_dir_render_snoc [of x "path_comps p @ es"] path_comps_abs_proper [of p]
  by auto

end
