(* ===== verification/Json_Decoder.thy ===== *)
theory Json_Decoder
  imports Prelude
begin

text \<open>
  The streaming interface of Go's \<open>encoding/json\<close> that \<open>src/internal/jsonraw\<close> is written against:
  \<open>Decoder.Token\<close>, \<open>Decoder.More\<close> and \<open>Decoder.InputOffset\<close>, over a reader that holds the whole
  record. The decoder is its unread suffix with the token state and stack; scalars are delimited by
  the scanner's state machine, and strings are unquoted with the UTF-8 repair of the library.
\<close>

section \<open>Bytes of the grammar\<close>

abbreviation b_quote :: byte where "b_quote \<equiv> 34"
abbreviation b_backslash :: byte where "b_backslash \<equiv> 92"
abbreviation b_comma :: byte where "b_comma \<equiv> 44"
abbreviation b_colon :: byte where "b_colon \<equiv> 58"
abbreviation b_lbrack :: byte where "b_lbrack \<equiv> 91"
abbreviation b_rbrack :: byte where "b_rbrack \<equiv> 93"
abbreviation b_lbrace :: byte where "b_lbrace \<equiv> 123"
abbreviation b_rbrace :: byte where "b_rbrace \<equiv> 125"

definition isSpace :: "byte \<Rightarrow> bool" where
  "isSpace c \<longleftrightarrow> c = 32 \<or> c = 9 \<or> c = 13 \<or> c = 10"

definition is_digit :: "byte \<Rightarrow> bool" where
  "is_digit c \<longleftrightarrow> 48 \<le> c \<and> c \<le> 57"

definition is_hex :: "byte \<Rightarrow> bool" where
  "is_hex c \<longleftrightarrow> (48 \<le> c \<and> c \<le> 57) \<or> (97 \<le> c \<and> c \<le> 102) \<or> (65 \<le> c \<and> c \<le> 70)"

section \<open>The scanner\<close>

datatype scan_state =
    BeginValue | InString | InStringEsc | InStringU nat
  | Neg | St0 | St1 | Dot | Dot0 | StE | ESign | StE0
  | Lit bytes | EndValue

datatype scan_op = ScanContinue scan_state | ScanEnd | ScanError

fun scan_step :: "scan_state \<Rightarrow> byte \<Rightarrow> scan_op" where
  "scan_step BeginValue c =
     (if isSpace c then ScanContinue BeginValue
      else if c = b_quote then ScanContinue InString
      else if c = 45 then ScanContinue Neg
      else if c = 48 then ScanContinue St0
      else if c = 116 then ScanContinue (Lit [114, 117, 101])
      else if c = 102 then ScanContinue (Lit [97, 108, 115, 101])
      else if c = 110 then ScanContinue (Lit [117, 108, 108])
      else if is_digit c then ScanContinue St1
      else ScanError)"
| "scan_step InString c =
     (if c = b_quote then ScanContinue EndValue
      else if c = b_backslash then ScanContinue InStringEsc
      else if c < 32 then ScanError
      else ScanContinue InString)"
| "scan_step InStringEsc c =
     (if c \<in> {98, 102, 110, 114, 116, b_backslash, 47, b_quote} then ScanContinue InString
      else if c = 117 then ScanContinue (InStringU 3)
      else ScanError)"
| "scan_step (InStringU n) c =
     (if is_hex c then ScanContinue (case n of 0 \<Rightarrow> InString | Suc m \<Rightarrow> InStringU m) else ScanError)"
| "scan_step Neg c =
     (if c = 48 then ScanContinue St0 else if is_digit c then ScanContinue St1 else ScanError)"
| "scan_step St1 c =
     (if is_digit c then ScanContinue St1
      else if c = 46 then ScanContinue Dot
      else if c = 101 \<or> c = 69 then ScanContinue StE
      else ScanEnd)"
| "scan_step St0 c =
     (if c = 46 then ScanContinue Dot else if c = 101 \<or> c = 69 then ScanContinue StE else ScanEnd)"
| "scan_step Dot c = (if is_digit c then ScanContinue Dot0 else ScanError)"
| "scan_step Dot0 c =
     (if is_digit c then ScanContinue Dot0 else if c = 101 \<or> c = 69 then ScanContinue StE else ScanEnd)"
| "scan_step StE c =
     (if c = 43 \<or> c = 45 then ScanContinue ESign
      else if is_digit c then ScanContinue StE0 else ScanError)"
| "scan_step ESign c = (if is_digit c then ScanContinue StE0 else ScanError)"
| "scan_step StE0 c = (if is_digit c then ScanContinue StE0 else ScanEnd)"
| "scan_step (Lit []) c = ScanEnd"
| "scan_step (Lit (x # xs)) c =
     (if c = x then ScanContinue (case xs of [] \<Rightarrow> EndValue | _ \<Rightarrow> Lit xs) else ScanError)"
| "scan_step EndValue c = ScanEnd"

text \<open>Errors of the library and of the package that uses it.\<close>

datatype json_error =
    EOF | UnexpectedEOF | SyntaxError | ErrMultipleValues
  | LocateString nat | KeyNotString | ObjectEndedWith | ArrayEndedWith | UnexpectedDelimiter
  | OutOfFuel

text \<open>
  \<open>Decoder.readValue\<close>: the bytes of the value and what follows it. The end of a scalar is noticed one
  byte late, and at the end of the input a space is invented.
\<close>

fun readValue :: "scan_state \<Rightarrow> bytes \<Rightarrow> json_error + (bytes \<times> bytes)" where
  "readValue st [] = (if scan_step st 32 = ScanEnd then Inr ([], []) else Inl UnexpectedEOF)"
| "readValue st (b # bs) =
     (case scan_step st b of
        ScanEnd \<Rightarrow> Inr ([], b # bs)
      | ScanError \<Rightarrow> Inl SyntaxError
      | ScanContinue st' \<Rightarrow> rbind (readValue st' bs) (\<lambda>(v, rest). Inr (b # v, rest)))"

section \<open>Unquoting\<close>

fun in_range :: "byte \<Rightarrow> byte \<Rightarrow> byte \<Rightarrow> bool" where
  "in_range lo hi c \<longleftrightarrow> lo \<le> c \<and> c \<le> hi"

text \<open>\<open>utf8.DecodeRune\<close>: the rune and its width; \<open>(65533, 1)\<close> for an ill-formed prefix.\<close>

definition low6 :: "byte \<Rightarrow> nat" where
  "low6 c = unat c mod 64"

definition utf8_second :: "byte \<Rightarrow> byte \<Rightarrow> bool" where
  "utf8_second c d =
     (if c = 0xE0 then in_range 0xA0 0xBF d
      else if c = 0xED then in_range 0x80 0x9F d
      else if c = 0xF0 then in_range 0x90 0xBF d
      else if c = 0xF4 then in_range 0x80 0x8F d
      else in_range 0x80 0xBF d)"

fun DecodeRune :: "bytes \<Rightarrow> nat \<times> nat" where
  "DecodeRune [] = (65533, 0)"
| "DecodeRune (c # cs) =
     (if c < 0x80 then (unat c, 1)
      else if in_range 0xC2 0xDF c then
        (case cs of d # _ \<Rightarrow>
           if utf8_second c d then ((unat c mod 32) * 64 + low6 d, 2) else (65533, 1)
         | _ \<Rightarrow> (65533, 1))
      else if in_range 0xE0 0xEF c then
        (case cs of d # e # _ \<Rightarrow>
           if utf8_second c d \<and> in_range 0x80 0xBF e
           then ((unat c mod 16) * 4096 + low6 d * 64 + low6 e, 3) else (65533, 1)
         | _ \<Rightarrow> (65533, 1))
      else if in_range 0xF0 0xF4 c then
        (case cs of d # e # f # _ \<Rightarrow>
           if utf8_second c d \<and> in_range 0x80 0xBF e \<and> in_range 0x80 0xBF f
           then ((unat c mod 8) * 262144 + low6 d * 4096 + low6 e * 64 + low6 f, 4) else (65533, 1)
         | _ \<Rightarrow> (65533, 1))
      else (65533, 1))"

definition EncodeRune :: "nat \<Rightarrow> bytes" where
  "EncodeRune r =
     (let cont = (\<lambda>x. of_nat (128 + x mod 64) :: byte)
      in if r < 128 then [of_nat r]
         else if r < 2048 then [of_nat (192 + r div 64), cont r]
         else if 1114111 < r \<or> (55296 \<le> r \<and> r \<le> 57343) then [0xEF, 0xBF, 0xBD]
         else if r < 65536 then [of_nat (224 + r div 4096), cont (r div 64), cont r]
         else [of_nat (240 + r div 262144), cont (r div 4096), cont (r div 64), cont r])"

definition hex_nibble :: "byte \<Rightarrow> nat option" where
  "hex_nibble c =
     (if in_range 48 57 c then Some (unat c - 48)
      else if in_range 97 102 c then Some (unat c - 87)
      else if in_range 65 70 c then Some (unat c - 55)
      else None)"

fun getu4 :: "bytes \<Rightarrow> nat option" where
  "getu4 (s0 # s1 # a # b # c # d # _) =
     (if s0 = b_backslash \<and> s1 = 117
      then (case (hex_nibble a, hex_nibble b, hex_nibble c, hex_nibble d) of
              (Some w, Some x, Some y, Some z) \<Rightarrow> Some (((w * 16 + x) * 16 + y) * 16 + z)
            | _ \<Rightarrow> None)
      else None)"
| "getu4 _ = None"

definition is_surrogate :: "nat \<Rightarrow> bool" where
  "is_surrogate r \<longleftrightarrow> 55296 \<le> r \<and> r < 57344"

text \<open>\<open>utf16.DecodeRune\<close>, \<open>None\<close> where it gives the replacement character.\<close>

definition utf16_pair :: "nat \<Rightarrow> nat option \<Rightarrow> nat option" where
  "utf16_pair r1 r2 =
     (case r2 of
        Some r2 \<Rightarrow> if 55296 \<le> r1 \<and> r1 < 56320 \<and> 56320 \<le> r2 \<and> r2 < 57344
                   then Some ((r1 - 55296) * 1024 + (r2 - 56320) + 65536) else None
      | None \<Rightarrow> None)"

definition escape_char :: "byte \<Rightarrow> byte option" where
  "escape_char c =
     (if c \<in> {b_quote, b_backslash, 47, 39} then Some c
      else if c = 98 then Some 8 else if c = 102 then Some 12 else if c = 110 then Some 10
      else if c = 114 then Some 13 else if c = 116 then Some 9 else None)"

text \<open>The loop of \<open>unquoteBytes\<close> on the text between the quotes.\<close>

function unquote_loop :: "bytes \<Rightarrow> bytes option" where
  "unquote_loop [] = Some []"
| "unquote_loop (c # cs) =
     (if c = b_backslash then
        (case cs of
           [] \<Rightarrow> None
         | e # es \<Rightarrow>
             (case escape_char e of
                Some x \<Rightarrow> map_option (\<lambda>t. x # t) (unquote_loop es)
              | None \<Rightarrow>
                  (case getu4 (c # cs) of
                     None \<Rightarrow> None
                   | Some rr \<Rightarrow>
                       if is_surrogate rr then
                         (case utf16_pair rr (getu4 (drop 5 cs)) of
                            Some dec \<Rightarrow> map_option (\<lambda>t. EncodeRune dec @ t) (unquote_loop (drop 11 cs))
                          | None \<Rightarrow> map_option (\<lambda>t. EncodeRune 65533 @ t) (unquote_loop (drop 5 cs)))
                       else map_option (\<lambda>t. EncodeRune rr @ t) (unquote_loop (drop 5 cs)))))
      else if c = b_quote \<or> c < 32 then None
      else if c < 128 then map_option (\<lambda>t. c # t) (unquote_loop cs)
      else (case DecodeRune (c # cs) of
              (rr, width) \<Rightarrow> map_option (\<lambda>t. EncodeRune rr @ t) (unquote_loop (drop (width - 1) cs))))"
  by pat_completeness auto
termination
  by (relation "measure length") auto

definition unquoteBytes :: "bytes \<Rightarrow> bytes option" where
  "unquoteBytes s =
     (if length s < 2 \<or> hd s \<noteq> b_quote \<or> last s \<noteq> b_quote then None
      else unquote_loop (butlast (tl s)))"

section \<open>The token stream\<close>

datatype token_state =
    TopValue | ArrayStart | ArrayValue | ArrayComma
  | ObjectStart | ObjectKey | ObjectColon | ObjectValue | ObjectComma

record decoder =
  rest :: bytes
  tokenState :: token_state
  tokenStack :: "token_state list"

datatype token = Delim byte | StringTok bytes | ScalarTok bytes

definition NewDecoder :: "bytes \<Rightarrow> decoder" where
  "NewDecoder data = \<lparr>rest = data, tokenState = TopValue, tokenStack = []\<rparr>"

definition InputOffset :: "bytes \<Rightarrow> decoder \<Rightarrow> nat" where
  "InputOffset raw d = length raw - length (rest d)"

definition tokenValueAllowed :: "token_state \<Rightarrow> bool" where
  "tokenValueAllowed st \<longleftrightarrow> st \<in> {TopValue, ArrayStart, ArrayValue, ObjectValue}"

fun tokenValueEnd :: "token_state \<Rightarrow> token_state" where
  "tokenValueEnd ArrayStart = ArrayComma"
| "tokenValueEnd ArrayValue = ArrayComma"
| "tokenValueEnd ObjectValue = ObjectComma"
| "tokenValueEnd st = st"

definition skip_space :: "bytes \<Rightarrow> bytes" where
  "skip_space bs = dropWhile isSpace bs"

text \<open>\<open>Decode\<close> of a scalar: what \<open>Token\<close> reads once it has seen no delimiter.\<close>

definition decode_scalar :: "bytes \<Rightarrow> json_error + (token \<times> bytes)" where
  "decode_scalar bs =
     rbind (readValue BeginValue bs) (\<lambda>(v, bs').
       if hd v = b_quote
       then (case unquoteBytes v of Some s \<Rightarrow> Inr (StringTok s, bs') | None \<Rightarrow> Inl SyntaxError)
       else Inr (ScalarTok v, bs'))"

definition open_token :: "decoder \<Rightarrow> byte \<Rightarrow> bytes \<Rightarrow> token_state \<Rightarrow> json_error + (token \<times> decoder)" where
  "open_token d c cs st =
     (if tokenValueAllowed (tokenState d)
      then Inr (Delim c, \<lparr>rest = cs, tokenState = st, tokenStack = tokenState d # tokenStack d\<rparr>)
      else Inl SyntaxError)"

definition close_token :: "decoder \<Rightarrow> byte \<Rightarrow> bytes \<Rightarrow> token_state set \<Rightarrow> json_error + (token \<times> decoder)" where
  "close_token d c cs sts =
     (if tokenState d \<in> sts
      then (case tokenStack d of
              st # sts' \<Rightarrow> Inr (Delim c, \<lparr>rest = cs, tokenState = tokenValueEnd st, tokenStack = sts'\<rparr>)
            | [] \<Rightarrow> Inl SyntaxError)
      else Inl SyntaxError)"

lemma skip_space_length: "length (skip_space bs) \<le> length bs"
  by (simp add: skip_space_def length_dropWhile_le)

function Token :: "decoder \<Rightarrow> json_error + (token \<times> decoder)" where
  "Token d =
     (case skip_space (rest d) of
        [] \<Rightarrow> Inl EOF
      | c # cs \<Rightarrow>
          if c = b_lbrack then open_token d c cs ArrayStart
          else if c = b_rbrack then close_token d c cs {ArrayStart, ArrayComma}
          else if c = b_lbrace then open_token d c cs ObjectStart
          else if c = b_rbrace then close_token d c cs {ObjectStart, ObjectComma}
          else if c = b_colon then
            if tokenState d = ObjectColon
            then Token \<lparr>rest = cs, tokenState = ObjectValue, tokenStack = tokenStack d\<rparr>
            else Inl SyntaxError
          else if c = b_comma then
            if tokenState d = ArrayComma
            then Token \<lparr>rest = cs, tokenState = ArrayValue, tokenStack = tokenStack d\<rparr>
            else if tokenState d = ObjectComma
            then Token \<lparr>rest = cs, tokenState = ObjectKey, tokenStack = tokenStack d\<rparr>
            else Inl SyntaxError
          else if c = b_quote \<and> (tokenState d = ObjectStart \<or> tokenState d = ObjectKey) then
            rbind (decode_scalar (c # cs)) (\<lambda>(t, bs).
              Inr (t, \<lparr>rest = bs, tokenState = ObjectColon, tokenStack = tokenStack d\<rparr>))
          else if tokenValueAllowed (tokenState d) then
            rbind (decode_scalar (c # cs)) (\<lambda>(t, bs).
              Inr (t, \<lparr>rest = bs, tokenState = tokenValueEnd (tokenState d), tokenStack = tokenStack d\<rparr>))
          else Inl SyntaxError)"
  by pat_completeness auto
termination
proof (relation "measure (\<lambda>d. length (rest d))", goal_cases)
  case 1
  show ?case by simp
qed (use skip_space_length in \<open>metis Suc_le_lessD in_measure length_Cons decoder.select_convs(1)\<close>)+

declare Token.simps [simp del]

definition More :: "decoder \<Rightarrow> bool \<times> decoder" where
  "More d =
     (case skip_space (rest d) of
        [] \<Rightarrow> (False, d)
      | c # cs \<Rightarrow> (c \<noteq> b_rbrack \<and> c \<noteq> b_rbrace, d\<lparr>rest := c # cs\<rparr>))"

section \<open>What reading consumes\<close>

lemma readValue_split: "readValue st bs = Inr (v, r) \<Longrightarrow> bs = v @ r"
  by (induction bs arbitrary: st v)
    (auto simp: result_simps split: scan_op.splits if_splits prod.splits)

lemma readValue_EndValue [simp]: "readValue EndValue bs = Inr ([], bs)"
  by (cases bs) auto

lemma readValue_Begin:
  assumes "readValue BeginValue (c # cs) = Inr (v, r)" and "\<not> isSpace c"
  obtains w where "v = c # w" and "cs = w @ r"
  using assms readValue_split [OF assms(1)]
  by (cases v) (auto simp: result_simps split: scan_op.splits if_splits prod.splits)

lemma skip_space_split:
  obtains p where "bs = p @ skip_space bs" and "\<And>c. c \<in> set p \<Longrightarrow> isSpace c"
proof
  show "bs = takeWhile isSpace bs @ skip_space bs"
    by (simp add: skip_space_def)
qed (auto dest: set_takeWhileD)

lemma skip_space_head: "skip_space bs = c # cs \<Longrightarrow> \<not> isSpace c"
  unfolding skip_space_def by (metis hd_dropWhile list.distinct(1) list.sel(1))

lemma skip_space_id [simp]: "\<not> isSpace c \<Longrightarrow> skip_space (c # cs) = c # cs"
  by (simp add: skip_space_def)

text \<open>The bytes that may precede the text of a token: white space and the separators.\<close>

definition is_gap :: "byte \<Rightarrow> bool" where
  "is_gap c \<longleftrightarrow> isSpace c \<or> c = b_comma \<or> c = b_colon"

lemma quote_not_gap [simp]: "\<not> is_gap b_quote"
  by (simp add: is_gap_def isSpace_def)

text \<open>What a successful \<open>Token\<close> has read: a gap, then the text \<open>v\<close> of the token.\<close>

definition token_text :: "token \<Rightarrow> bytes \<Rightarrow> bytes \<Rightarrow> bool" where
  "token_text t v r \<longleftrightarrow>
     (case t of
        Delim c \<Rightarrow> v = [c]
      | StringTok s \<Rightarrow> readValue BeginValue (v @ r) = Inr (v, r) \<and> v \<noteq> [] \<and> hd v = b_quote \<and> unquoteBytes v = Some s
      | ScalarTok s \<Rightarrow> readValue BeginValue (v @ r) = Inr (v, r) \<and> v = s \<and> v \<noteq> [])"

lemma decode_scalar_text:
  assumes "decode_scalar (c # cs) = Inr (t, r)" and "\<not> isSpace c"
  shows "\<exists>v. c # cs = v @ r \<and> v \<noteq> [] \<and> token_text t v r"
proof -
  obtain v where v: "readValue BeginValue (c # cs) = Inr (v, r)"
    and t: "(if hd v = b_quote then (case unquoteBytes v of Some s \<Rightarrow> Inr (StringTok s, r) | None \<Rightarrow> Inl SyntaxError)
             else Inr (ScalarTok v, r)) = (Inr (t, r) :: json_error + token \<times> bytes)"
    using assms(1) by (auto simp: decode_scalar_def result_simps split: if_splits option.splits)
  obtain w where w: "v = c # w" "cs = w @ r"
    using readValue_Begin [OF v assms(2)] .
  have "token_text t v r"
    using t v w by (auto simp: token_text_def split: if_splits option.splits)
  then show ?thesis
    using w by (intro exI [of _ v]) simp
qed

lemma Token_text:
  "Token d = Inr (t, d') \<Longrightarrow>
   \<exists>g v. rest d = g @ v @ rest d' \<and> (\<forall>c\<in>set g. is_gap c) \<and> v \<noteq> [] \<and> token_text t v (rest d')"
proof (induction d rule: Token.induct)
  case (1 d)
  obtain g where g: "rest d = g @ skip_space (rest d)" and gap: "\<And>c. c \<in> set g \<Longrightarrow> is_gap c"
    using skip_space_split [of "rest d"] unfolding is_gap_def by metis
  obtain c cs where c: "skip_space (rest d) = c # cs"
    using 1(4) by (cases "skip_space (rest d)") (auto simp: Token.simps)
  have ns: "\<not> isSpace c"
    using skip_space_head [OF c] .
  have direct: ?case if "\<exists>v. c # cs = v @ rest d' \<and> v \<noteq> [] \<and> token_text t v (rest d')"
    using that g gap c by (metis append_assoc)
  have sep: ?case
    if gc: "is_gap c" and ex: "\<exists>g v. cs = g @ v @ rest d' \<and> (\<forall>c\<in>set g. is_gap c) \<and> v \<noteq> [] \<and> token_text t v (rest d')"
  proof -
    obtain h v where "cs = h @ v @ rest d'" "\<forall>c\<in>set h. is_gap c" "v \<noteq> []" "token_text t v (rest d')"
      using ex by blast
    then show ?thesis
      using gc g gap c by (intro exI [of _ "g @ c # h"] exI [of _ v]) auto
  qed
  have scalar: ?case if "decode_scalar (c # cs) = Inr (t, rest d')"
    using direct decode_scalar_text [OF that ns] by blast
  show ?case
    using "1.prems" "1.IH" [OF c] direct sep scalar c
    by (auto simp: Token.simps [of d] open_token_def close_token_def token_text_def is_gap_def result_simps
        split: if_splits list.splits)
qed

lemma More_rest:
  "More d = (b, d') \<Longrightarrow> \<exists>g. rest d = g @ rest d' \<and> (\<forall>c\<in>set g. isSpace c)"
proof -
  assume m: "More d = (b, d')"
  obtain g where "rest d = g @ skip_space (rest d)" "\<And>c. c \<in> set g \<Longrightarrow> isSpace c"
    using skip_space_split by blast
  then show ?thesis
    using m by (auto simp: More_def split: list.splits)
qed

end
