(* ===== verification/Go_Json.thy ===== *)
theory Go_Json
  imports Json_Decoder
begin

text \<open>
  Go's \<open>json.Marshal\<close>, \<open>json.MarshalIndent\<close> and \<open>json.Unmarshal\<close> over a type of JSON values. The
  components say how their records become values and back; this theory says how values become text
  and back, and shows that reading what was written gives the value again (\<open>parse_json_print\<close>).
\<close>

datatype jval =
    JNull | JBool bool | JNum bytes | JStr bytes
  | JArr "jval list" | JObj "(bytes \<times> jval) list"

section \<open>Reading\<close>

definition scalar_value :: "bytes \<Rightarrow> jval option" where
  "scalar_value t =
     (if hd t = b_quote then map_option JStr (unquoteBytes t)
      else if hd t = 116 then Some (JBool True)
      else if hd t = 102 then Some (JBool False)
      else if hd t = 110 then Some JNull
      else Some (JNum t))"

definition parse_scalar :: "bytes \<Rightarrow> (jval \<times> bytes) option" where
  "parse_scalar bs =
     (case readValue BeginValue bs of
        Inr (t, r) \<Rightarrow> map_option (\<lambda>v. (v, r)) (scalar_value t)
      | Inl _ \<Rightarrow> None)"

definition expect :: "byte \<Rightarrow> bytes \<Rightarrow> bytes option" where
  "expect c bs = (case skip_space bs of b # r \<Rightarrow> if b = c then Some r else None | [] \<Rightarrow> None)"

primrec parse_elems :: "nat \<Rightarrow> (bytes \<Rightarrow> (jval \<times> bytes) option) \<Rightarrow> bytes \<Rightarrow> (jval list \<times> bytes) option" where
  "parse_elems 0 pv bs = None"
| "parse_elems (Suc n) pv bs =
     (case pv bs of
        None \<Rightarrow> None
      | Some (v, r) \<Rightarrow>
          (case expect b_comma r of
             Some cs \<Rightarrow> map_option (\<lambda>(vs, r). (v # vs, r)) (parse_elems n pv cs)
           | None \<Rightarrow> map_option (\<lambda>cs. ([v], cs)) (expect b_rbrack r)))"

definition parse_key :: "bytes \<Rightarrow> (bytes \<times> bytes) option" where
  "parse_key bs =
     (case skip_space bs of
        c # cs \<Rightarrow>
          if c = b_quote then
            (case readValue BeginValue (c # cs) of
               Inr (t, r) \<Rightarrow>
                 (case unquoteBytes t of
                    Some k \<Rightarrow> map_option (\<lambda>r. (k, r)) (expect b_colon r)
                  | None \<Rightarrow> None)
             | Inl _ \<Rightarrow> None)
          else None
      | [] \<Rightarrow> None)"

primrec parse_members :: "nat \<Rightarrow> (bytes \<Rightarrow> (jval \<times> bytes) option) \<Rightarrow> bytes \<Rightarrow> ((bytes \<times> jval) list \<times> bytes) option" where
  "parse_members 0 pv bs = None"
| "parse_members (Suc n) pv bs =
     (case parse_key bs of
        None \<Rightarrow> None
      | Some (k, r) \<Rightarrow>
          (case pv r of
             None \<Rightarrow> None
           | Some (v, r) \<Rightarrow>
               (case expect b_comma r of
                  Some cs \<Rightarrow> map_option (\<lambda>(vs, r). ((k, v) # vs, r)) (parse_members n pv cs)
                | None \<Rightarrow> map_option (\<lambda>cs. ([(k, v)], cs)) (expect b_rbrace r))))"

text \<open>The first argument is the nesting depth that is still allowed.\<close>

primrec parse_value :: "nat \<Rightarrow> bytes \<Rightarrow> (jval \<times> bytes) option" where
  "parse_value 0 bs =
     (case skip_space bs of
        c # cs \<Rightarrow> if c = b_lbrack \<or> c = b_lbrace then None else parse_scalar (c # cs)
      | [] \<Rightarrow> None)"
| "parse_value (Suc n) bs =
     (case skip_space bs of
        c # cs \<Rightarrow>
          if c = b_lbrack then
            (case expect b_rbrack cs of
               Some r \<Rightarrow> Some (JArr [], r)
             | None \<Rightarrow> map_option (\<lambda>(vs, r). (JArr vs, r)) (parse_elems (length cs) (parse_value n) cs))
          else if c = b_lbrace then
            (case expect b_rbrace cs of
               Some r \<Rightarrow> Some (JObj [], r)
             | None \<Rightarrow> map_option (\<lambda>(vs, r). (JObj vs, r)) (parse_members (length cs) (parse_value n) cs))
          else parse_scalar (c # cs)
      | [] \<Rightarrow> None)"

definition parse_json :: "bytes \<Rightarrow> jval option" where
  "parse_json bs =
     (case parse_value 10000 bs of
        Some (v, r) \<Rightarrow> if skip_space r = [] then Some v else None
      | None \<Rightarrow> None)"

section \<open>Writing\<close>

definition hex_nibble_byte :: "nat \<Rightarrow> byte" where
  "hex_nibble_byte n = (if n < 10 then of_nat (48 + n) else of_nat (87 + n))"

definition escape_ascii :: "byte \<Rightarrow> bytes" where
  "escape_ascii c =
     (if c = b_backslash \<or> c = b_quote then [b_backslash, c]
      else if c = 8 then [b_backslash, 98] else if c = 12 then [b_backslash, 102]
      else if c = 10 then [b_backslash, 110] else if c = 13 then [b_backslash, 114]
      else if c = 9 then [b_backslash, 116]
      else if c < 32 \<or> c = 60 \<or> c = 62 \<or> c = 38
        then [b_backslash, 117, 48, 48, hex_nibble_byte (unat c div 16), hex_nibble_byte (unat c mod 16)]
      else [c])"

text \<open>\<open>appendString\<close> without its quotes, with the escaping of HTML characters that \<open>Marshal\<close> uses.\<close>

function escape_string :: "bytes \<Rightarrow> bytes" where
  "escape_string [] = []"
| "escape_string (c # cs) =
     (if c < 128 then escape_ascii c @ escape_string cs
      else (case DecodeRune (c # cs) of
              (rr, width) \<Rightarrow>
                if width = 1 then [b_backslash, 117, 102, 102, 102, 100] @ escape_string cs
                else if rr = 8232 \<or> rr = 8233
                  then [b_backslash, 117, 50, 48, 50, hex_nibble_byte (rr mod 16)] @ escape_string (drop (width - 1) cs)
                else take width (c # cs) @ escape_string (drop (width - 1) cs)))"
  by pat_completeness auto
termination
  by (relation "measure length") auto

definition quote_string :: "bytes \<Rightarrow> bytes" where
  "quote_string s = b_quote # escape_string s @ [b_quote]"

text \<open>White space of a layout: after an opening delimiter, after a comma, before a closing delimiter (each at a
  nesting level), and after a colon.\<close>

record layout =
  ws_open :: "nat \<Rightarrow> bytes"
  ws_comma :: "nat \<Rightarrow> bytes"
  ws_close :: "nat \<Rightarrow> bytes"
  ws_colon :: bytes

definition compact :: layout where
  "compact = \<lparr>ws_open = (\<lambda>_. []), ws_comma = (\<lambda>_. []), ws_close = (\<lambda>_. []), ws_colon = []\<rparr>"

definition newline_indent :: "nat \<Rightarrow> bytes" where
  "newline_indent n = 10 # replicate (2 * n) 32"

definition indented :: layout where
  "indented = \<lparr>ws_open = (\<lambda>n. newline_indent (n + 1)), ws_comma = (\<lambda>n. newline_indent (n + 1)),
     ws_close = newline_indent, ws_colon = [32]\<rparr>"

fun join_bytes :: "bytes \<Rightarrow> bytes list \<Rightarrow> bytes" where
  "join_bytes sep [] = []"
| "join_bytes sep [x] = x"
| "join_bytes sep (x # xs) = x @ sep @ join_bytes sep xs"

fun print_json :: "layout \<Rightarrow> nat \<Rightarrow> jval \<Rightarrow> bytes" where
  "print_json l n JNull = [110, 117, 108, 108]"
| "print_json l n (JBool b) = (if b then [116, 114, 117, 101] else [102, 97, 108, 115, 101])"
| "print_json l n (JNum t) = t"
| "print_json l n (JStr s) = quote_string s"
| "print_json l n (JArr vs) =
     (if vs = [] then [b_lbrack, b_rbrack]
      else b_lbrack # ws_open l n @ join_bytes (b_comma # ws_comma l n) (map (print_json l (n + 1)) vs)
           @ ws_close l n @ [b_rbrack])"
| "print_json l n (JObj ms) =
     (if ms = [] then [b_lbrace, b_rbrace]
      else b_lbrace # ws_open l n
           @ join_bytes (b_comma # ws_comma l n)
               (map (\<lambda>m. quote_string (fst m) @ b_colon # ws_colon l @ print_json l (n + 1) (snd m)) ms)
           @ ws_close l n @ [b_rbrace])"

definition Marshal :: "jval \<Rightarrow> bytes" where
  "Marshal v = print_json compact 0 v"

definition MarshalIndent :: "jval \<Rightarrow> bytes" where
  "MarshalIndent v = print_json indented 0 v"

section \<open>UTF-8\<close>

function valid_utf8 :: "bytes \<Rightarrow> bool" where
  "valid_utf8 [] = True"
| "valid_utf8 (c # cs) =
     (if c < 128 then valid_utf8 cs
      else snd (DecodeRune (c # cs)) \<noteq> 1 \<and> valid_utf8 (drop (snd (DecodeRune (c # cs)) - 1) cs))"
  by pat_completeness auto
termination
  by (relation "measure length") auto

lemma word_le_unat: "a \<le> b \<longleftrightarrow> unat a \<le> unat (b :: byte)"
  by (simp add: word_le_nat_alt)

lemma of_nat_unat_byte [simp]: "(of_nat (unat c) :: byte) = c"
  by simp

lemma byte_eqI: "unat a = n \<Longrightarrow> (of_nat n :: byte) = a" for a :: byte
  by auto

lemma div_mod_digit: "x < k \<Longrightarrow> (a * k + x) div k = a \<and> (a * k + x) mod k = x" for x k a :: nat
  by simp

lemma EncodeRune2:
  assumes "194 \<le> x" "x \<le> 223" "128 \<le> y" "y \<le> 191"
  shows "EncodeRune ((x mod 32) * 64 + y mod 64) = [of_nat x, of_nat y]"
proof -
  define a b where "a = x - 192" and "b = y - 128"
  have ab: "x = 192 + a" "y = 128 + b" "2 \<le> a" "a < 32" "b < 64"
    using assms by (auto simp: a_def b_def)
  have m: "x mod 32 = a" "y mod 64 = b"
    using ab div_mod_digit [of a 32 6] div_mod_digit [of b 64 2] by simp_all
  show ?thesis
    unfolding m using ab div_mod_digit [of b 64 a] by (simp add: EncodeRune_def Let_def)
qed

lemma EncodeRune3:
  assumes "224 \<le> x" "x \<le> 239" "128 \<le> y" "y \<le> 191" "128 \<le> z" "z \<le> 191"
    and "x = 224 \<longrightarrow> 160 \<le> y" and "x = 237 \<longrightarrow> y \<le> 159"
  shows "EncodeRune ((x mod 16) * 4096 + (y mod 64) * 64 + z mod 64) = [of_nat x, of_nat y, of_nat z]"
proof -
  define a b c where "a = x - 224" and "b = y - 128" and "c = z - 128"
  have abc: "x = 224 + a" "y = 128 + b" "z = 128 + c" "a < 16" "b < 64" "c < 64"
    using assms by (auto simp: a_def b_def c_def)
  have m: "x mod 16 = a" "y mod 64 = b" "z mod 64 = c"
    using abc div_mod_digit [of a 16 14] div_mod_digit [of b 64 2] div_mod_digit [of c 64 2] by simp_all
  define r where "r = a * 4096 + b * 64 + c"
  have "r = a * 4096 + (b * 64 + c)" "r = (a * 64 + b) * 64 + c"
    by (simp_all add: r_def)
  then have "r div 4096 = a" "r div 64 mod 64 = b" "r mod 64 = c"
    using div_mod_digit [of "b * 64 + c" 4096 a] div_mod_digit [of c 64 "a * 64 + b"] abc by simp_all
  moreover have "2048 \<le> r" "r < 65536"
    using assms(7) abc unfolding r_def by auto
  moreover have "\<not> (55296 \<le> r \<and> r \<le> 57343)"
  proof (cases "a = 13")
    case True
    then show ?thesis using assms(8) abc unfolding r_def by auto
  next
    case False
    then have "a \<le> 12 \<or> 14 \<le> a" by arith
    then show ?thesis using abc unfolding r_def by auto
  qed
  ultimately have "r div 4096 = a" "r div 64 mod 64 = b" "r mod 64 = c" "2048 \<le> r" "r < 65536"
    "\<not> (55296 \<le> r \<and> r \<le> 57343)" by auto
  then show ?thesis
    unfolding m by (auto simp: EncodeRune_def Let_def abc simp flip: r_def)
qed

lemma EncodeRune4:
  assumes "240 \<le> x" "x \<le> 244" "128 \<le> y" "y \<le> 191" "128 \<le> z" "z \<le> 191" "128 \<le> w" "w \<le> 191"
    and "x = 240 \<longrightarrow> 144 \<le> y" and "x = 244 \<longrightarrow> y \<le> 143"
  shows "EncodeRune ((x mod 8) * 262144 + (y mod 64) * 4096 + (z mod 64) * 64 + w mod 64) =
    [of_nat x, of_nat y, of_nat z, of_nat w]"
proof -
  define a b c d where "a = x - 240" and "b = y - 128" and "c = z - 128" and "d = w - 128"
  have abc: "x = 240 + a" "y = 128 + b" "z = 128 + c" "w = 128 + d" "a < 5" "b < 64" "c < 64" "d < 64"
    using assms by (auto simp: a_def b_def c_def d_def)
  have m: "x mod 8 = a" "y mod 64 = b" "z mod 64 = c" "w mod 64 = d"
    using abc div_mod_digit [of a 8 30] div_mod_digit [of b 64 2] div_mod_digit [of c 64 2] div_mod_digit [of d 64 2]
    by simp_all
  define r where "r = a * 262144 + b * 4096 + c * 64 + d"
  have "r = a * 262144 + (b * 4096 + c * 64 + d)" "r = (a * 64 + b) * 4096 + (c * 64 + d)"
      "r = (a * 4096 + b * 64 + c) * 64 + d"
    by (simp_all add: r_def)
  then have "r div 262144 = a" "r div 4096 = a * 64 + b" "r div 64 = a * 4096 + b * 64 + c" "r mod 64 = d"
    using div_mod_digit [of "b * 4096 + c * 64 + d" 262144 a] div_mod_digit [of "c * 64 + d" 4096 "a * 64 + b"]
      div_mod_digit [of d 64 "a * 4096 + b * 64 + c"] abc by simp_all
  moreover have "(a * 64 + b) mod 64 = b" "(a * 4096 + b * 64 + c) mod 64 = c"
    using div_mod_digit [of b 64 a] div_mod_digit [of c 64 "a * 64 + b"] abc by (simp_all add: algebra_simps)
  moreover have "65536 \<le> r" "r \<le> 1114111"
    using assms(9,10) abc unfolding r_def by (cases "a = 4"; auto)+
  ultimately have "r div 262144 = a" "r div 4096 mod 64 = b" "r div 64 mod 64 = c" "r mod 64 = d" "65536 \<le> r" "r \<le> 1114111"
    by auto
  then show ?thesis
    unfolding m by (simp add: EncodeRune_def Let_def abc flip: r_def)
qed


text \<open>A well-formed multi-byte sequence: its rune encodes to the same bytes, all of them at least 128, whatever
  follows.\<close>

lemma DecodeRune_multi:
  assumes "DecodeRune (c # cs) = (rr, w)" and "\<not> c < 128" and "w \<noteq> 1"
  shows "EncodeRune rr = take w (c # cs) \<and> 2 \<le> w \<and> w \<le> length (c # cs) \<and>
    (\<forall>b\<in>set (take w (c # cs)). 128 \<le> b) \<and> (\<forall>t. DecodeRune (take w (c # cs) @ t) = (rr, w))"
proof -
  have c: "\<not> c < 0x80"
    using assms(2) by simp
  show ?thesis
  proof (cases "in_range 0xC2 0xDF c")
    case two: True
    then obtain d ds where cs: "cs = d # ds" and d: "utf8_second c d" and rr: "rr = (unat c mod 32) * 64 + low6 d" "w = 2"
      using assms c by (auto split: list.splits if_splits)
    have rng: "194 \<le> unat c" "unat c \<le> 223" "128 \<le> unat d" "unat d \<le> 191"
      using two d by (auto simp: utf8_second_def word_le_unat split: if_splits)
    have "EncodeRune rr = [c, d]"
      using EncodeRune2 [OF rng] rr by (simp add: low6_def)
    then show ?thesis
      using c two d rr rng by (simp add: cs word_le_unat)
  next
    case not2: False
    show ?thesis
    proof (cases "in_range 0xE0 0xEF c")
      case three: True
      then obtain d e ds where cs: "cs = d # e # ds" and d: "utf8_second c d" "in_range 0x80 0xBF e"
        and rr: "rr = (unat c mod 16) * 4096 + low6 d * 64 + low6 e" "w = 3"
        using assms c not2 by (auto split: list.splits if_splits)
      have rng: "224 \<le> unat c" "unat c \<le> 239" "128 \<le> unat d" "unat d \<le> 191" "128 \<le> unat e" "unat e \<le> 191"
          "unat c = 224 \<longrightarrow> 160 \<le> unat d" "unat c = 237 \<longrightarrow> unat d \<le> 159"
        using three d by (auto simp: utf8_second_def word_le_unat word_unat_eq_iff split: if_splits)
      have "EncodeRune rr = [c, d, e]"
        using EncodeRune3 [OF rng] rr by (simp add: low6_def)
      then show ?thesis
        using c not2 three d rr rng by (simp add: cs word_le_unat)
    next
      case not3: False
      show ?thesis
      proof (cases "in_range 0xF0 0xF4 c")
        case four: True
        then obtain d e f ds where cs: "cs = d # e # f # ds"
          and d: "utf8_second c d" "in_range 0x80 0xBF e" "in_range 0x80 0xBF f"
          and rr: "rr = (unat c mod 8) * 262144 + low6 d * 4096 + low6 e * 64 + low6 f" "w = 4"
          using assms c not2 not3 by (auto split: list.splits if_splits)
        have rng: "240 \<le> unat c" "unat c \<le> 244" "128 \<le> unat d" "unat d \<le> 191" "128 \<le> unat e" "unat e \<le> 191"
            "128 \<le> unat f" "unat f \<le> 191" "unat c = 240 \<longrightarrow> 144 \<le> unat d" "unat c = 244 \<longrightarrow> unat d \<le> 143"
          using four d by (auto simp: utf8_second_def word_le_unat word_unat_eq_iff split: if_splits)
        have "EncodeRune rr = [c, d, e, f]"
          using EncodeRune4 [OF rng] rr by (simp add: low6_def)
        then show ?thesis
          using c not2 not3 four d rr rng by (simp add: cs word_le_unat)
      next
        case False
        then show ?thesis
          using assms c not2 not3 by (auto split: if_splits)
      qed
    qed
  qed
qed


declare DecodeRune.simps(2) [simp del]

section \<open>Strings\<close>

lemma nibble_cases: "n < 16 \<Longrightarrow> n \<in> {0, 1, 2, 3, 4, 5, 6, 7, 8, 9, 10, 11, 12, 13, 14, 15}" for n :: nat
  by (simp, presburger)

lemma hex_nibble_byte: "n < 16 \<Longrightarrow> hex_nibble (hex_nibble_byte n) = Some n \<and> is_hex (hex_nibble_byte n)"
proof -
  assume "n < 16"
  from nibble_cases [OF this] show ?thesis
    unfolding insert_iff empty_iff
    by (elim disjE) (simp_all add: hex_nibble_def hex_nibble_byte_def is_hex_def)
qed

lemma unquote_escape_u:
  assumes "unat c < 128"
  shows "unquote_loop (b_backslash # 117 # 48 # 48 # hex_nibble_byte (unat c div 16) # hex_nibble_byte (unat c mod 16) # t) =
    map_option (\<lambda>t. c # t) (unquote_loop t)"
proof -
  have "hex_nibble (hex_nibble_byte (unat c div 16)) = Some (unat c div 16)"
    "hex_nibble (hex_nibble_byte (unat c mod 16)) = Some (unat c mod 16)"
    using assms hex_nibble_byte [of "unat c div 16"] hex_nibble_byte [of "unat c mod 16"] by simp_all
  moreover have "hex_nibble 48 = Some 0"
    by (simp add: hex_nibble_def)
  moreover have "unat c div 16 * 16 + unat c mod 16 = unat c"
    by simp
  ultimately show ?thesis
    using assms by (cases "unquote_loop t") (simp_all add: escape_char_def is_surrogate_def EncodeRune_def Let_def)
qed

lemma unquote_escape_ascii:
  assumes "c < 128"
  shows "unquote_loop (escape_ascii c @ t) = map_option (\<lambda>t. c # t) (unquote_loop t)"
proof -
  have u: "unat c < 128"
    using assms by (simp add: word_less_nat_alt)
  consider "c \<in> {b_backslash, b_quote, 8, 12, 10, 13, 9}"
    | "c \<notin> {b_backslash, b_quote, 8, 12, 10, 13, 9}" "c < 32 \<or> c = 60 \<or> c = 62 \<or> c = 38"
    | "c \<notin> {b_backslash, b_quote, 8, 12, 10, 13, 9}" "\<not> (c < 32 \<or> c = 60 \<or> c = 62 \<or> c = 38)"
    by blast
  then show ?thesis
  proof cases
    case 1
    then show ?thesis by (auto simp: escape_ascii_def escape_char_def)
  next
    case 2
    then have "escape_ascii c = [b_backslash, 117, 48, 48, hex_nibble_byte (unat c div 16), hex_nibble_byte (unat c mod 16)]"
      by (auto simp: escape_ascii_def)
    then show ?thesis
      using unquote_escape_u [OF u, of t] by simp
  next
    case 3
    then show ?thesis
      using assms by (auto simp: escape_ascii_def)
  qed
qed

lemma unquote_multi:
  assumes "DecodeRune (c # cs) = (rr, w)" and "\<not> c < 128" and "w \<noteq> 1"
  shows "unquote_loop (take w (c # cs) @ t) = map_option (\<lambda>t. take w (c # cs) @ t) (unquote_loop t)"
proof -
  note m = DecodeRune_multi [OF assms]
  define v where "v = take (w - 1) cs"
  have w: "take w (c # cs) = c # v" "length v = w - 1"
    using m by (cases w; simp add: v_def)+
  have "DecodeRune (c # v @ t) = (rr, w)" "EncodeRune rr = c # v"
    using m w(1) by auto
  moreover have "\<not> c < 32" "c \<noteq> b_backslash" "c \<noteq> b_quote"
    using assms(2) by (auto simp: word_less_nat_alt)
  ultimately show ?thesis
    unfolding w(1) using assms(2) w(2) by (cases "unquote_loop t") simp_all
qed

lemma unquote_line_separator:
  assumes "rr = 8232 \<or> rr = 8233"
  shows "unquote_loop (b_backslash # 117 # 50 # 48 # 50 # hex_nibble_byte (rr mod 16) # t) =
    map_option (\<lambda>t. EncodeRune rr @ t) (unquote_loop t)"
  using assms
  by (elim disjE) (simp_all add: escape_char_def is_surrogate_def hex_nibble_byte_def hex_nibble_def)

theorem unquote_escape: "valid_utf8 s \<Longrightarrow> unquote_loop (escape_string s) = Some s"
proof (induction "length s" arbitrary: s rule: less_induct)
  case less
  show ?case
  proof (cases s)
    case Nil
    then show ?thesis by simp
  next
    case (Cons c cs)
    show ?thesis
    proof (cases "c < 128")
      case True
      then show ?thesis
        using less unquote_escape_ascii [OF True] by (simp add: Cons)
    next
      case False
      obtain rr w where rw: "DecodeRune (c # cs) = (rr, w)"
        by (cases "DecodeRune (c # cs)")
      have w: "w \<noteq> 1" and rest: "valid_utf8 (drop (w - 1) cs)"
        using less.prems False rw by (auto simp: Cons)
      note m = DecodeRune_multi [OF rw False w]
      have split: "take w (c # cs) @ drop (w - 1) cs = c # cs"
        using m by (cases w) auto
      have IH: "unquote_loop (escape_string (drop (w - 1) cs)) = Some (drop (w - 1) cs)"
        using less.hyps [OF _ rest] by (simp add: Cons)
      show ?thesis
      proof (cases "rr = 8232 \<or> rr = 8233")
        case True
        then show ?thesis
          using unquote_line_separator [OF True] IH False rw w split m by (simp add: Cons)
      next
        case rr: False
        then show ?thesis
          using unquote_multi [OF rw False w] IH False rw w split by (simp add: Cons)
      qed
    qed
  qed
qed

text \<open>Text that the scanner passes over inside a string.\<close>

definition string_text :: "bytes \<Rightarrow> bool" where
  "string_text v \<longleftrightarrow> (\<forall>t. readValue InString (v @ t) = rbind (readValue InString t) (\<lambda>(w, r). Inr (v @ w, r)))"

lemma rbind_Inr [simp]: "rbind m Inr = m"
  by (cases m) auto

lemma string_text_Nil [simp]: "string_text []"
  by (simp add: string_text_def)

lemma string_text_append: "string_text u \<Longrightarrow> string_text v \<Longrightarrow> string_text (u @ v)"
  by (auto simp: string_text_def rbind_def split: sum.splits prod.splits)

lemma string_text_plain: "\<not> b < 32 \<Longrightarrow> b \<noteq> b_quote \<Longrightarrow> b \<noteq> b_backslash \<Longrightarrow> string_text [b]"
  by (simp add: string_text_def)

lemma string_text_plains: "(\<And>b. b \<in> set v \<Longrightarrow> 128 \<le> b) \<Longrightarrow> string_text v"
proof (induction v)
  case Nil
  show ?case by simp
next
  case (Cons b v)
  have "128 \<le> b"
    using Cons.prems by simp
  then have "string_text [b]"
    by (intro string_text_plain) (auto simp: word_less_nat_alt word_le_nat_alt)
  then show ?case
    using string_text_append [of "[b]" v] Cons by simp
qed

lemma string_text_short:
  "e \<in> {98, 102, 110, 114, 116, b_backslash, 47, b_quote} \<Longrightarrow> string_text [b_backslash, e]"
  by (auto simp: string_text_def rbind_assoc split_def)

lemma string_text_u:
  "is_hex a \<Longrightarrow> is_hex b \<Longrightarrow> is_hex c \<Longrightarrow> is_hex d \<Longrightarrow> string_text [b_backslash, 117, a, b, c, d]"
  by (simp add: string_text_def rbind_assoc split_def numeral_3_eq_3)

lemma string_text_escape_ascii:
  assumes "c < 128"
  shows "string_text (escape_ascii c)"
proof -
  have "unat c div 16 < 16" "unat c mod 16 < 16"
    using assms by (simp_all add: word_less_nat_alt)
  then have "is_hex (hex_nibble_byte (unat c div 16))" "is_hex (hex_nibble_byte (unat c mod 16))" "is_hex 48"
    using hex_nibble_byte by (auto simp: is_hex_def)
  then show ?thesis
    by (auto simp: escape_ascii_def intro: string_text_short string_text_u string_text_plain)
qed

lemma string_text_escape: "string_text (escape_string s)"
proof (induction "length s" arbitrary: s rule: less_induct)
  case less
  show ?case
  proof (cases s)
    case Nil
    then show ?thesis by simp
  next
    case (Cons c cs)
    show ?thesis
    proof (cases "c < 128")
      case True
      then show ?thesis
        using less.hyps [of cs] string_text_escape_ascii [OF True] by (simp add: Cons string_text_append)
    next
      case False
      obtain rr w where rw: "DecodeRune (c # cs) = (rr, w)"
        by (cases "DecodeRune (c # cs)")
      have hx: "is_hex 102" "is_hex 100" "is_hex 50" "is_hex 48" "is_hex (hex_nibble_byte (rr mod 16))"
        using hex_nibble_byte [of "rr mod 16"] by (auto simp: is_hex_def)
      have "string_text (take w (c # cs))" if "w \<noteq> 1"
        using DecodeRune_multi [OF rw False that] by (intro string_text_plains) blast
      then show ?thesis
        using less.hyps [of cs] less.hyps [of "drop (w - 1) cs"] string_text_u hx False rw
          string_text_append [of "[b_backslash, 117, 102, 102, 102, 100]"]
          string_text_append [of "[b_backslash, 117, 50, 48, 50, hex_nibble_byte (rr mod 16)]"]
          string_text_append [of "take w (c # cs)"]
        by (simp add: Cons)
    qed
  qed
qed

lemma readValue_quote_string: "readValue BeginValue (quote_string s @ r) = Inr (quote_string s, r)"
  using string_text_escape [of s] by (simp add: quote_string_def string_text_def isSpace_def)

lemma unquoteBytes_quote_string: "valid_utf8 s \<Longrightarrow> unquoteBytes (quote_string s) = Some s"
  by (simp add: unquoteBytes_def quote_string_def unquote_escape)


section \<open>Reading back what was written\<close>

definition is_term :: "byte \<Rightarrow> bool" where
  "is_term c \<longleftrightarrow> isSpace c \<or> c = b_comma \<or> c = b_rbrack \<or> c = b_rbrace"

definition terminated :: "bytes \<Rightarrow> bool" where
  "terminated r \<longleftrightarrow> (case r of [] \<Rightarrow> True | c # _ \<Rightarrow> is_term c)"

lemma scan_step_term: "scan_step st 32 = ScanEnd \<Longrightarrow> is_term c \<Longrightarrow> scan_step st c = ScanEnd"
proof (cases st)
  case (Lit xs)
  then show "scan_step st 32 = ScanEnd \<Longrightarrow> is_term c \<Longrightarrow> scan_step st c = ScanEnd"
    by (cases xs) (auto split: if_splits)
qed (auto simp: is_term_def isSpace_def is_digit_def split: if_splits nat.splits)

lemma readValue_terminated:
  "readValue st v = Inr (v, []) \<Longrightarrow> terminated r \<Longrightarrow> readValue st (v @ r) = Inr (v, r)"
proof (induction v arbitrary: st)
  case Nil
  then show ?case
    using scan_step_term [of st] by (cases r) (auto simp: terminated_def split: if_splits)
next
  case (Cons b v)
  then show ?case
    by (auto simp: result_simps split: scan_op.splits)
qed

definition number_text :: "bytes \<Rightarrow> bool" where
  "number_text t \<longleftrightarrow> t \<noteq> [] \<and> (hd t = 45 \<or> is_digit (hd t)) \<and> readValue BeginValue t = Inr (t, [])"

fun wf_jval :: "nat \<Rightarrow> jval \<Rightarrow> bool" where
  "wf_jval n JNull = True"
| "wf_jval n (JBool b) = True"
| "wf_jval n (JNum t) = number_text t"
| "wf_jval n (JStr s) = valid_utf8 s"
| "wf_jval n (JArr vs) = (n \<noteq> 0 \<and> (\<forall>v\<in>set vs. wf_jval (n - 1) v))"
| "wf_jval n (JObj ms) = (n \<noteq> 0 \<and> (\<forall>m\<in>set ms. valid_utf8 (fst m) \<and> wf_jval (n - 1) (snd m)))"

definition spaces :: "bytes \<Rightarrow> bool" where
  "spaces ws \<longleftrightarrow> (\<forall>c\<in>set ws. isSpace c)"

definition layout_ok :: "layout \<Rightarrow> bool" where
  "layout_ok l \<longleftrightarrow> (\<forall>n. spaces (ws_open l n) \<and> spaces (ws_comma l n) \<and> spaces (ws_close l n)) \<and> spaces (ws_colon l)"

lemma layout_ok_compact [simp]: "layout_ok compact"
  by (simp add: layout_ok_def compact_def spaces_def)

lemma layout_ok_indented [simp]: "layout_ok indented"
  by (auto simp: layout_ok_def indented_def spaces_def newline_indent_def isSpace_def)

lemma skip_spaces: "spaces ws \<Longrightarrow> skip_space (ws @ bs) = skip_space bs"
  by (simp add: spaces_def skip_space_def dropWhile_append2)

lemma expect_spaces: "spaces ws \<Longrightarrow> expect c (ws @ bs) = expect c bs"
  by (simp add: expect_def skip_spaces)

lemma expect_head: "\<not> isSpace b \<Longrightarrow> expect c (b # bs) = (if b = c then Some bs else None)"
  by (simp add: expect_def)

lemma number_head:
  assumes "number_text t"
  obtains c cs where "t = c # cs" and "\<not> isSpace c" and "\<not> is_term c"
    and "c \<notin> {b_quote, 116, 102, 110, b_lbrack, b_lbrace}"
proof -
  obtain c cs where t: "t = c # cs" and c: "c = 45 \<or> is_digit c"
    using assms by (cases t) (auto simp: number_text_def simp del: readValue.simps)
  have "\<not> isSpace c" "\<not> is_term c" "c \<notin> {b_quote, 116, 102, 110, b_lbrack, b_lbrace}"
    using c by (auto simp: is_digit_def isSpace_def is_term_def)
  then show thesis
    using that t by blast
qed

lemma print_head:
  assumes "wf_jval n v"
  shows "\<exists>c cs. print_json l k v = c # cs \<and> \<not> isSpace c \<and> \<not> is_term c"
proof (cases v)
  case (JNum t)
  then have "number_text t"
    using assms by simp
  then show ?thesis
    using JNum by (elim number_head) auto
qed (auto simp: quote_string_def isSpace_def is_term_def)

text \<open>A parser that reads back the printed members of a set of values.\<close>

definition reads_back :: "(bytes \<Rightarrow> ('v \<times> bytes) option) \<Rightarrow> ('v \<Rightarrow> bytes) \<Rightarrow> 'v set \<Rightarrow> bool" where
  "reads_back p f V \<longleftrightarrow> (\<forall>v\<in>V. \<forall>ws r. spaces ws \<longrightarrow> terminated r \<longrightarrow> p (ws @ f v @ r) = Some (v, r))"

lemma reads_backD: "reads_back p f V \<Longrightarrow> v \<in> V \<Longrightarrow> spaces ws \<Longrightarrow> terminated r \<Longrightarrow> p (ws @ f v @ r) = Some (v, r)"
  by (simp add: reads_back_def)

lemma terminated_simps [simp]:
  "terminated []" "terminated (b_comma # r)" "terminated (b_rbrack # r)" "terminated (b_rbrace # r)"
  by (simp_all add: terminated_def is_term_def)

lemma terminated_spaces: "spaces ws \<Longrightarrow> terminated r \<Longrightarrow> terminated (ws @ r)"
  by (cases ws) (auto simp: spaces_def terminated_def is_term_def)

lemma space_facts [simp]:
  "\<not> isSpace b_comma" "\<not> isSpace b_rbrack" "\<not> isSpace b_rbrace" "\<not> isSpace b_lbrack" "\<not> isSpace b_lbrace"
  "\<not> isSpace b_colon" "\<not> isSpace b_quote"
  by (simp_all add: isSpace_def)

lemma parse_elems_print:
  assumes "reads_back pv f (set vs)" and "spaces wc" and "spaces we"
  shows "vs \<noteq> [] \<Longrightarrow> length vs \<le> n \<Longrightarrow> spaces ws \<Longrightarrow>
    parse_elems n pv (ws @ join_bytes (b_comma # wc) (map f vs) @ we @ b_rbrack # r) = Some (vs, r)"
  using assms
proof (induction vs arbitrary: n ws)
  case Nil
  then show ?case by simp
next
  case (Cons v vs)
  obtain m where n: "n = Suc m"
    using Cons.prems by (cases n) auto
  show ?case
  proof (cases vs)
    case Nil
    have "pv (ws @ f v @ we @ b_rbrack # r) = Some (v, we @ b_rbrack # r)"
      using Cons.prems by (intro reads_backD) (auto intro: terminated_spaces)
    then show ?thesis
      using Cons.prems by (simp add: n Nil expect_spaces expect_head)
  next
    case (Cons v' vs')
    let ?t = "join_bytes (b_comma # wc) (map f vs) @ we @ b_rbrack # r"
    have "pv (ws @ f v @ b_comma # wc @ ?t) = Some (v, b_comma # wc @ ?t)"
      using Cons.prems by (intro reads_backD) auto
    moreover have "parse_elems m pv (wc @ ?t) = Some (vs, r)"
      using Cons.prems Cons.IH [of m wc] by (simp add: n Cons reads_back_def)
    ultimately show ?thesis
      by (simp add: n Cons expect_head)
  qed
qed


lemma parse_members_print:
  assumes "reads_back pv f (snd ` set ms)" and "\<forall>m\<in>set ms. valid_utf8 (fst m)"
    and "spaces wc" and "spaces we" and "spaces wl"
  shows "ms \<noteq> [] \<Longrightarrow> length ms \<le> n \<Longrightarrow> spaces ws \<Longrightarrow>
    parse_members n pv (ws @ join_bytes (b_comma # wc) (map (\<lambda>m. quote_string (fst m) @ b_colon # wl @ f (snd m)) ms)
      @ we @ b_rbrace # r) = Some (ms, r)"
  using assms
proof (induction ms arbitrary: n ws)
  case Nil
  then show ?case by simp
next
  case (Cons m ms)
  obtain k where n: "n = Suc k"
    using Cons.prems by (cases n) auto
  have key: "parse_key (ws @ quote_string (fst m) @ b_colon # t) = Some (fst m, t)" for t
  proof -
    have "skip_space (ws @ quote_string (fst m) @ b_colon # t) = quote_string (fst m) @ b_colon # t"
      using Cons.prems by (simp add: skip_spaces quote_string_def)
    moreover obtain q where q: "quote_string (fst m) = b_quote # q"
      by (simp add: quote_string_def)
    ultimately show ?thesis
      using readValue_quote_string [of "fst m" "b_colon # t"] unquoteBytes_quote_string [of "fst m"] Cons.prems
      by (simp add: parse_key_def expect_head del: readValue.simps)
  qed
  have val: "pv (wl @ f (snd m) @ t) = Some (snd m, t)" if "terminated t" for t
    using Cons.prems that by (intro reads_backD) auto
  show ?case
  proof (cases ms)
    case Nil
    then show ?thesis
      using Cons.prems key val [of "we @ b_rbrace # r"] by (simp add: n expect_spaces expect_head terminated_spaces)
  next
    case ms: (Cons m' ms')
    let ?t = "join_bytes (b_comma # wc) (map (\<lambda>m. quote_string (fst m) @ b_colon # wl @ f (snd m)) ms) @ we @ b_rbrace # r"
    have "parse_members k pv (wc @ ?t) = Some (ms, r)"
      using Cons.prems Cons.IH [of k wc] by (simp add: n ms reads_back_def)
    moreover have "join_bytes (b_comma # wc) (map (\<lambda>m. quote_string (fst m) @ b_colon # wl @ f (snd m)) (m # ms)) @ we @ b_rbrace # r =
        quote_string (fst m) @ b_colon # wl @ f (snd m) @ b_comma # wc @ ?t"
      by (simp add: ms)
    ultimately show ?thesis
      using key val [of "b_comma # wc @ ?t"] by (simp add: n expect_head)
  qed
qed

lemma length_join_bytes: "(\<And>x. x \<in> set xs \<Longrightarrow> x \<noteq> []) \<Longrightarrow> length xs \<le> length (join_bytes sep xs)"
proof (induction sep xs rule: join_bytes.induct)
  case (3 sep x y ys)
  then have "x \<noteq> []" "length (y # ys) \<le> length (join_bytes sep (y # ys))"
    by auto
  then show ?case
    by (cases x) auto
qed (auto simp: Suc_le_eq)

lemma parse_scalar_print:
  assumes "wf_jval n v" and "\<forall>vs. v \<noteq> JArr vs" and "\<forall>ms. v \<noteq> JObj ms" and "terminated r"
  shows "parse_scalar (print_json l k v @ r) = Some (v, r)"
proof -
  have lit: "readValue BeginValue ([110, 117, 108, 108] @ r) = Inr ([110, 117, 108, 108], r)"
    "readValue BeginValue ([116, 114, 117, 101] @ r) = Inr ([116, 114, 117, 101], r)"
    "readValue BeginValue ([102, 97, 108, 115, 101] @ r) = Inr ([102, 97, 108, 115, 101], r)"
    by (rule readValue_terminated [OF _ assms(4)], simp add: isSpace_def is_digit_def)+
  show ?thesis
  proof (cases v)
    case (JNum t)
    then have nt: "number_text t"
      using assms(1) by simp
    then have "readValue BeginValue (t @ r) = Inr (t, r)"
      using assms(4) by (intro readValue_terminated) (simp_all add: number_text_def)
    moreover obtain c cs where "t = c # cs" "c \<notin> {b_quote, 116, 102, 110, b_lbrack, b_lbrace}"
      using number_head [OF nt] by metis
    ultimately show ?thesis
      by (simp add: parse_scalar_def scalar_value_def JNum del: readValue.simps)
  next
    case (JStr s)
    then show ?thesis
      using assms(1) readValue_quote_string [of s r] unquoteBytes_quote_string [of s]
      by (simp add: parse_scalar_def scalar_value_def quote_string_def del: readValue.simps)
  qed (use assms(2,3) lit in \<open>auto simp: parse_scalar_def scalar_value_def simp del: readValue.simps\<close>)
qed


lemma expect_none:
  assumes "spaces ws" and "x = c # cs" and "\<not> isSpace c" and "c \<noteq> e"
  shows "expect e (ws @ x @ t) = None"
  using assms by (simp add: expect_spaces expect_head)

lemma join_bytes_head: "join_bytes sep (x # xs) @ t = x @ (if xs = [] then [] else sep @ join_bytes sep xs) @ t"
  by (cases xs) auto

lemma parse_value_array:
  assumes rb: "reads_back (parse_value d) (print_json l (k + 1)) (set vs)" and wf: "wf_jval (Suc d) (JArr vs)"
    and l: "layout_ok l" and ws: "spaces ws"
  shows "parse_value (Suc d) (ws @ print_json l k (JArr vs) @ r) = Some (JArr vs, r)"
proof (cases vs)
  case Nil
  then show ?thesis
    using ws by (simp add: skip_spaces expect_head)
next
  case (Cons v vs')
  define body where "body = ws_open l k @ join_bytes (b_comma # ws_comma l k) (map (print_json l (k + 1)) vs) @ ws_close l k @ b_rbrack # r"
  have shape: "ws @ print_json l k (JArr vs) @ r = ws @ b_lbrack # body"
    by (simp add: body_def Cons)
  obtain c cs where c: "print_json l (k + 1) v = c # cs" "\<not> isSpace c" "\<not> is_term c"
    using print_head [of d v l "k + 1"] wf by (auto simp: Cons)
  have "expect b_rbrack body = None"
    unfolding body_def Cons list.map join_bytes_head
    by (rule expect_none [OF _ c(1,2)]) (use c(3) l in \<open>auto simp: is_term_def layout_ok_def\<close>)
  moreover have "length vs \<le> length body"
  proof -
    have "x \<noteq> []" if "x \<in> set (map (print_json l (k + 1)) vs)" for x
      using that wf print_head [of d _ l "k + 1"] by fastforce
    then show ?thesis
      using length_join_bytes [of "map (print_json l (k + 1)) vs" "b_comma # ws_comma l k"] by (simp add: body_def)
  qed
  then have "parse_elems (length body) (parse_value d) body = Some (vs, r)"
    unfolding body_def using l by (intro parse_elems_print [OF rb]) (auto simp: layout_ok_def Cons)
  ultimately show ?thesis
    unfolding shape using ws by (simp add: skip_spaces)
qed

lemma parse_value_object:
  assumes rb: "reads_back (parse_value d) (print_json l (k + 1)) (snd ` set ms)" and wf: "wf_jval (Suc d) (JObj ms)"
    and l: "layout_ok l" and ws: "spaces ws"
  shows "parse_value (Suc d) (ws @ print_json l k (JObj ms) @ r) = Some (JObj ms, r)"
proof (cases ms)
  case Nil
  then show ?thesis
    using ws by (simp add: skip_spaces expect_head)
next
  case (Cons m ms')
  let ?f = "\<lambda>m. quote_string (fst m) @ b_colon # ws_colon l @ print_json l (k + 1) (snd m)"
  define body where "body = ws_open l k @ join_bytes (b_comma # ws_comma l k) (map ?f ms) @ ws_close l k @ b_rbrace # r"
  have shape: "ws @ print_json l k (JObj ms) @ r = ws @ b_lbrace # body"
    by (simp add: body_def Cons)
  obtain cs where c: "?f m = b_quote # cs"
    by (simp add: quote_string_def)
  have "expect b_rbrace body = None"
    unfolding body_def Cons list.map join_bytes_head
    by (rule expect_none [OF _ c]) (use l in \<open>auto simp: layout_ok_def\<close>)
  moreover have "length ms \<le> length body"
  proof -
    have "x \<noteq> []" if "x \<in> set (map ?f ms)" for x
      using that by (auto simp: quote_string_def)
    then show ?thesis
      using length_join_bytes [of "map ?f ms" "b_comma # ws_comma l k"] by (simp add: body_def)
  qed
  then have "parse_members (length body) (parse_value d) body = Some (ms, r)"
    unfolding body_def using l wf by (intro parse_members_print [OF rb]) (auto simp: layout_ok_def Cons)
  ultimately show ?thesis
    unfolding shape using ws by (simp add: skip_spaces)
qed

lemma parse_value_scalar:
  assumes "wf_jval d v" and "\<forall>vs. v \<noteq> JArr vs" and "\<forall>ms. v \<noteq> JObj ms" and "spaces ws" and "terminated r"
  shows "parse_value d (ws @ print_json l k v @ r) = Some (v, r)"
proof -
  obtain c cs where c: "print_json l k v = c # cs" "\<not> isSpace c" "c \<noteq> b_lbrack" "c \<noteq> b_lbrace"
  proof (cases v)
    case (JNum t)
    then have "number_text t"
      using assms(1) by simp
    then show thesis
      using JNum that by (elim number_head) auto
  next
    case (JBool b)
    then show thesis
      using that by (cases b) (simp_all add: isSpace_def)
  qed (use assms that in \<open>simp_all add: quote_string_def isSpace_def\<close>)
  have "parse_value d (ws @ print_json l k v @ r) = parse_scalar (print_json l k v @ r)"
    using c assms(4) by (cases d) (simp_all add: skip_spaces)
  then show ?thesis
    using parse_scalar_print assms by simp
qed

theorem parse_value_print:
  "wf_jval d v \<Longrightarrow> layout_ok l \<Longrightarrow> spaces ws \<Longrightarrow> terminated r \<Longrightarrow>
   parse_value d (ws @ print_json l k v @ r) = Some (v, r)"
proof (induction v arbitrary: d k ws r)
  case (JArr vs)
  obtain d' where d: "d = Suc d'"
    using JArr.prems by (cases d) auto
  have "reads_back (parse_value d') (print_json l (k + 1)) (set vs)"
    using JArr by (auto simp: reads_back_def d)
  then show ?case
    using JArr.prems unfolding d by (intro parse_value_array)
next
  case (JObj ms)
  obtain d' where d: "d = Suc d'"
    using JObj.prems by (cases d) auto
  have "reads_back (parse_value d') (print_json l (k + 1)) (snd ` set ms)"
    unfolding reads_back_def
  proof (intro ballI allI impI)
    fix v ws r
    assume "v \<in> snd ` set ms" "spaces ws" "terminated r"
    then obtain m where m: "m \<in> set ms" "v = snd m"
      by blast
    then have "wf_jval d' v"
      using JObj.prems(1) by (auto simp: d)
    moreover have "v \<in> Basic_BNFs.snds m"
      by (cases m rule: prod.exhaust) (simp add: m(2))
    ultimately show "parse_value d' (ws @ print_json l (k + 1) v @ r) = Some (v, r)"
      using JObj.IH [OF m(1)] JObj.prems(2) \<open>spaces ws\<close> \<open>terminated r\<close> by blast
  qed
  then show ?case
    using JObj.prems unfolding d by (intro parse_value_object)
qed (rule parse_value_scalar; simp)+

theorem parse_json_print:
  assumes "wf_jval 10000 v" and "layout_ok l" and "spaces ws"
  shows "parse_json (print_json l k v @ ws) = Some v"
proof -
  have "terminated ws"
    using assms(3) terminated_spaces [of ws "[]"] by simp
  then have "parse_value 10000 ([] @ print_json l k v @ ws) = Some (v, ws)"
    using assms by (intro parse_value_print) (simp_all add: spaces_def)
  moreover have "skip_space ws = []"
    using skip_spaces [OF assms(3), of "[]"] by (simp add: skip_space_def)
  ultimately show ?thesis
    by (simp add: parse_json_def)
qed


section \<open>Integers\<close>

definition int_text :: "int \<Rightarrow> bytes" where
  "int_text i = (if i < 0 then 45 # go_bytes (itoa (nat (- i))) else go_bytes (itoa (nat i)))"

definition digits_value :: "bytes \<Rightarrow> nat" where
  "digits_value ds = foldl (\<lambda>n c. n * 10 + (unat c - 48)) 0 ds"

definition parse_digits :: "bytes \<Rightarrow> nat option" where
  "parse_digits ds = (if ds \<noteq> [] \<and> (\<forall>c\<in>set ds. is_digit c) then Some (digits_value ds) else None)"

text \<open>\<open>strconv.ParseInt\<close> with base 10 and 64 bits, on the text of a JSON number.\<close>

definition ParseInt :: "bytes \<Rightarrow> int option" where
  "ParseInt t =
     (case (if t \<noteq> [] \<and> hd t = 45 then map_option (\<lambda>n. - int n) (parse_digits (tl t)) else map_option int (parse_digits t)) of
        Some i \<Rightarrow> if in_int64 i then Some i else None
      | None \<Rightarrow> None)"

lemma go_bytes_append: "go_bytes (a @ b) = go_bytes a @ go_bytes b"
  by (simp add: go_bytes_def)

lemma digit_byte: "d < 10 \<Longrightarrow> go_bytes [char_of (48 + d)] = [of_nat (48 + d)]" for d :: nat
  by (simp add: go_bytes_def)

lemma unat_of_nat_byte: "n < 256 \<Longrightarrow> unat (of_nat n :: byte) = n"
  by (simp add: unsigned_of_nat take_bit_nat_eq_self)

lemma unat_digit: "d < 10 \<Longrightarrow> unat (48 + of_nat d :: byte) = 48 + d"
  using unat_of_nat_byte [of "48 + d"] by simp

lemma is_digit_byte: "d < 10 \<Longrightarrow> is_digit (48 + of_nat d :: byte)"
  by (simp add: is_digit_def word_le_nat_alt unat_digit)

lemma itoa_bytes:
  "go_bytes (itoa n) = (if n < 10 then [of_nat (48 + n)] else go_bytes (itoa (n div 10)) @ [of_nat (48 + n mod 10)])"
  by (subst itoa.simps) (simp add: go_bytes_append digit_byte)

lemma itoa_digits: "go_bytes (itoa n) \<noteq> [] \<and> (\<forall>c\<in>set (go_bytes (itoa n)). is_digit c)"
proof (induction n rule: less_induct)
  case (less n)
  show ?case
  proof (cases "n < 10")
    case True
    then show ?thesis by (simp add: itoa_bytes [of n] is_digit_byte)
  next
    case False
    then show ?thesis
      using less.IH [of "n div 10"] by (auto simp: itoa_bytes [of n] is_digit_byte)
  qed
qed

lemma digits_value_itoa: "digits_value (go_bytes (itoa n)) = n"
proof (induction n rule: less_induct)
  case (less n)
  show ?case
  proof (cases "n < 10")
    case True
    then show ?thesis by (simp add: itoa_bytes [of n] digits_value_def unat_digit)
  next
    case False
    then have "digits_value (go_bytes (itoa (n div 10))) = n div 10"
      using less.IH [of "n div 10"] by simp
    then show ?thesis
      using False unat_digit [of "n mod 10"] by (simp add: itoa_bytes [of n] digits_value_def)
  qed
qed

lemma parse_digits_itoa: "parse_digits (go_bytes (itoa n)) = Some n"
  using itoa_digits [of n] by (simp add: parse_digits_def digits_value_itoa)

lemma digit_not_minus: "is_digit c \<Longrightarrow> c \<noteq> 45"
  by (auto simp: is_digit_def)

theorem ParseInt_text: "in_int64 i \<Longrightarrow> ParseInt (int_text i) = Some i"
proof (cases "i < 0")
  case True
  then show "in_int64 i \<Longrightarrow> ?thesis"
    by (simp add: ParseInt_def int_text_def parse_digits_itoa)
next
  case False
  have "hd (go_bytes (itoa (nat i))) \<noteq> 45"
    using itoa_digits [of "nat i"] digit_not_minus by (meson list.set_sel(1))
  then show "in_int64 i \<Longrightarrow> ?thesis"
    using False by (simp add: ParseInt_def int_text_def parse_digits_itoa)
qed

lemma itoa_head: "0 < n \<Longrightarrow> hd (go_bytes (itoa n)) \<noteq> 48"
proof (induction n rule: less_induct)
  case (less n)
  show ?case
  proof (cases "n < 10")
    case True
    then show ?thesis
      using less.prems unat_digit [OF True] by (auto simp: itoa_bytes [of n] word_unat_eq_iff)
  next
    case False
    then have "hd (go_bytes (itoa (n div 10))) \<noteq> 48"
      using less.IH [of "n div 10"] by simp
    then show ?thesis
      using False itoa_digits [of "n div 10"] by (simp add: itoa_bytes [of n])
  qed
qed

lemma readValue_digits: "(\<forall>c\<in>set ds. is_digit c) \<Longrightarrow> readValue St1 ds = Inr (ds, [])"
  by (induction ds) (simp_all add: is_digit_def)

lemma itoa_scan:
  obtains c cs where "go_bytes (itoa n) = c # cs" and "is_digit c"
    and "c = 48 \<and> cs = [] \<or> c \<noteq> 48 \<and> (\<forall>c\<in>set cs. is_digit c)"
proof -
  obtain c cs where c: "go_bytes (itoa n) = c # cs"
    using itoa_digits [of n] by (cases "go_bytes (itoa n)") auto
  have "cs = []" if "c = 48"
  proof -
    have "n = 0"
      using itoa_head [of n] c that by auto
    then show ?thesis
      using c by (simp add: itoa_bytes [of 0])
  qed
  then show thesis
    using that [of c cs] c itoa_digits [of n] by auto
qed

lemma number_text_int: "number_text (int_text i)"
proof -
  obtain c cs where c: "go_bytes (itoa (nat \<bar>i\<bar>)) = c # cs" "is_digit c"
    and z: "c = 48 \<and> cs = [] \<or> c \<noteq> 48 \<and> (\<forall>c\<in>set cs. is_digit c)"
    using itoa_scan by blast
  have nc: "\<not> isSpace c" "c \<noteq> b_quote" "c \<noteq> 45" "c \<noteq> 116" "c \<noteq> 102" "c \<noteq> 110"
    using c(2) by (auto simp: is_digit_def isSpace_def)
  have t: "int_text i = (if i < 0 then 45 # c # cs else c # cs)"
    using c by (cases "i < 0") (simp_all add: int_text_def)
  show ?thesis
    unfolding number_text_def t using z readValue_digits [of cs] c(2) nc by (auto simp: isSpace_def is_digit_def)
qed

section \<open>Structs\<close>

text \<open>
  Decoding a JSON object into a struct: members in order, matched by folded name, unknown members
  ignored. A \<open>null\<close> leaves the field as it is, and a value of another kind is an error (\<open>None\<close>). Names
  fold ASCII letters and the two other characters that fold to ASCII letters.
\<close>

definition fold_byte :: "byte \<Rightarrow> byte" where
  "fold_byte c = (if 97 \<le> c \<and> c \<le> 122 then c - 32 else c)"

fun fold_name :: "bytes \<Rightarrow> bytes" where
  "fold_name (a # b # c # cs) =
     (if a = 0xE2 \<and> b = 0x84 \<and> c = 0xAA then 75 # fold_name cs
      else if a = 0xC5 \<and> b = 0xBF then 83 # fold_name (c # cs)
      else fold_byte a # fold_name (b # c # cs))"
| "fold_name [a, b] = (if a = 0xC5 \<and> b = 0xBF then [83] else [fold_byte a, fold_byte b])"
| "fold_name [a] = [fold_byte a]"
| "fold_name [] = []"

definition field_is :: "bytes \<Rightarrow> string \<Rightarrow> bool" where
  "field_is k name \<longleftrightarrow> fold_name k = fold_name (go_bytes name)"

definition dec_string :: "jval \<Rightarrow> string \<Rightarrow> string option" where
  "dec_string v old = (case v of JStr s \<Rightarrow> Some (go_string s) | JNull \<Rightarrow> Some old | _ \<Rightarrow> None)"

definition dec_int :: "jval \<Rightarrow> int \<Rightarrow> int option" where
  "dec_int v old = (case v of JNum t \<Rightarrow> ParseInt t | JNull \<Rightarrow> Some old | _ \<Rightarrow> None)"

definition dec_bool :: "jval \<Rightarrow> bool \<Rightarrow> bool option" where
  "dec_bool v old = (case v of JBool b \<Rightarrow> Some b | JNull \<Rightarrow> Some old | _ \<Rightarrow> None)"

primrec dec_members :: "(bytes \<Rightarrow> jval \<Rightarrow> 'r \<Rightarrow> 'r option) \<Rightarrow> (bytes \<times> jval) list \<Rightarrow> 'r \<Rightarrow> 'r option" where
  "dec_members f [] r = Some r"
| "dec_members f (m # ms) r = Option.bind (f (fst m) (snd m) r) (dec_members f ms)"

definition dec_struct :: "(bytes \<Rightarrow> jval \<Rightarrow> 'r \<Rightarrow> 'r option) \<Rightarrow> jval \<Rightarrow> 'r \<Rightarrow> 'r option" where
  "dec_struct f v old = (case v of JObj ms \<Rightarrow> dec_members f ms old | JNull \<Rightarrow> Some old | _ \<Rightarrow> None)"

primrec dec_elems :: "(jval \<Rightarrow> 'r option) \<Rightarrow> jval list \<Rightarrow> 'r list option" where
  "dec_elems f [] = Some []"
| "dec_elems f (v # vs) = Option.bind (f v) (\<lambda>x. map_option (\<lambda>xs. x # xs) (dec_elems f vs))"

definition dec_slice :: "(jval \<Rightarrow> 'r \<Rightarrow> 'r option) \<Rightarrow> 'r \<Rightarrow> jval \<Rightarrow> 'r list option" where
  "dec_slice f zero v = (case v of JArr vs \<Rightarrow> dec_elems (\<lambda>v. f v zero) vs | JNull \<Rightarrow> Some [] | _ \<Rightarrow> None)"

text \<open>Encoding: a member, and a member that is left out when its value is empty.\<close>

definition enc_string :: "string \<Rightarrow> jval" where "enc_string s = JStr (go_bytes s)"
definition enc_int :: "int \<Rightarrow> jval" where "enc_int i = JNum (int_text i)"
definition member :: "string \<Rightarrow> jval \<Rightarrow> (bytes \<times> jval) list" where "member name v = [(go_bytes name, v)]"
definition omitempty :: "bool \<Rightarrow> (bytes \<times> jval) list \<Rightarrow> (bytes \<times> jval) list" where
  "omitempty is_empty ms = (if is_empty then [] else ms)"

lemma dec_string_enc [simp]: "dec_string (enc_string s) old = Some s"
  by (simp add: dec_string_def enc_string_def)

lemma dec_int_enc [simp]: "in_int64 i \<Longrightarrow> dec_int (enc_int i) old = Some i"
  by (simp add: dec_int_def enc_int_def ParseInt_text)

lemma dec_bool_enc [simp]: "dec_bool (JBool b) old = Some b"
  by (simp add: dec_bool_def)

lemma dec_elems_enc: "(\<And>x. x \<in> set xs \<Longrightarrow> f (g x) = Some x) \<Longrightarrow> dec_elems f (map g xs) = Some xs"
  by (induction xs) auto

lemma wf_enc_int [simp]: "wf_jval n (enc_int i)"
  by (simp add: enc_int_def number_text_int)

definition utf8_string :: "string \<Rightarrow> bool" where
  "utf8_string s \<longleftrightarrow> valid_utf8 (go_bytes s)"

lemma wf_enc_string [simp]: "wf_jval n (enc_string s) \<longleftrightarrow> utf8_string s"
  by (simp add: enc_string_def utf8_string_def)


text \<open>Names of small letters, digits and underscores match exactly themselves.\<close>

definition plain_byte :: "byte \<Rightarrow> bool" where
  "plain_byte c \<longleftrightarrow> (97 \<le> c \<and> c \<le> 122) \<or> (48 \<le> c \<and> c \<le> 57) \<or> c = 95"

definition plain_name :: "string \<Rightarrow> bool" where
  "plain_name s \<longleftrightarrow> (\<forall>c\<in>set (go_bytes s). plain_byte c)"

lemma plain_byte_ascii: "plain_byte c \<Longrightarrow> c \<noteq> 0xE2 \<and> c \<noteq> 0xC5 \<and> c < 128"
  by (auto simp: plain_byte_def word_le_nat_alt word_less_nat_alt)

lemma fold_name_plain: "(\<forall>c\<in>set bs. plain_byte c) \<Longrightarrow> fold_name bs = map fold_byte bs"
  by (induction bs rule: fold_name.induct) (auto dest: plain_byte_ascii)

lemma fold_byte_inj: "inj_on fold_byte {c. plain_byte c}"
proof (rule inj_onI)
  fix a b
  assume "a \<in> {c. plain_byte c}" "b \<in> {c. plain_byte c}" and eq: "fold_byte a = fold_byte b"
  then have *: "plain_byte a" "plain_byte b"
    by auto
  have sub: "unat (c - 32) = unat c - 32" if "97 \<le> c" for c :: byte
    using that by (simp add: unat_sub word_le_nat_alt)
  show "a = b"
    using * eq sub [of a] sub [of b]
    by (auto simp: plain_byte_def fold_byte_def word_unat_eq_iff word_le_nat_alt split: if_splits)
qed

lemma field_is_plain: "plain_name a \<Longrightarrow> plain_name b \<Longrightarrow> field_is (go_bytes a) b \<longleftrightarrow> a = b"
proof -
  assume p: "plain_name a" "plain_name b"
  then have "field_is (go_bytes a) b \<longleftrightarrow> map fold_byte (go_bytes a) = map fold_byte (go_bytes b)"
    by (simp add: field_is_def plain_name_def fold_name_plain)
  also have "\<dots> \<longleftrightarrow> go_bytes a = go_bytes b"
    using p by (intro inj_on_map_eq_map inj_on_subset [OF fold_byte_inj]) (auto simp: plain_name_def)
  finally show ?thesis by simp
qed

lemma utf8_ascii: "(\<forall>c\<in>set bs. c < 128) \<Longrightarrow> valid_utf8 bs"
  by (induction bs) auto

lemma utf8_plain: "plain_name s \<Longrightarrow> valid_utf8 (go_bytes s)"
  by (rule utf8_ascii) (auto simp: plain_name_def dest: plain_byte_ascii)

lemma plain_name_code: "plain_name s \<longleftrightarrow> list_all (\<lambda>c. let n = of_char c :: nat in (97 \<le> n \<and> n \<le> 122) \<or> (48 \<le> n \<and> n \<le> 57) \<or> n = 95) s"
proof -
  have "plain_byte (of_nat (of_char c)) \<longleftrightarrow> (let n = of_char c :: nat in (97 \<le> n \<and> n \<le> 122) \<or> (48 \<le> n \<and> n \<le> 57) \<or> n = 95)" for c
  proof -
    have "of_char c < (256 :: nat)"
      by simp
    then have "unat (of_nat (of_char c) :: byte) = of_char c"
      by (rule unat_of_nat_byte)
    then show ?thesis
      by (simp add: plain_byte_def word_le_nat_alt word_unat_eq_iff Let_def)
  qed
  then show ?thesis
    by (simp add: plain_name_def go_bytes_def list_all_iff)
qed


end
