(* ===== verification/Sha256.thy ===== *)
theory Sha256
  imports Prelude
begin

text \<open>
  The content hash of the program. Every object, manifest source, block and native snapshot is
  named by its SHA-256, computed by Go's \<open>crypto/sha256\<close> and printed with \<open>encoding/hex\<close>. The function
  is written out here (FIPS 180-4) so that the definitions of the other theories compute; their
  proofs use only that a digest has 32 bytes and its text 64 characters, and name the absence of a
  collision between the byte strings at hand where a conclusion needs it.
\<close>

type_synonym hash_state = "uint32 \<times> uint32 \<times> uint32 \<times> uint32 \<times> uint32 \<times> uint32 \<times> uint32 \<times> uint32"

definition sha_k :: "uint32 list" where
  "sha_k =
    [1116352408, 1899447441, 3049323471, 3921009573, 961987163, 1508970993,
     2453635748, 2870763221, 3624381080, 310598401, 607225278, 1426881987,
     1925078388, 2162078206, 2614888103, 3248222580, 3835390401, 4022224774,
     264347078, 604807628, 770255983, 1249150122, 1555081692, 1996064986,
     2554220882, 2821834349, 2952996808, 3210313671, 3336571891, 3584528711,
     113926993, 338241895, 666307205, 773529912, 1294757372, 1396182291,
     1695183700, 1986661051, 2177026350, 2456956037, 2730485921, 2820302411,
     3259730800, 3345764771, 3516065817, 3600352804, 4094571909, 275423344,
     430227734, 506948616, 659060556, 883997877, 958139571, 1322822218,
     1537002063, 1747873779, 1955562222, 2024104815, 2227730452, 2361852424,
     2428436474, 2756734187, 3204031479, 3329325298]"

definition sha_init :: hash_state where
  "sha_init = (1779033703, 3144134277, 1013904242, 2773480762, 1359893119, 2600822924, 528734635, 1541459225)"

definition big_sigma0 :: "uint32 \<Rightarrow> uint32" where
  "big_sigma0 x = word_rotr 2 x XOR word_rotr 13 x XOR word_rotr 22 x"

definition big_sigma1 :: "uint32 \<Rightarrow> uint32" where
  "big_sigma1 x = word_rotr 6 x XOR word_rotr 11 x XOR word_rotr 25 x"

definition small_sigma0 :: "uint32 \<Rightarrow> uint32" where
  "small_sigma0 x = word_rotr 7 x XOR word_rotr 18 x XOR drop_bit 3 x"

definition small_sigma1 :: "uint32 \<Rightarrow> uint32" where
  "small_sigma1 x = word_rotr 17 x XOR word_rotr 19 x XOR drop_bit 10 x"

definition sha_round :: "hash_state \<Rightarrow> uint32 \<times> uint32 \<Rightarrow> hash_state" where
  "sha_round st kw = (case st of (a, b, c, d, e, f, g, h) \<Rightarrow> case kw of (k, w) \<Rightarrow>
     let t1 = h + big_sigma1 e + ((e AND f) XOR (NOT e AND g)) + k + w;
         t2 = big_sigma0 a + ((a AND b) XOR (a AND c) XOR (b AND c))
     in (t1 + t2, a, b, c, d + t1, e, f, g))"

fun be32_words :: "bytes \<Rightarrow> uint32 list" where
  "be32_words (a # b # c # d # rest) = of_be32 [a, b, c, d] # be32_words rest"
| "be32_words _ = []"

text \<open>The message schedule, kept newest word first.\<close>

definition extend_schedule :: "uint32 list \<Rightarrow> uint32 list" where
  "extend_schedule ws =
     (small_sigma1 (ws ! 1) + ws ! 6 + small_sigma0 (ws ! 14) + ws ! 15) # ws"

definition sha_schedule :: "bytes \<Rightarrow> uint32 list" where
  "sha_schedule block = rev ((extend_schedule ^^ 48) (rev (be32_words block)))"

definition sha_block :: "hash_state \<Rightarrow> bytes \<Rightarrow> hash_state" where
  "sha_block st block =
     (case foldl sha_round st (zip sha_k (sha_schedule block)) of (a, b, c, d, e, f, g, h) \<Rightarrow>
      case st of (a0, b0, c0, d0, e0, f0, g0, h0) \<Rightarrow>
        (a0 + a, b0 + b, c0 + c, d0 + d, e0 + e, f0 + f, g0 + g, h0 + h))"

definition sha_pad :: "bytes \<Rightarrow> bytes" where
  "sha_pad m =
     m @ [128] @ replicate ((119 - length m mod 64) mod 64) 0 @ be64 (of_nat (8 * length m))"

fun sha_blocks :: "nat \<Rightarrow> hash_state \<Rightarrow> bytes \<Rightarrow> hash_state" where
  "sha_blocks 0 st m = st"
| "sha_blocks (Suc n) st m = sha_blocks n (sha_block st (take 64 m)) (drop 64 m)"

definition sha256 :: "bytes \<Rightarrow> bytes" where
  "sha256 m = (let p = sha_pad m in
     case sha_blocks (length p div 64) sha_init p of (a, b, c, d, e, f, g, h) \<Rightarrow>
       be32 a @ be32 b @ be32 c @ be32 d @ be32 e @ be32 f @ be32 g @ be32 h)"

definition sha256_hex :: "bytes \<Rightarrow> string" where
  "sha256_hex m = hex_encode (sha256 m)"

lemma length_sha256 [simp]: "length (sha256 m) = 32"
  by (simp add: sha256_def Let_def split: prod.splits)

lemma length_sha256_hex [simp]: "length (sha256_hex m) = 64"
  by (simp add: sha256_hex_def)

lemma sha256_hex_eq_iff [simp]: "sha256_hex a = sha256_hex b \<longleftrightarrow> sha256 a = sha256 b"
  by (simp add: sha256_hex_def)

lemma hex_decode_sha256_hex [simp]: "hex_decode (sha256_hex m) = Some (sha256 m)"
  by (simp add: sha256_hex_def)

lemma hex_digit_not_special:
  assumes "n < 16"
  shows "hex_digit n \<noteq> CHR ''/'' \<and> hex_digit n \<noteq> CHR ''.'' \<and> hex_digit n \<noteq> CHR 0x00"
proof -
  have "hex_value (CHR ''/'') = None" "hex_value (CHR ''.'') = None" "hex_value (CHR 0x00) = None"
    by (simp_all add: hex_value_def)
  then show ?thesis
    using hex_value_digit [OF assms] by auto
qed

text \<open>
  \<open>no_collision S\<close>: SHA-256 tells apart the byte strings of \<open>S\<close>. This is the only fact about the
  hash that the integrity theorems assume, and they assume it of the finitely many strings they
  mention.
\<close>

definition no_collision :: "bytes set \<Rightarrow> bool" where
  "no_collision S \<longleftrightarrow> inj_on sha256 S"

lemma no_collisionD:
  "no_collision S \<Longrightarrow> sha256 a = sha256 b \<Longrightarrow> a \<in> S \<Longrightarrow> b \<in> S \<Longrightarrow> a = b"
  by (auto simp: no_collision_def inj_on_def)

lemma no_collision_singleton [simp]: "no_collision {x}"
  by (simp add: no_collision_def)

lemma no_collision_mono: "no_collision S \<Longrightarrow> T \<subseteq> S \<Longrightarrow> no_collision T"
  by (auto simp: no_collision_def intro: inj_on_subset)

end
