(* ===== verification/Manifest.thy ===== *)
theory Manifest
  imports Path Go_Json Sha256
begin

text \<open>
  Fold manifests, \<open>src/internal/fold/manifest.go\<close> and the object references of
  \<open>src/internal/fold/store.go\<close>: the records, their validation, the JSON text of a manifest and its
  path in a store.
\<close>

section \<open>Data\<close>

record object_ref =
  SHA256 :: string
  RawBytes :: int64
  StoredBytes :: int64

record part =
  PartKind :: string
  JSONPath :: string
  Object :: object_ref

record manifest_session =
  ID :: string
  Title :: string
  CWD :: string
  RolloutPath :: string
  Archived :: bool

record manifest_source =
  Bytes :: int64
  SourceSHA256 :: string

record manifest_settings =
  FieldThreshold :: int64
  MaxJSONLineBytes :: int64
  CDCMinBytes :: int64
  CDCAverageBytes :: int64
  CDCMaxBytes :: int64
  Compression :: string
  RecordThreshold :: int64

record manifest =
  Version :: int
  Kind :: string
  CreatedAt :: string
  Session :: manifest_session
  Source :: manifest_source
  Settings :: manifest_settings
  Parts :: "part list"

definition ManifestVersion :: int where "ManifestVersion = 1"
definition ManifestKind :: string where "ManifestKind = ''fold-v1''"
definition ManifestVersionV2 :: int where "ManifestVersionV2 = 2"
definition ManifestKindV2 :: string where "ManifestKindV2 = ''fold-v2''"
definition PartResidual :: string where "PartResidual = ''residual''"
definition PartField :: string where "PartField = ''field''"
definition PartRecord :: string where "PartRecord = ''record''"

section \<open>Validation\<close>

datatype manifest_error =
    UnsupportedManifest string
  | MissingIdentity
  | UnsafeSessionID string
  | UnsupportedPartKind nat string
  | InvalidObjectRef nat
  | DecodeFailed
  | ManifestExists string
  | ManifestNotFound string

definition SupportedManifest :: "int \<Rightarrow> string \<Rightarrow> bool" where
  "SupportedManifest version kind \<longleftrightarrow>
     (version = ManifestVersion \<and> kind = ManifestKind) \<or> (version = ManifestVersionV2 \<and> kind = ManifestKindV2)"

definition SupportedPart :: "int \<Rightarrow> string \<Rightarrow> bool" where
  "SupportedPart version kind =
     (if kind = PartResidual \<or> kind = PartField then True
      else version = ManifestVersionV2 \<and> kind = PartRecord)"

definition validateSessionID :: "string \<Rightarrow> manifest_error + unit" where
  "validateSessionID sessionID =
     (if sessionID = '''' \<or> sessionID = ''.'' \<or> sessionID = ''..'' \<or>
         contains_any [CHR ''/'', CHR 0x5C, CHR 0x00] sessionID
      then Inl (UnsafeSessionID sessionID) else Inr ())"

primrec validateParts :: "int \<Rightarrow> nat \<Rightarrow> part list \<Rightarrow> manifest_error + unit" where
  "validateParts version index [] = Inr ()"
| "validateParts version index (p # ps) =
     (if \<not> SupportedPart version (PartKind p) then Inl (UnsupportedPartKind index (PartKind p))
      else if length (SHA256 (Object p)) \<noteq> 64 \<or> RawBytes (Object p) < 0 then Inl (InvalidObjectRef index)
      else validateParts version (index + 1) ps)"

definition validateManifest :: "manifest \<Rightarrow> manifest_error + unit" where
  "validateManifest m =
     (if \<not> SupportedManifest (Version m) (Kind m) then Inl (UnsupportedManifest (Kind m))
      else if ID (Session m) = '''' \<or> SourceSHA256 (Source m) = '''' then Inl MissingIdentity
      else rbind (validateSessionID (ID (Session m))) (\<lambda>_. validateParts (Version m) 0 (Parts m)))"

section \<open>JSON\<close>

definition ref_json :: "object_ref \<Rightarrow> jval" where
  "ref_json r = JObj (member ''sha256'' (enc_string (SHA256 r)) @ member ''raw_bytes'' (enc_int (RawBytes r)) @
     member ''stored_bytes'' (enc_int (StoredBytes r)))"

definition part_json :: "part \<Rightarrow> jval" where
  "part_json p = JObj (member ''kind'' (enc_string (PartKind p)) @
     omitempty (JSONPath p = '''') (member ''json_path'' (enc_string (JSONPath p))) @
     member ''object'' (ref_json (Object p)))"

definition session_json :: "manifest_session \<Rightarrow> jval" where
  "session_json s = JObj (member ''id'' (enc_string (ID s)) @
     omitempty (Title s = '''') (member ''title'' (enc_string (Title s))) @
     omitempty (CWD s = '''') (member ''cwd'' (enc_string (CWD s))) @
     member ''rollout_path'' (enc_string (RolloutPath s)) @ member ''archived'' (JBool (Archived s)))"

definition source_json :: "manifest_source \<Rightarrow> jval" where
  "source_json s = JObj (member ''bytes'' (enc_int (Bytes s)) @ member ''sha256'' (enc_string (SourceSHA256 s)))"

definition settings_json :: "manifest_settings \<Rightarrow> jval" where
  "settings_json s = JObj (member ''field_threshold'' (enc_int (FieldThreshold s)) @
     member ''max_json_line_bytes'' (enc_int (MaxJSONLineBytes s)) @ member ''cdc_min_bytes'' (enc_int (CDCMinBytes s)) @
     member ''cdc_average_bytes'' (enc_int (CDCAverageBytes s)) @ member ''cdc_max_bytes'' (enc_int (CDCMaxBytes s)) @
     member ''compression'' (enc_string (Compression s)) @
     omitempty (RecordThreshold s = 0) (member ''record_threshold'' (enc_int (RecordThreshold s))))"

definition manifest_json :: "manifest \<Rightarrow> jval" where
  "manifest_json m = JObj (member ''version'' (enc_int (Version m)) @ member ''kind'' (enc_string (Kind m)) @
     member ''created_at'' (enc_string (CreatedAt m)) @ member ''session'' (session_json (Session m)) @
     member ''source'' (source_json (Source m)) @ member ''settings'' (settings_json (Settings m)) @
     member ''parts'' (JArr (map part_json (Parts m))))"

text \<open>The text \<open>writeManifestPath\<close> commits.\<close>

definition encodeManifest :: "manifest \<Rightarrow> bytes" where
  "encodeManifest m = MarshalIndent (manifest_json m) @ [10]"

definition zero_ref :: object_ref where
  "zero_ref = \<lparr>SHA256 = '''', RawBytes = 0, StoredBytes = 0\<rparr>"

definition zero_part :: part where
  "zero_part = \<lparr>PartKind = '''', JSONPath = '''', Object = zero_ref\<rparr>"

definition zero_manifest :: manifest where
  "zero_manifest = \<lparr>Version = 0, Kind = '''', CreatedAt = '''',
     Session = \<lparr>ID = '''', Title = '''', CWD = '''', RolloutPath = '''', Archived = False\<rparr>,
     Source = \<lparr>Bytes = 0, SourceSHA256 = ''''\<rparr>,
     Settings = \<lparr>FieldThreshold = 0, MaxJSONLineBytes = 0, CDCMinBytes = 0, CDCAverageBytes = 0, CDCMaxBytes = 0,
       Compression = '''', RecordThreshold = 0\<rparr>,
     Parts = []\<rparr>"

definition ref_field :: "bytes \<Rightarrow> jval \<Rightarrow> object_ref \<Rightarrow> object_ref option" where
  "ref_field k v r =
     (if field_is k ''sha256'' then map_option (\<lambda>x. r\<lparr>SHA256 := x\<rparr>) (dec_string v (SHA256 r))
      else if field_is k ''raw_bytes'' then map_option (\<lambda>x. r\<lparr>RawBytes := x\<rparr>) (dec_int v (RawBytes r))
      else if field_is k ''stored_bytes'' then map_option (\<lambda>x. r\<lparr>StoredBytes := x\<rparr>) (dec_int v (StoredBytes r))
      else Some r)"

definition part_field :: "bytes \<Rightarrow> jval \<Rightarrow> part \<Rightarrow> part option" where
  "part_field k v p =
     (if field_is k ''kind'' then map_option (\<lambda>x. p\<lparr>PartKind := x\<rparr>) (dec_string v (PartKind p))
      else if field_is k ''json_path'' then map_option (\<lambda>x. p\<lparr>JSONPath := x\<rparr>) (dec_string v (JSONPath p))
      else if field_is k ''object'' then map_option (\<lambda>x. p\<lparr>Object := x\<rparr>) (dec_struct ref_field v (Object p))
      else Some p)"

definition session_field :: "bytes \<Rightarrow> jval \<Rightarrow> manifest_session \<Rightarrow> manifest_session option" where
  "session_field k v s =
     (if field_is k ''id'' then map_option (\<lambda>x. s\<lparr>ID := x\<rparr>) (dec_string v (ID s))
      else if field_is k ''title'' then map_option (\<lambda>x. s\<lparr>Title := x\<rparr>) (dec_string v (Title s))
      else if field_is k ''cwd'' then map_option (\<lambda>x. s\<lparr>CWD := x\<rparr>) (dec_string v (CWD s))
      else if field_is k ''rollout_path'' then map_option (\<lambda>x. s\<lparr>RolloutPath := x\<rparr>) (dec_string v (RolloutPath s))
      else if field_is k ''archived'' then map_option (\<lambda>x. s\<lparr>Archived := x\<rparr>) (dec_bool v (Archived s))
      else Some s)"

definition source_field :: "bytes \<Rightarrow> jval \<Rightarrow> manifest_source \<Rightarrow> manifest_source option" where
  "source_field k v s =
     (if field_is k ''bytes'' then map_option (\<lambda>x. s\<lparr>Bytes := x\<rparr>) (dec_int v (Bytes s))
      else if field_is k ''sha256'' then map_option (\<lambda>x. s\<lparr>SourceSHA256 := x\<rparr>) (dec_string v (SourceSHA256 s))
      else Some s)"

definition settings_field :: "bytes \<Rightarrow> jval \<Rightarrow> manifest_settings \<Rightarrow> manifest_settings option" where
  "settings_field k v s =
     (if field_is k ''field_threshold'' then map_option (\<lambda>x. s\<lparr>FieldThreshold := x\<rparr>) (dec_int v (FieldThreshold s))
      else if field_is k ''max_json_line_bytes'' then map_option (\<lambda>x. s\<lparr>MaxJSONLineBytes := x\<rparr>) (dec_int v (MaxJSONLineBytes s))
      else if field_is k ''cdc_min_bytes'' then map_option (\<lambda>x. s\<lparr>CDCMinBytes := x\<rparr>) (dec_int v (CDCMinBytes s))
      else if field_is k ''cdc_average_bytes'' then map_option (\<lambda>x. s\<lparr>CDCAverageBytes := x\<rparr>) (dec_int v (CDCAverageBytes s))
      else if field_is k ''cdc_max_bytes'' then map_option (\<lambda>x. s\<lparr>CDCMaxBytes := x\<rparr>) (dec_int v (CDCMaxBytes s))
      else if field_is k ''compression'' then map_option (\<lambda>x. s\<lparr>Compression := x\<rparr>) (dec_string v (Compression s))
      else if field_is k ''record_threshold'' then map_option (\<lambda>x. s\<lparr>RecordThreshold := x\<rparr>) (dec_int v (RecordThreshold s))
      else Some s)"

definition manifest_field :: "bytes \<Rightarrow> jval \<Rightarrow> manifest \<Rightarrow> manifest option" where
  "manifest_field k v m =
     (if field_is k ''version'' then map_option (\<lambda>x. m\<lparr>Version := x\<rparr>) (dec_int v (Version m))
      else if field_is k ''kind'' then map_option (\<lambda>x. m\<lparr>Kind := x\<rparr>) (dec_string v (Kind m))
      else if field_is k ''created_at'' then map_option (\<lambda>x. m\<lparr>CreatedAt := x\<rparr>) (dec_string v (CreatedAt m))
      else if field_is k ''session'' then map_option (\<lambda>x. m\<lparr>Session := x\<rparr>) (dec_struct session_field v (Session m))
      else if field_is k ''source'' then map_option (\<lambda>x. m\<lparr>Source := x\<rparr>) (dec_struct source_field v (Source m))
      else if field_is k ''settings'' then map_option (\<lambda>x. m\<lparr>Settings := x\<rparr>) (dec_struct settings_field v (Settings m))
      else if field_is k ''parts'' then map_option (\<lambda>x. m\<lparr>Parts := x\<rparr>) (dec_slice (dec_struct part_field) zero_part v)
      else Some m)"

definition DecodeManifest :: "bytes \<Rightarrow> manifest_error + manifest" where
  "DecodeManifest data =
     (case Option.bind (parse_json data) (\<lambda>v. dec_struct manifest_field v zero_manifest) of
        None \<Rightarrow> Inl DecodeFailed
      | Some m \<Rightarrow> rbind (validateManifest m) (\<lambda>_. Inr m))"

definition ManifestPath :: "string \<Rightarrow> string \<Rightarrow> string" where
  "ManifestPath storeDir sessionID = path_join [storeDir, ''manifests'', sessionID @ ''.json'']"

section \<open>The JSON text is read back\<close>

lemmas field_simps = field_is_plain plain_name_code utf8_plain

lemma dec_ref [simp]:
  "in_int64 (RawBytes r) \<Longrightarrow> in_int64 (StoredBytes r) \<Longrightarrow> dec_struct ref_field (ref_json r) zero_ref = Some r"
  by (simp add: dec_struct_def ref_json_def ref_field_def zero_ref_def member_def field_simps)

lemma dec_part:
  "in_int64 (RawBytes (Object p)) \<Longrightarrow> in_int64 (StoredBytes (Object p)) \<Longrightarrow>
   dec_struct part_field (part_json p) zero_part = Some p"
  by (simp add: dec_struct_def [of part_field] part_json_def part_field_def zero_part_def member_def omitempty_def
      field_simps)

lemma dec_session:
  "dec_struct session_field (session_json s) (Session zero_manifest) = Some s"
  by (simp add: zero_manifest_def dec_struct_def session_json_def session_field_def member_def omitempty_def field_simps)

lemma dec_source:
  "in_int64 (Bytes s) \<Longrightarrow> dec_struct source_field (source_json s) (Source zero_manifest) = Some s"
  by (simp add: zero_manifest_def dec_struct_def source_json_def source_field_def member_def field_simps)


lemma dec_settings:
  "in_int64 (FieldThreshold s) \<Longrightarrow> in_int64 (MaxJSONLineBytes s) \<Longrightarrow> in_int64 (CDCMinBytes s) \<Longrightarrow>
   in_int64 (CDCAverageBytes s) \<Longrightarrow> in_int64 (CDCMaxBytes s) \<Longrightarrow> in_int64 (RecordThreshold s) \<Longrightarrow>
   dec_struct settings_field (settings_json s) (Settings zero_manifest) = Some s"
  by (simp add: zero_manifest_def dec_struct_def settings_json_def settings_field_def member_def omitempty_def field_simps)

text \<open>A manifest whose numbers are \<open>int64\<close> values and whose strings are text (valid UTF-8).\<close>

definition ref_ok :: "object_ref \<Rightarrow> bool" where
  "ref_ok r \<longleftrightarrow> in_int64 (RawBytes r) \<and> in_int64 (StoredBytes r) \<and> utf8_string (SHA256 r)"

definition part_ok :: "part \<Rightarrow> bool" where
  "part_ok p \<longleftrightarrow> ref_ok (Object p) \<and> utf8_string (PartKind p) \<and> utf8_string (JSONPath p)"

definition settings_ok :: "manifest_settings \<Rightarrow> bool" where
  "settings_ok s \<longleftrightarrow> in_int64 (FieldThreshold s) \<and> in_int64 (MaxJSONLineBytes s) \<and> in_int64 (CDCMinBytes s) \<and>
     in_int64 (CDCAverageBytes s) \<and> in_int64 (CDCMaxBytes s) \<and> in_int64 (RecordThreshold s) \<and> utf8_string (Compression s)"

definition session_ok :: "manifest_session \<Rightarrow> bool" where
  "session_ok s \<longleftrightarrow> utf8_string (ID s) \<and> utf8_string (Title s) \<and> utf8_string (CWD s) \<and> utf8_string (RolloutPath s)"

definition manifest_ok :: "manifest \<Rightarrow> bool" where
  "manifest_ok m \<longleftrightarrow> in_int64 (Version m) \<and> utf8_string (Kind m) \<and> utf8_string (CreatedAt m) \<and> session_ok (Session m) \<and>
     in_int64 (Bytes (Source m)) \<and> utf8_string (SourceSHA256 (Source m)) \<and> settings_ok (Settings m) \<and>
     (\<forall>p\<in>set (Parts m). part_ok p)"

lemma dec_manifest:
  assumes "manifest_ok m"
  shows "dec_struct manifest_field (manifest_json m) zero_manifest = Some m"
proof -
  have parts: "dec_slice (dec_struct part_field) zero_part (JArr (map part_json (Parts m))) = Some (Parts m)"
    using assms by (auto simp: dec_slice_def manifest_ok_def part_ok_def ref_ok_def intro!: dec_elems_enc dec_part)
  have subs: "dec_struct session_field (session_json (Session m)) (Session zero_manifest) = Some (Session m)"
    "dec_struct source_field (source_json (Source m)) (Source zero_manifest) = Some (Source m)"
    "dec_struct settings_field (settings_json (Settings m)) (Settings zero_manifest) = Some (Settings m)"
    using assms by (auto simp: manifest_ok_def settings_ok_def intro: dec_session dec_source dec_settings)
  have "in_int64 (Version m)"
    using assms by (simp add: manifest_ok_def)
  then show ?thesis
    using parts subs
    by (simp add: dec_struct_def [of manifest_field] manifest_json_def manifest_field_def member_def field_simps)
qed

lemma wf_manifest_json:
  assumes "manifest_ok m"
  shows "wf_jval 10000 (manifest_json m)"
proof -
  have ref: "wf_jval (Suc n) (ref_json r)" if "ref_ok r" for n r
    using that by (simp add: ref_json_def member_def ref_ok_def field_simps)
  have part: "wf_jval (Suc (Suc n)) (part_json p)" if "part_ok p" for n p
    using that ref by (simp add: part_json_def member_def omitempty_def part_ok_def field_simps)
  have session: "wf_jval (Suc n) (session_json s)" if "session_ok s" for n s
    using that by (simp add: session_json_def member_def omitempty_def session_ok_def field_simps)
  have source: "wf_jval (Suc n) (source_json s)" if "utf8_string (SourceSHA256 s)" for n s
    using that by (simp add: source_json_def member_def field_simps)
  have settings: "wf_jval (Suc n) (settings_json s)" if "settings_ok s" for n s
    using that by (simp add: settings_json_def member_def omitempty_def settings_ok_def field_simps)
  have "wf_jval (Suc (Suc (Suc (Suc n)))) (manifest_json m)" for n
    using assms part session source settings
    by (simp add: manifest_json_def member_def manifest_ok_def field_simps)
  from this [of 9996] show ?thesis
    by simp
qed

lemma decode_encode:
  assumes "validateManifest m = Inr ()" and "manifest_ok m"
  shows "DecodeManifest (encodeManifest m) = Inr m"
proof -
  have "parse_json (encodeManifest m) = Some (manifest_json m)"
    unfolding encodeManifest_def MarshalIndent_def
    using wf_manifest_json [OF assms(2)] by (rule parse_json_print) (simp_all add: spaces_def isSpace_def)
  then show ?thesis
    using assms dec_manifest [OF assms(2)] by (simp add: DecodeManifest_def)
qed


text \<open>C29: A manifest that validation accepts is read back exactly from the JSON text that is written for it.\<close>

theorem DecodeManifest_encode:
  assumes "validateManifest m = Inr ()" and "manifest_ok m"
  shows "DecodeManifest (encodeManifest m) = Inr m"
  using assms by (rule decode_encode)

text \<open>A smallest manifest, for the witnesses.\<close>

definition example_manifest :: manifest where
  "example_manifest = zero_manifest\<lparr>Version := 2, Kind := ''fold-v2'',
     Session := \<lparr>ID = ''a'', Title = '''', CWD = '''', RolloutPath = ''/r'', Archived = True\<rparr>,
     Source := \<lparr>Bytes = 0, SourceSHA256 = sha256_hex []\<rparr>\<rparr>"

lemma utf8_short: "(\<forall>c\<in>set s. (of_char c :: nat) < 128) \<Longrightarrow> utf8_string s"
proof -
  assume *: "\<forall>c\<in>set s. (of_char c :: nat) < 128"
  have "b < 128" if "b \<in> set (go_bytes s)" for b
  proof -
    obtain c where "c \<in> set s" "b = of_nat (of_char c)"
      using \<open>b \<in> set (go_bytes s)\<close> by (auto simp: go_bytes_def)
    then have "(of_char c :: nat) < 128" "unat b = of_char c"
      using * by (simp_all add: unat_of_nat_byte del: of_nat_of_char)
    then show ?thesis
      by (simp add: word_less_nat_alt)
  qed
  then show ?thesis
    by (simp add: utf8_string_def utf8_ascii)
qed

lemma hex_encode_digits: "c \<in> set (hex_encode bs) \<Longrightarrow> \<exists>n<16. c = hex_digit n"
proof (induction bs)
  case Nil
  then show ?case by simp
next
  case (Cons b bs)
  have d: "unat b div 16 < 16"
    by (simp add: less_mult_imp_div_less)
  consider "c = hex_digit (unat b div 16)" | "c = hex_digit (unat b mod 16)" | "c \<in> set (hex_encode bs)"
    using Cons.prems by auto
  then show ?case
  proof cases
    case 1
    with d show ?thesis by blast
  next
    case 2
    then show ?thesis by (intro exI [of _ "unat b mod 16"]) simp
  next
    case 3
    then show ?thesis by (rule Cons.IH)
  qed
qed

lemma utf8_digest: "utf8_string (sha256_hex x)"
proof (rule utf8_short, rule ballI)
  fix c
  assume "c \<in> set (sha256_hex x)"
  then obtain n where "n < 16" "c = hex_digit n"
    using hex_encode_digits by (auto simp: sha256_hex_def)
  then show "(of_char c :: nat) < 128"
    by (simp add: hex_digit_def)
qed

lemma sha256_hex_nonempty [simp]: "sha256_hex x \<noteq> []"
  using length_sha256_hex [of x] by fastforce

lemma example_manifest_ok: "manifest_ok example_manifest"
  by (simp add: manifest_ok_def example_manifest_def zero_manifest_def session_ok_def settings_ok_def in_int64_def
      maxInt64_def utf8_short utf8_digest)

lemma example_manifest_valid: "validateManifest example_manifest = Inr ()"
  by (simp add: validateManifest_def example_manifest_def zero_manifest_def SupportedManifest_def ManifestVersion_def
      ManifestVersionV2_def ManifestKindV2_def validateSessionID_def contains_any_def)

theorem DecodeManifest_encode_witness: "DecodeManifest (encodeManifest example_manifest) = Inr example_manifest"
  by (rule DecodeManifest_encode [OF example_manifest_valid example_manifest_ok])

lemma validateSessionID_safe [result_simps]: "validateSessionID s = Inr u \<longleftrightarrow> safeSessionID s"
  by (auto simp: validateSessionID_def safeSessionID_def)

lemma proper_json: "safeSessionID s \<Longrightarrow> proper_comp (s @ ''.json'')"
  using safeSessionID_proper [of s]
  by (auto simp: proper_comp_def slash_def append_eq_Cons_conv)

lemma proper_manifests: "proper_comp ''manifests''"
  by (simp add: proper_comp_def slash_def)

text \<open>C30: A session identifier that validation accepts names a file directly inside the manifest directory of the
  store, and distinct identifiers name distinct files.\<close>

theorem ManifestPath_confined:
  assumes "is_abs storeDir" and "validateSessionID a = Inr ()" and "validateSessionID b = Inr ()"
  shows "path_dir (ManifestPath storeDir a) = path_join [storeDir, ''manifests''] \<and>
    (ManifestPath storeDir a = ManifestPath storeDir b \<longleftrightarrow> a = b)"
proof -
  have safe: "safeSessionID a" "safeSessionID b"
    using assms by (simp_all add: result_simps)
  have dir: "path_dir (ManifestPath storeDir a) = path_join [storeDir, ''manifests'']"
    using path_dir_join [OF assms(1), of "[''manifests'']" "a @ ''.json''"] proper_json [OF safe(1)] proper_manifests
    by (simp add: ManifestPath_def)
  have base: "path_base (ManifestPath storeDir s) = s @ ''.json''" if "safeSessionID s" for s
    using path_base_join [OF assms(1), of "[''manifests'']" "s @ ''.json''"] proper_json [OF that] proper_manifests
    by (simp add: ManifestPath_def)
  show ?thesis
    using dir base [OF safe(1)] base [OF safe(2)] by (metis append_same_eq)
qed

theorem ManifestPath_confined_witness:
  "path_dir (ManifestPath ''/s'' ''x'') = path_join [''/s'', ''manifests''] \<and>
   (ManifestPath ''/s'' ''x'' = ManifestPath ''/s'' ''y'' \<longleftrightarrow> ''x'' = ''y'')"
  by (rule ManifestPath_confined)
    (simp_all add: is_abs_def slash_def validateSessionID_def contains_any_def)


end
