(* ===== verification/Fs.thy ===== *)
theory Fs
  imports Path
begin

text \<open>
  The files a process sees: contents with a modification time and an identity (what \<open>os.SameFile\<close>
  compares). Directories exist as they are needed. A file that is written to a temporary name,
  synced, closed and renamed becomes visible in one step, \<open>install_file\<close>; it is a new file, with a
  new identity.
\<close>

record file_node =
  content :: bytes
  modtime :: int
  inode :: nat

record fs =
  files :: "string \<Rightarrow> file_node option"
  next_inode :: nat
  clock :: int

record file_info =
  Size :: int64
  ModTime :: int
  Identity :: nat

definition stat_of :: "file_node \<Rightarrow> file_info" where
  "stat_of f = \<lparr>Size = int (length (content f)), ModTime = modtime f, Identity = inode f\<rparr>"

definition Stat :: "fs \<Rightarrow> string \<Rightarrow> file_info option" where
  "Stat w p = map_option stat_of (files w p)"

definition ReadFile :: "fs \<Rightarrow> string \<Rightarrow> bytes option" where
  "ReadFile w p = map_option content (files w p)"

definition install_file :: "string \<Rightarrow> bytes \<Rightarrow> fs \<Rightarrow> fs" where
  "install_file p data w =
     w\<lparr>files := (files w)(p \<mapsto> \<lparr>content = data, modtime = clock w, inode = next_inode w\<rparr>), next_inode := next_inode w + 1\<rparr>"

definition remove_file :: "string \<Rightarrow> fs \<Rightarrow> fs" where
  "remove_file p w = w\<lparr>files := (files w)(p := None)\<rparr>"

text \<open>The same file, unchanged as far as a second look can tell.\<close>

definition same_info :: "file_info \<Rightarrow> file_info \<Rightarrow> bool" where
  "same_info a b \<longleftrightarrow> Size a = Size b \<and> ModTime a = ModTime b \<and> Identity a = Identity b"

definition empty_fs :: fs where
  "empty_fs = \<lparr>files = (\<lambda>_. None), next_inode = 0, clock = 0\<rparr>"

lemma ReadFile_install [simp]: "ReadFile (install_file p data w) q = (if q = p then Some data else ReadFile w q)"
  by (simp add: ReadFile_def install_file_def)

lemma Stat_install_other [simp]: "q \<noteq> p \<Longrightarrow> Stat (install_file p data w) q = Stat w q"
  by (simp add: Stat_def install_file_def)

lemma Stat_install_same [simp]: "Stat (install_file p data w) p = None \<longleftrightarrow> False"
  by (simp add: Stat_def install_file_def)

lemma ReadFile_remove [simp]: "ReadFile (remove_file p w) q = (if q = p then None else ReadFile w q)"
  by (simp add: ReadFile_def remove_file_def)

lemma Stat_None_iff: "Stat w p = None \<longleftrightarrow> ReadFile w p = None"
  by (simp add: Stat_def ReadFile_def)

lemma Stat_Some_Size: "Stat w p = Some i \<Longrightarrow> ReadFile w p = Some d \<Longrightarrow> Size i = int (length d)"
  by (auto simp: Stat_def ReadFile_def stat_of_def)

end
