(* ===== verification/Object_Store.thy ===== *)
theory Object_Store
  imports Manifest Fs
begin

text \<open>
  The content-addressed store of loose objects, \<open>src/internal/fold/store.go\<close>, its verifying streams,
  \<open>stream.go\<close>, and the reader interface with its fallback, \<open>reader.go\<close>. The zstd library is a parameter: a
  record of its two functions.
\<close>

record zstd =
  Compress :: "bytes \<Rightarrow> bytes"
  DecodeAll :: "bytes \<Rightarrow> bytes option"

text \<open>What the store relies on: a compressed object decodes to itself.\<close>

definition zstd_ok :: "zstd \<Rightarrow> bool" where
  "zstd_ok z \<longleftrightarrow> (\<forall>x. DecodeAll z (Compress z x) = Some x)"

datatype object_error =
    ObjectMissing string
  | ObjectUndecodable string
  | ObjectSize string int64 int64
  | ObjectDigestMismatch string
  | ExistingObject object_error
  | SyncFailed string

record cached_object =
  cref :: object_ref
  persisted :: bool

record object_store =
  root :: string
  objects :: "string \<Rightarrow> cached_object option"
  pending :: "string list"
  pendingDirs :: "string list"

definition NewObjectStore :: "string \<Rightarrow> object_store" where
  "NewObjectStore r = \<lparr>root = r, objects = (\<lambda>_. None), pending = [], pendingDirs = []\<rparr>"

definition ObjectPath :: "object_store \<Rightarrow> string \<Rightarrow> string" where
  "ObjectPath s digest =
     (let prefix = (if length digest \<ge> 2 then take 2 digest else ''invalid'')
      in path_join [root s, ''objects'', prefix, digest @ ''.zst''])"

section \<open>Verification of a stored object\<close>

definition verify_object :: "object_ref \<Rightarrow> bytes \<Rightarrow> object_error + bytes" where
  "verify_object ref data =
     (if int (length data) \<noteq> RawBytes ref then Inl (ObjectSize (SHA256 ref) (int (length data)) (RawBytes ref))
      else if sha256_hex data \<noteq> SHA256 ref then Inl (ObjectDigestMismatch (SHA256 ref))
      else Inr data)"

definition Read :: "zstd \<Rightarrow> fs \<Rightarrow> object_store \<Rightarrow> object_ref \<Rightarrow> object_error + bytes" where
  "Read z w s ref =
     (case ReadFile w (ObjectPath s (SHA256 ref)) of
        None \<Rightarrow> Inl (ObjectMissing (SHA256 ref))
      | Some compressed \<Rightarrow>
          (case DecodeAll z compressed of
             None \<Rightarrow> Inl (ObjectUndecodable (SHA256 ref))
           | Some data \<Rightarrow> verify_object ref data))"

section \<open>Streams\<close>

text \<open>An open stream: the bytes the decoder has yet to deliver (\<open>None\<close> where the frame is corrupt), what has been
  hashed and counted so far.\<close>

record object_stream =
  stream_ref :: object_ref
  decoder_rest :: "bytes option"
  hashed :: bytes
  read_bytes :: int64
  stream_done :: bool

datatype read_status = ReadMore | ReadEOF | ReadError object_error

definition OpenStream :: "fs \<Rightarrow> zstd \<Rightarrow> object_store \<Rightarrow> object_ref \<Rightarrow> object_error + object_stream" where
  "OpenStream w z s ref =
     (case ReadFile w (ObjectPath s (SHA256 ref)) of
        None \<Rightarrow> Inl (ObjectMissing (SHA256 ref))
      | Some compressed \<Rightarrow>
          Inr \<lparr>stream_ref = ref, decoder_rest = DecodeAll z compressed, hashed = [], read_bytes = 0, stream_done = False\<rparr>)"

definition HasObject :: "fs \<Rightarrow> object_store \<Rightarrow> object_ref \<Rightarrow> bool" where
  "HasObject w s ref \<longleftrightarrow> Stat w (ObjectPath s (SHA256 ref)) \<noteq> None"

text \<open>\<open>objectStream.Read\<close> into a buffer of \<open>k\<close> bytes.\<close>

definition stream_Read :: "nat \<Rightarrow> object_stream \<Rightarrow> bytes \<times> read_status \<times> object_stream" where
  "stream_Read k st =
     (case decoder_rest st of
        None \<Rightarrow> ([], ReadError (ObjectUndecodable (SHA256 (stream_ref st))), st)
      | Some [] \<Rightarrow>
          if \<not> stream_done st then
            (let st = st\<lparr>stream_done := True\<rparr>
             in if read_bytes st \<noteq> RawBytes (stream_ref st)
                then ([], ReadError (ObjectSize (SHA256 (stream_ref st)) (read_bytes st) (RawBytes (stream_ref st))), st)
                else if sha256_hex (hashed st) \<noteq> SHA256 (stream_ref st)
                then ([], ReadError (ObjectDigestMismatch (SHA256 (stream_ref st))), st)
                else ([], ReadEOF, st))
          else ([], ReadEOF, st)
      | Some left \<Rightarrow>
          (take k left, ReadMore,
           st\<lparr>decoder_rest := Some (drop k left), hashed := hashed st @ take k left,
              read_bytes := read_bytes st + int (length (take k left))\<rparr>))"

text \<open>\<open>io.Copy\<close> with its buffer of 32 KiB: what has been delivered, or the error.\<close>

function io_copy :: "object_stream \<Rightarrow> object_error + bytes" where
  "io_copy st =
     (case stream_Read 32768 st of
        (chunk, ReadEOF, _) \<Rightarrow> Inr []
      | (chunk, ReadError e, _) \<Rightarrow> Inl e
      | (chunk, ReadMore, st') \<Rightarrow> rbind (io_copy st') (\<lambda>more. Inr (chunk @ more)))"
  by pat_completeness auto
termination
  by (relation "measure (\<lambda>st. case decoder_rest st of None \<Rightarrow> 0 | Some r \<Rightarrow> length r)")
    (auto simp: stream_Read_def Let_def split: option.splits list.splits if_splits)

declare io_copy.simps [simp del]

text \<open>\<open>OpenObject\<close> followed by copying the whole stream.\<close>

definition fetch_object :: "zstd \<Rightarrow> fs \<Rightarrow> object_store \<Rightarrow> object_ref \<Rightarrow> object_error + bytes" where
  "fetch_object z w s ref = rbind (OpenStream w z s ref) io_copy"

section \<open>Storing\<close>

type_synonym put_result = "object_error + (object_ref \<times> bool \<times> fs \<times> object_store)"

text \<open>The object is not there yet: compress it, and commit it unless this is only an estimate.\<close>

definition put_new :: "zstd \<Rightarrow> bytes \<Rightarrow> bool \<Rightarrow> fs \<Rightarrow> object_store \<Rightarrow> put_result" where
  "put_new z data apply_it w s =
     (let digest = sha256_hex data;
          path = ObjectPath s digest;
          compressed = Compress z data;
          ref = \<lparr>SHA256 = digest, RawBytes = int (length data), StoredBytes = int (length compressed)\<rparr>
      in if \<not> apply_it
         then Inr (ref, False, w, s\<lparr>objects := (objects s)(digest \<mapsto> \<lparr>cref = ref, persisted = False\<rparr>)\<rparr>)
         else Inr (ref, False, install_file path compressed w,
                   s\<lparr>objects := (objects s)(digest \<mapsto> \<lparr>cref = ref, persisted = True\<rparr>),
                     pending := List.insert path (pending s),
                     pendingDirs := List.insert (path_dir path) (pendingDirs s)\<rparr>))"

text \<open>A file is there: it is verified before it is reused.\<close>

definition put_existing :: "zstd \<Rightarrow> bytes \<Rightarrow> file_info \<Rightarrow> fs \<Rightarrow> object_store \<Rightarrow> put_result" where
  "put_existing z data info w s =
     (let digest = sha256_hex data;
          ref = \<lparr>SHA256 = digest, RawBytes = int (length data), StoredBytes = Size info\<rparr>
      in case Read z w s ref of
           Inl e \<Rightarrow> Inl (ExistingObject e)
         | Inr _ \<Rightarrow> Inr (ref, True, w, s\<lparr>objects := (objects s)(digest \<mapsto> \<lparr>cref = ref, persisted = True\<rparr>)\<rparr>))"

definition put_lookup :: "zstd \<Rightarrow> bytes \<Rightarrow> bool \<Rightarrow> fs \<Rightarrow> object_store \<Rightarrow> put_result" where
  "put_lookup z data apply_it w s =
     (case Stat w (ObjectPath s (sha256_hex data)) of
        Some info \<Rightarrow> put_existing z data info w s
      | None \<Rightarrow> put_new z data apply_it w s)"

definition Put :: "zstd \<Rightarrow> bytes \<Rightarrow> bool \<Rightarrow> fs \<times> object_store \<Rightarrow> put_result" where
  "Put z data apply_it ws =
     (case ws of (w, s) \<Rightarrow>
        case objects s (sha256_hex data) of
          Some cached \<Rightarrow>
            if \<not> apply_it \<or> persisted cached then Inr (cref cached, True, w, s) else put_lookup z data apply_it w s
        | None \<Rightarrow> put_lookup z data apply_it w s)"

text \<open>
  \<open>SyncPending\<close> over the outcome of syncing each file and directory. The workers take the pending files in
  any order and the first failure stops them, so that a failure of any one of them fails the call
  and keeps everything pending.
\<close>

definition SyncPending :: "(string \<Rightarrow> bool) \<Rightarrow> object_store \<Rightarrow> object_error + object_store" where
  "SyncPending sync_ok s =
     (if pending s = [] then Inr s
      else case find (\<lambda>p. \<not> sync_ok p) (pending s @ pendingDirs s @ [path_join [root s, ''objects'']]) of
             Some p \<Rightarrow> Inl (SyncFailed p)
           | None \<Rightarrow> Inr (s\<lparr>pending := [], pendingDirs := []\<rparr>))"

section \<open>The reader interface\<close>

record object_reader =
  reader_has :: "object_ref \<Rightarrow> bool"
  reader_fetch :: "object_ref \<Rightarrow> object_error + bytes"

definition store_reader :: "zstd \<Rightarrow> fs \<Rightarrow> object_store \<Rightarrow> object_reader" where
  "store_reader z w s = \<lparr>reader_has = HasObject w s, reader_fetch = fetch_object z w s\<rparr>"

definition fallbackObjectReader :: "object_reader \<Rightarrow> object_reader \<Rightarrow> object_reader" where
  "fallbackObjectReader primary fallback =
     \<lparr>reader_has = (\<lambda>ref. reader_has primary ref \<or> reader_has fallback ref),
      reader_fetch = (\<lambda>ref. if reader_has primary ref then reader_fetch primary ref else reader_fetch fallback ref)\<rparr>"

definition openObjectReader :: "zstd \<Rightarrow> fs \<Rightarrow> string \<Rightarrow> object_reader option \<Rightarrow> object_reader" where
  "openObjectReader z w storeDir reader =
     (case reader of Some r \<Rightarrow> r | None \<Rightarrow> store_reader z w (NewObjectStore storeDir))"

section \<open>Streaming is reading\<close>

lemma verify_object_Inr [result_simps]:
  "verify_object ref data = Inr x \<longleftrightarrow> x = data \<and> int (length data) = RawBytes ref \<and> sha256_hex data = SHA256 ref"
  by (auto simp: verify_object_def)

lemma io_copy_verify:
  "decoder_rest st = Some r \<Longrightarrow> \<not> stream_done st \<Longrightarrow> read_bytes st = int (length (hashed st)) \<Longrightarrow>
   io_copy st = rbind (verify_object (stream_ref st) (hashed st @ r)) (\<lambda>_. Inr r)"
proof (induction "length r" arbitrary: st r rule: less_induct)
  case less
  show ?case
  proof (cases r)
    case Nil
    then show ?thesis
      using less.prems by (subst io_copy.simps) (simp add: stream_Read_def verify_object_def Let_def)
  next
    case (Cons b bs)
    define st' where "st' = st\<lparr>decoder_rest := Some (drop 32768 r), hashed := hashed st @ take 32768 r,
      read_bytes := read_bytes st + int (length (take 32768 r))\<rparr>"
    have step: "stream_Read 32768 st = (take 32768 r, ReadMore, st')"
      using less.prems Cons by (simp add: stream_Read_def st'_def)
    have "io_copy st' = rbind (verify_object (stream_ref st) (hashed st @ r)) (\<lambda>_. Inr (drop 32768 r))"
      using less.hyps [of "drop 32768 r" st'] less.prems by (simp add: st'_def Cons)
    then show ?thesis
      by (subst io_copy.simps) (simp add: step rbind_assoc)
  qed
qed

lemma fetch_is_Read: "fetch_object z w s ref = Read z w s ref"
proof (cases "ReadFile w (ObjectPath s (SHA256 ref))")
  case None
  then show ?thesis
    by (simp add: fetch_object_def OpenStream_def Read_def)
next
  case (Some c)
  show ?thesis
  proof (cases "DecodeAll z c")
    case None
    then show ?thesis
      using Some by (simp add: fetch_object_def OpenStream_def Read_def io_copy.simps stream_Read_def)
  next
    case data: (Some data)
    then show ?thesis
      using Some
      by (auto simp: fetch_object_def OpenStream_def Read_def io_copy_verify verify_object_def)
  qed
qed

text \<open>Streaming an object and copying the stream to its end gives exactly what reading the object at once gives:
  the same bytes or the same error, with the size and the digest checked at the end of the stream.\<close>

theorem fetch_object_Read: "fetch_object z w s ref = Read z w s ref"
  by (rule fetch_is_Read)

section \<open>Storing and reading back\<close>

lemma ObjectPath_cong: "root s' = root s \<Longrightarrow> ObjectPath s' d = ObjectPath s d"
  by (simp add: ObjectPath_def)

lemma Read_cong:
  "root s' = root s \<Longrightarrow> ReadFile w' (ObjectPath s (SHA256 ref)) = ReadFile w (ObjectPath s (SHA256 ref)) \<Longrightarrow>
   Read z w' s' ref = Read z w s ref"
  by (simp add: Read_def ObjectPath_cong [of s' s])

lemma Read_Inr:
  "Read z w s ref = Inr x \<Longrightarrow> int (length x) = RawBytes ref \<and> sha256_hex x = SHA256 ref"
  by (auto simp: Read_def result_simps split: option.splits)

text \<open>The three ways a \<open>Put\<close> can succeed.\<close>

lemma Put_cases:
  assumes "Put z data a (w, s) = Inr (ref, reused, w', s')"
  obtains (cached) c where "objects s (sha256_hex data) = Some c" "\<not> a \<or> persisted c" "ref = cref c" "reused" "w' = w" "s' = s"
  | (existing) i x where "Stat w (ObjectPath s (sha256_hex data)) = Some i" "reused" "w' = w"
      "ref = \<lparr>SHA256 = sha256_hex data, RawBytes = int (length data), StoredBytes = Size i\<rparr>"
      "Read z w s ref = Inr x"
      "s' = s\<lparr>objects := (objects s)(sha256_hex data \<mapsto> \<lparr>cref = ref, persisted = True\<rparr>)\<rparr>"
  | (planned) "Stat w (ObjectPath s (sha256_hex data)) = None" "\<not> a" "\<not> reused" "w' = w"
      "ref = \<lparr>SHA256 = sha256_hex data, RawBytes = int (length data), StoredBytes = int (length (Compress z data))\<rparr>"
      "s' = s\<lparr>objects := (objects s)(sha256_hex data \<mapsto> \<lparr>cref = ref, persisted = False\<rparr>)\<rparr>"
  | (stored) "Stat w (ObjectPath s (sha256_hex data)) = None" "a" "\<not> reused"
      "w' = install_file (ObjectPath s (sha256_hex data)) (Compress z data) w"
      "ref = \<lparr>SHA256 = sha256_hex data, RawBytes = int (length data), StoredBytes = int (length (Compress z data))\<rparr>"
      "s' = s\<lparr>objects := (objects s)(sha256_hex data \<mapsto> \<lparr>cref = ref, persisted = True\<rparr>),
         pending := List.insert (ObjectPath s (sha256_hex data)) (pending s),
         pendingDirs := List.insert (path_dir (ObjectPath s (sha256_hex data))) (pendingDirs s)\<rparr>"
proof -
  let ?d = "sha256_hex data"
  consider c where "objects s ?d = Some c" "\<not> a \<or> persisted c" "ref = cref c" "reused" "w' = w" "s' = s"
    | "put_lookup z data a w s = Inr (ref, reused, w', s')"
  proof (cases "objects s ?d")
    case None
    then show thesis
      using assms that(2) by (simp add: Put_def)
  next
    case (Some c)
    show thesis
    proof (cases "\<not> a \<or> persisted c")
      case True
      then have "(cref c, True, w, s) = (ref, reused, w', s')"
        using assms Some by (simp add: Put_def)
      then show thesis
        using that(1) [OF Some True] by simp
    next
      case False
      then show thesis
        using assms Some that(2) by (simp add: Put_def)
    qed
  qed
  then show thesis
  proof cases
    case 1
    then show thesis by (rule cached)
  next
    case 2
    show thesis
    proof (cases "Stat w (ObjectPath s ?d)")
      case None
      then have "put_new z data a w s = Inr (ref, reused, w', s')"
        using 2 by (simp add: put_lookup_def)
      then have new: "put_new z data a w s = Inr (ref, reused, w', s')" .
      show thesis
      proof (cases a)
        case True
        show thesis
          by (rule stored [OF None True]) (use new True in \<open>simp_all add: put_new_def Let_def eq_commute\<close>)
      next
        case False
        show thesis
          by (rule planned [OF None False]) (use new False in \<open>simp_all add: put_new_def Let_def eq_commute\<close>)
      qed
    next
      case (Some i)
      then have "put_existing z data i w s = Inr (ref, reused, w', s')"
        using 2 by (simp add: put_lookup_def)
      then have ex: "put_existing z data i w s = Inr (ref, reused, w', s')" .
      let ?ref = "\<lparr>SHA256 = ?d, RawBytes = int (length data), StoredBytes = Size i\<rparr>"
      show thesis
      proof (cases "Read z w s ?ref")
        case (Inl e)
        then show thesis
          using ex by (simp add: put_existing_def Let_def)
      next
        case (Inr x)
        then have "(?ref, True, w, s\<lparr>objects := (objects s)(?d \<mapsto> \<lparr>cref = ?ref, persisted = True\<rparr>)\<rparr>) = (ref, reused, w', s')"
          using ex unfolding put_existing_def Let_def by (simp only: sum.case sum.inject)
        from this [symmetric] show thesis
          using Inr by (intro existing [OF Some, of x]) simp_all
      qed
    qed
  qed
qed

lemma Put_root: "Put z data a (w, s) = Inr (ref, reused, w', s') \<Longrightarrow> root s' = root s"
  by (erule Put_cases) auto

lemma Put_keeps_Read:
  assumes "Put z data a (w, s) = Inr (ref, reused, w', s')" and "Read z w s r = Inr x"
  shows "Read z w' s' r = Inr x"
  using assms(1)
proof (cases rule: Put_cases)
  case stored
  have "ReadFile w (ObjectPath s (SHA256 r)) \<noteq> None"
    using assms(2) by (auto simp: Read_def split: option.splits)
  then have "ObjectPath s (SHA256 r) \<noteq> ObjectPath s (sha256_hex data)"
    using stored by (auto simp: Stat_None_iff)
  then show ?thesis
    using Read_cong [OF Put_root [OF assms(1)], of w' r w z] assms(2) stored by simp
qed (use assms(2) in \<open>auto simp: Read_def ObjectPath_def\<close>)

text \<open>The invariant of the cache: an entry is for its own digest, and what is marked as persisted can be read.\<close>

definition store_inv :: "zstd \<Rightarrow> fs \<Rightarrow> object_store \<Rightarrow> bool" where
  "store_inv z w s \<longleftrightarrow>
     (\<forall>d c. objects s d = Some c \<longrightarrow> SHA256 (cref c) = d \<and> (persisted c \<longrightarrow> (\<exists>x. Read z w s (cref c) = Inr x)))"

lemma store_inv_New [simp]: "store_inv z w (NewObjectStore r)"
  by (simp add: store_inv_def NewObjectStore_def)

lemma Put_stored_Read:
  assumes "zstd_ok z" and "root s' = root s"
    and "w' = install_file (ObjectPath s (sha256_hex data)) (Compress z data) w"
    and "SHA256 ref = sha256_hex data" and "RawBytes ref = int (length data)"
  shows "Read z w' s' ref = Inr data"
  using assms by (simp add: Read_def ObjectPath_cong [OF assms(2)] zstd_ok_def verify_object_def)

lemma Put_Read_digest:
  assumes "zstd_ok z" and "store_inv z w s" and put: "Put z data True (w, s) = Inr (ref, reused, w', s')"
  shows "\<exists>x. Read z w' s' ref = Inr x \<and> sha256 x = sha256 data"
  using put
proof (cases rule: Put_cases)
  case (cached c)
  then obtain x where "Read z w s ref = Inr x" and "SHA256 ref = sha256_hex data"
    using assms(2) by (auto simp: store_inv_def)
  then show ?thesis
    using cached Read_Inr [of z w s ref x] by auto
next
  case (existing i x)
  have root': "root s' = root s"
    using Put_root [OF put] .
  have "Read z w' s' ref = Read z w s ref"
    using existing(3) by (intro Read_cong root') simp
  moreover have "sha256 x = sha256 data"
    using Read_Inr [OF existing(5)] existing(4) by simp
  ultimately show ?thesis
    using existing(5) by simp
next
  case planned
  then show ?thesis by simp
next
  case stored
  have "Read z w' s' ref = Inr data"
    using stored by (intro Put_stored_Read [OF assms(1) Put_root [OF put]]) simp_all
  then show ?thesis by blast
qed

lemma store_inv_Put:
  assumes "zstd_ok z" and "store_inv z w s" and put: "Put z data a (w, s) = Inr (ref, reused, w', s')"
  shows "store_inv z w' s'"
proof -
  have entry: "SHA256 (cref c) = d \<and> (persisted c \<longrightarrow> (\<exists>x. Read z w' s' (cref c) = Inr x))"
    if "objects s d = Some c" for d c
    using that assms(2) Put_keeps_Read [OF put] unfolding store_inv_def by blast
  show ?thesis
    using put
  proof (cases rule: Put_cases)
    case (existing i x)
    have "Read z w' s' ref = Inr x"
      using Put_keeps_Read [OF put existing(5)] .
    then show ?thesis
      using entry existing(4,6) unfolding store_inv_def by auto
  next
    case stored
    have "Read z w' s' ref = Inr data"
      using stored by (intro Put_stored_Read [OF assms(1) Put_root [OF put]]) simp_all
    then show ?thesis
      using entry stored(5,6) unfolding store_inv_def by auto
  qed (use entry in \<open>auto simp: store_inv_def\<close>)
qed

end
