(* ===== verification/Budget.thy ===== *)
theory Budget
  imports Manifest Fs
begin

text \<open>
  Storage budgets, \<open>src/internal/storage\<close>: pricing a request against limits (\<open>budget.go\<close>), the guards
  that price a projection against a store or a volume (\<open>guard.go\<close>), the policy file (\<open>policy.go\<close>), the
  accounting of a finished mutation (\<open>accounting.go\<close>) and the probe path (\<open>space.go\<close>). All byte
  arithmetic is on \<open>int64\<close> with its wrap-around.
\<close>

section \<open>Pricing a request\<close>

datatype rejection_reason = PhysicalBudget | TemporaryBudget | FreeSpaceReserve

record limits =
  MaxPhysicalBytes :: int64
  MaxTemporaryBytes :: int64
  FreeSpaceReserveBytes :: int64

record budget_request =
  ReqOperation :: string
  CurrentPhysicalBytes :: int64
  ReqPersistentBytes :: int64
  ReqTemporaryBytes :: int64
  ReqOverlapBytes :: int64
  ReqReclaimableBytes :: int64
  AvailableBytes :: int64

record budget_report =
  RepOperation :: string
  Allowed :: bool
  RepCurrentPhysicalBytes :: int64
  ProjectedPeakBytes :: int64
  ProjectedFinalBytes :: int64
  ProjectedReclaimableBytes :: int64
  RepAvailableBytes :: int64
  FreeSpaceAfterPeak :: int64
  Rejections :: "rejection_reason list"

datatype budget_error =
    OperationRequired | NegativeBytes | OverlapExceeds | NegativeLimits
  | AdditionalOverflow | PeakOverflow | FinalOverflow
  | ErrBudgetExceeded budget_report
  | GuardStoreRequired | InventoryMismatch | ProbeFailed | ScanFailed string
  | PolicyStoreRequired | PolicyDecode | PolicyVersion int | PolicyLimits | PolicyRetention string

definition addBudgetBytes :: "int64 \<Rightarrow> int64 \<Rightarrow> int64 \<times> bool" where
  "addBudgetBytes left right =
     (if left > wrap64 (maxInt64 - right) then (0, True) else (wrap64 (left + right), False))"

definition reject_if :: "bool \<Rightarrow> rejection_reason \<Rightarrow> rejection_reason list" where
  "reject_if bad reason = (if bad then [reason] else [])"

definition CheckBudget :: "budget_request \<Rightarrow> limits \<Rightarrow> budget_error + budget_report" where
  "CheckBudget request lim =
     (if ReqOperation request = '''' then Inl OperationRequired
      else if CurrentPhysicalBytes request < 0 \<or> ReqPersistentBytes request < 0 \<or> ReqTemporaryBytes request < 0 \<or>
              ReqOverlapBytes request < 0 \<or> ReqReclaimableBytes request < 0 \<or> AvailableBytes request < 0
        then Inl NegativeBytes
      else if ReqOverlapBytes request > ReqTemporaryBytes request \<or> ReqOverlapBytes request > ReqPersistentBytes request
        then Inl OverlapExceeds
      else if MaxPhysicalBytes lim < 0 \<or> MaxTemporaryBytes lim < 0 \<or> FreeSpaceReserveBytes lim < 0
        then Inl NegativeLimits
      else case addBudgetBytes (ReqPersistentBytes request) (ReqTemporaryBytes request) of (additional, overflow) \<Rightarrow>
        if overflow then Inl AdditionalOverflow
        else let additional = wrap64 (additional - ReqOverlapBytes request)
        in case addBudgetBytes (CurrentPhysicalBytes request) additional of (peak, overflow) \<Rightarrow>
        if overflow then Inl PeakOverflow
        else case addBudgetBytes (CurrentPhysicalBytes request) (ReqPersistentBytes request) of (beforeReclaim, overflow) \<Rightarrow>
        if overflow then Inl FinalOverflow
        else let final = wrap64 (beforeReclaim - min (ReqReclaimableBytes request) beforeReclaim);
                 freeAfterPeak = wrap64 (AvailableBytes request - additional);
                 rejections =
                   reject_if (MaxPhysicalBytes lim > 0 \<and> peak > MaxPhysicalBytes lim) PhysicalBudget @
                   reject_if (MaxTemporaryBytes lim > 0 \<and> ReqTemporaryBytes request > MaxTemporaryBytes lim) TemporaryBudget @
                   reject_if (freeAfterPeak < FreeSpaceReserveBytes lim) FreeSpaceReserve;
                 report = \<lparr>RepOperation = ReqOperation request, Allowed = (rejections = []),
                   RepCurrentPhysicalBytes = CurrentPhysicalBytes request, ProjectedPeakBytes = peak,
                   ProjectedFinalBytes = final, ProjectedReclaimableBytes = ReqReclaimableBytes request,
                   RepAvailableBytes = AvailableBytes request, FreeSpaceAfterPeak = freeAfterPeak, Rejections = rejections\<rparr>
             in if rejections \<noteq> [] then Inl (ErrBudgetExceeded report) else Inr report)"

section \<open>Guards\<close>

record projection =
  Operation :: string
  AdditionalPersistentBytes :: int64
  TemporaryBytes :: int64
  TemporaryPersistentOverlapBytes :: int64
  ReclaimableBytes :: int64

text \<open>The two fields of a store inventory that the guards use.\<close>

record inventory =
  StoreDir :: string
  TotalPhysicalBytes :: int64

record assessment =
  Inventory :: inventory
  Budget :: budget_report

record guard_config =
  GuardStoreDir :: string
  Limits :: limits

definition zero_inventory :: inventory where
  "zero_inventory = \<lparr>StoreDir = '''', TotalPhysicalBytes = 0\<rparr>"

definition request_of :: "projection \<Rightarrow> int64 \<Rightarrow> int64 \<Rightarrow> budget_request" where
  "request_of p current available =
     \<lparr>ReqOperation = Operation p, CurrentPhysicalBytes = current, ReqPersistentBytes = AdditionalPersistentBytes p,
      ReqTemporaryBytes = TemporaryBytes p, ReqOverlapBytes = TemporaryPersistentOverlapBytes p,
      ReqReclaimableBytes = ReclaimableBytes p, AvailableBytes = available\<rparr>"

text \<open>\<open>filepath.Abs\<close> of an already absolute store path, as every caller passes, is \<open>filepath.Clean\<close>.\<close>

definition absoluteStore :: "guard_config \<Rightarrow> budget_error + string" where
  "absoluteStore g = (if GuardStoreDir g = '''' then Inl GuardStoreRequired else Inr (path_clean (GuardStoreDir g)))"

definition checkWithInventory :: "(string \<Rightarrow> int64 option) \<Rightarrow> guard_config \<Rightarrow> string \<Rightarrow> inventory \<Rightarrow> projection \<Rightarrow> budget_error + assessment" where
  "checkWithInventory probe g store i p =
     (if path_clean (StoreDir i) \<noteq> store then Inl InventoryMismatch
      else case probe store of
             None \<Rightarrow> Inl ProbeFailed
           | Some available \<Rightarrow>
               rbind (CheckBudget (request_of p (TotalPhysicalBytes i) available) (Limits g)) (\<lambda>report.
                 Inr \<lparr>Inventory = i, Budget = report\<rparr>))"

text \<open>\<open>Guard.Check\<close>, over the outcome of scanning the store.\<close>

definition Guard_Check :: "(string \<Rightarrow> budget_error + inventory) \<Rightarrow> (string \<Rightarrow> int64 option) \<Rightarrow> guard_config \<Rightarrow> projection \<Rightarrow> budget_error + assessment" where
  "Guard_Check scan probe g p =
     rbind (absoluteStore g) (\<lambda>store. rbind (scan store) (\<lambda>i. checkWithInventory probe g store i p))"

text \<open>\<open>OnceInventoryGuard\<close>: the first check scans, later ones reuse the inventory.\<close>

record once_guard =
  OnceGuard :: guard_config
  once_inventory :: inventory
  once_loaded :: bool

definition Once_Check :: "(string \<Rightarrow> budget_error + inventory) \<Rightarrow> (string \<Rightarrow> int64 option) \<Rightarrow> projection \<Rightarrow> once_guard \<Rightarrow>
    (budget_error + assessment) \<times> once_guard" where
  "Once_Check scan probe p g =
     (case absoluteStore (OnceGuard g) of
        Inl e \<Rightarrow> (Inl e, g)
      | Inr store \<Rightarrow>
          if \<not> once_loaded g then
            (case scan store of
               Inl e \<Rightarrow> (Inl e, g)
             | Inr i \<Rightarrow>
                 let g = g\<lparr>once_inventory := i, once_loaded := True\<rparr>
                 in (checkWithInventory probe (OnceGuard g) store (once_inventory g) p, g))
          else (checkWithInventory probe (OnceGuard g) store (once_inventory g) p, g))"

text \<open>\<open>VolumeGuard.Check\<close>: no store, the free space of a volume only.\<close>

definition DefaultLimits :: limits where
  "DefaultLimits = \<lparr>MaxPhysicalBytes = 549755813888, MaxTemporaryBytes = 17179869184, FreeSpaceReserveBytes = 5368709120\<rparr>"

definition zero_limits :: limits where
  "zero_limits = \<lparr>MaxPhysicalBytes = 0, MaxTemporaryBytes = 0, FreeSpaceReserveBytes = 0\<rparr>"

definition Volume_Check :: "(string \<Rightarrow> int64 option) \<Rightarrow> string \<Rightarrow> limits \<Rightarrow> projection \<Rightarrow> budget_error + assessment" where
  "Volume_Check probe path lim p =
     (if path = '''' then Inl GuardStoreRequired
      else case probe (path_clean path) of
             None \<Rightarrow> Inl ProbeFailed
           | Some available \<Rightarrow>
               rbind (CheckBudget (request_of p 0 available) (if lim = zero_limits then DefaultLimits else lim)) (\<lambda>report.
                 Inr \<lparr>Inventory = zero_inventory, Budget = report\<rparr>))"

section \<open>The shared inventory\<close>

text \<open>
  \<open>inventoryCache\<close>: what one process shares between its foreground checks. \<open>flight\<close> tells whether a
  background scan is running. A check takes a step that either answers at once or waits for the
  flight; the end of a scan is a step of its own.
\<close>

record inventory_cache =
  cached_inv :: inventory
  loadedAt :: int
  loaded :: bool
  flight :: bool
  lastErr :: "budget_error option"

definition startRefreshLocked :: "inventory_cache \<Rightarrow> inventory_cache" where
  "startRefreshLocked c = c\<lparr>flight := True\<rparr>"

datatype get_outcome = Answer inventory | WaitForFlight

definition cache_get :: "int \<Rightarrow> int \<Rightarrow> inventory_cache \<Rightarrow> get_outcome \<times> inventory_cache" where
  "cache_get now maxAge c =
     (if loaded c then
        (Answer (cached_inv c), if \<not> flight c \<and> now - loadedAt c > maxAge then startRefreshLocked c else c)
      else (WaitForFlight, if \<not> flight c then startRefreshLocked c else c))"

definition finish_refresh :: "int \<Rightarrow> budget_error + inventory \<Rightarrow> inventory_cache \<Rightarrow> inventory_cache" where
  "finish_refresh now result c =
     (case result of
        Inr i \<Rightarrow> c\<lparr>cached_inv := i, loaded := True, loadedAt := now, lastErr := None, flight := False\<rparr>
      | Inl e \<Rightarrow> c\<lparr>lastErr := Some e, flight := False\<rparr>)"

text \<open>What a waiting check finds once the flight has ended.\<close>

definition get_after_wait :: "inventory_cache \<Rightarrow> budget_error option + inventory" where
  "get_after_wait c = (if loaded c then Inr (cached_inv c) else Inl (lastErr c))"

definition Prime :: "inventory_cache \<Rightarrow> inventory_cache" where
  "Prime c = (if \<not> loaded c \<and> \<not> flight c then startRefreshLocked c else c)"

section \<open>Policy\<close>

definition PolicyFilename :: string where "PolicyFilename = ''storage-policy.json''"

definition RetentionExactProof :: string where "RetentionExactProof = ''until-exact-recovery-proof''"
definition RetentionManual :: string where "RetentionManual = ''until-explicit-retirement''"

record policy_file =
  PolVersion :: int
  PolLimits :: limits
  NativeSnapshots :: string

definition limits_field :: "bytes \<Rightarrow> jval \<Rightarrow> limits \<Rightarrow> limits option" where
  "limits_field k v l =
     (if field_is k ''max_physical_bytes'' then map_option (\<lambda>x. l\<lparr>MaxPhysicalBytes := x\<rparr>) (dec_int v (MaxPhysicalBytes l))
      else if field_is k ''max_temporary_bytes'' then map_option (\<lambda>x. l\<lparr>MaxTemporaryBytes := x\<rparr>) (dec_int v (MaxTemporaryBytes l))
      else if field_is k ''free_space_reserve_bytes'' then map_option (\<lambda>x. l\<lparr>FreeSpaceReserveBytes := x\<rparr>) (dec_int v (FreeSpaceReserveBytes l))
      else None)"

definition retention_field :: "bytes \<Rightarrow> jval \<Rightarrow> string \<Rightarrow> string option" where
  "retention_field k v r = (if field_is k ''native_snapshots'' then dec_string v r else None)"

text \<open>Unknown members are errors here: the decoder disallows them.\<close>

definition policy_field :: "bytes \<Rightarrow> jval \<Rightarrow> policy_file \<Rightarrow> policy_file option" where
  "policy_field k v p =
     (if field_is k ''version'' then map_option (\<lambda>x. p\<lparr>PolVersion := x\<rparr>) (dec_int v (PolVersion p))
      else if field_is k ''limits'' then map_option (\<lambda>x. p\<lparr>PolLimits := x\<rparr>) (dec_struct limits_field v (PolLimits p))
      else if field_is k ''retention'' then map_option (\<lambda>x. p\<lparr>NativeSnapshots := x\<rparr>) (dec_struct retention_field v (NativeSnapshots p))
      else None)"

definition loadPolicy :: "fs \<Rightarrow> string \<Rightarrow> budget_error + policy_file" where
  "loadPolicy w storeDir =
     (if storeDir = '''' then Inl PolicyStoreRequired
      else case ReadFile w (path_join [path_clean storeDir, PolicyFilename]) of
             None \<Rightarrow> Inr \<lparr>PolVersion = 1, PolLimits = DefaultLimits, NativeSnapshots = RetentionExactProof\<rparr>
           | Some data \<Rightarrow>
               (case Option.bind (parse_json data) (\<lambda>v. dec_struct policy_field v \<lparr>PolVersion = 0, PolLimits = zero_limits, NativeSnapshots = ''''\<rparr>) of
                  None \<Rightarrow> Inl PolicyDecode
                | Some policy \<Rightarrow>
                    if PolVersion policy \<noteq> 1 then Inl (PolicyVersion (PolVersion policy))
                    else if MaxPhysicalBytes (PolLimits policy) \<le> 0 \<or> MaxTemporaryBytes (PolLimits policy) \<le> 0 \<or>
                            FreeSpaceReserveBytes (PolLimits policy) \<le> 0 then Inl PolicyLimits
                    else let policy = (if NativeSnapshots policy = '''' then policy\<lparr>NativeSnapshots := RetentionExactProof\<rparr> else policy)
                    in if NativeSnapshots policy \<noteq> RetentionExactProof \<and> NativeSnapshots policy \<noteq> RetentionManual
                       then Inl (PolicyRetention (NativeSnapshots policy))
                       else Inr policy))"

definition LoadLimits :: "fs \<Rightarrow> string \<Rightarrow> budget_error + limits" where
  "LoadLimits w storeDir = rbind (loadPolicy w storeDir) (\<lambda>p. Inr (PolLimits p))"

definition LoadRetentionPolicy :: "fs \<Rightarrow> string \<Rightarrow> budget_error + string" where
  "LoadRetentionPolicy w storeDir = rbind (loadPolicy w storeDir) (\<lambda>p. Inr (NativeSnapshots p))"

definition DefaultGuard :: "fs \<Rightarrow> string \<Rightarrow> budget_error + guard_config" where
  "DefaultGuard w storeDir =
     rbind (LoadLimits w storeDir) (\<lambda>lim. Inr \<lparr>GuardStoreDir = path_clean storeDir, Limits = lim\<rparr>)"

section \<open>Accounting\<close>

record mutation_accounting =
  Before :: inventory
  AccBudget :: budget_report
  After :: inventory
  AccReclaimableBytes :: int64
  ActualReclaimedBytes :: int64
  AfterInventoryError :: bool

definition CompleteAccounting :: "(string \<Rightarrow> budget_error + inventory) \<Rightarrow> assessment \<Rightarrow> string \<Rightarrow> mutation_accounting" where
  "CompleteAccounting scan a storeDir =
     (let acc = \<lparr>Before = Inventory a, AccBudget = Budget a, After = zero_inventory,
            AccReclaimableBytes = ProjectedReclaimableBytes (Budget a), ActualReclaimedBytes = 0, AfterInventoryError = False\<rparr>
      in if storeDir = '''' then acc
         else case scan storeDir of
                Inl _ \<Rightarrow> acc\<lparr>AfterInventoryError := True\<rparr>
              | Inr after \<Rightarrow>
                  let acc = acc\<lparr>After := after\<rparr>
                  in if StoreDir (Inventory a) \<noteq> '''' \<and> TotalPhysicalBytes (Inventory a) > TotalPhysicalBytes after
                     then acc\<lparr>ActualReclaimedBytes := wrap64 (TotalPhysicalBytes (Inventory a) - TotalPhysicalBytes after)\<rparr>
                     else acc)"

section \<open>The path to probe\<close>

text \<open>\<open>existingSpaceProbePath\<close> on an absolute path: the nearest ancestor that exists, by its components.\<close>

function probe_up :: "(string \<Rightarrow> bool) \<Rightarrow> string list \<Rightarrow> string option" where
  "probe_up exists cs =
     (if exists (render True cs) then Some (render True cs)
      else if cs = [] then None
      else probe_up exists (butlast cs))"
  by pat_completeness auto
termination
  by (relation "measure (\<lambda>(_, cs). length cs)") (auto simp: length_greater_0_conv)

declare probe_up.simps [simp del]

definition existingSpaceProbePath :: "(string \<Rightarrow> bool) \<Rightarrow> string \<Rightarrow> string option" where
  "existingSpaceProbePath exists path = probe_up exists (path_comps path)"

section \<open>Exactness of the pricing\<close>

definition request_ok :: "budget_request \<Rightarrow> bool" where
  "request_ok r \<longleftrightarrow> in_int64 (CurrentPhysicalBytes r) \<and> in_int64 (ReqPersistentBytes r) \<and> in_int64 (ReqTemporaryBytes r) \<and>
     in_int64 (ReqOverlapBytes r) \<and> in_int64 (ReqReclaimableBytes r) \<and> in_int64 (AvailableBytes r)"

lemma addBudgetBytes_exact:
  "in_int64 a \<Longrightarrow> in_int64 b \<Longrightarrow> 0 \<le> a \<Longrightarrow> 0 \<le> b \<Longrightarrow>
   addBudgetBytes a b = (if a + b \<le> maxInt64 then (a + b, False) else (0, True))"
  by (auto simp: addBudgetBytes_def in_int64_def maxInt64_def)

text \<open>What a request adds at its peak.\<close>

definition peak_addition :: "budget_request \<Rightarrow> int" where
  "peak_addition r = ReqPersistentBytes r + ReqTemporaryBytes r - ReqOverlapBytes r"

lemma CheckBudget_Inr:
  assumes "request_ok r" and "CheckBudget r lim = Inr rep"
  shows "ProjectedPeakBytes rep = CurrentPhysicalBytes r + peak_addition r"
    and "ProjectedFinalBytes rep = max 0 (CurrentPhysicalBytes r + ReqPersistentBytes r - ReqReclaimableBytes r)"
    and "FreeSpaceAfterPeak rep = AvailableBytes r - peak_addition r"
    and "Allowed rep" and "Rejections rep = []"
    and "0 \<le> peak_addition r" and "ProjectedPeakBytes rep \<le> maxInt64"
    and "0 < MaxPhysicalBytes lim \<Longrightarrow> ProjectedPeakBytes rep \<le> MaxPhysicalBytes lim"
    and "0 < MaxTemporaryBytes lim \<Longrightarrow> ReqTemporaryBytes r \<le> MaxTemporaryBytes lim"
    and "FreeSpaceReserveBytes lim \<le> FreeSpaceAfterPeak rep" and "0 \<le> FreeSpaceReserveBytes lim"
    and "0 \<le> ReqPersistentBytes r" and "0 \<le> ReqTemporaryBytes r"
proof -
  have nn: "0 \<le> CurrentPhysicalBytes r" "0 \<le> ReqPersistentBytes r" "0 \<le> ReqTemporaryBytes r" "0 \<le> ReqOverlapBytes r"
      "0 \<le> ReqReclaimableBytes r" "0 \<le> AvailableBytes r" "ReqOverlapBytes r \<le> ReqTemporaryBytes r"
      "ReqOverlapBytes r \<le> ReqPersistentBytes r" "0 \<le> FreeSpaceReserveBytes lim"
    using assms(2) by (auto simp: CheckBudget_def Let_def split: if_splits prod.splits)
  note ok = assms(1) [unfolded request_ok_def]
  define p where "p = peak_addition r"
  have sum1: "ReqPersistentBytes r + ReqTemporaryBytes r \<le> maxInt64"
    using assms(2) nn ok by (auto simp: CheckBudget_def addBudgetBytes_exact split: if_splits)
  have p: "wrap64 (ReqPersistentBytes r + ReqTemporaryBytes r - ReqOverlapBytes r) = p" "0 \<le> p" "in_int64 p"
    using nn sum1 by (auto simp: p_def peak_addition_def in_int64_def maxInt64_def)
  have free: "wrap64 (AvailableBytes r - p) = AvailableBytes r - p"
    using nn p(2,3) ok by (intro wrap64_id) (auto simp: in_int64_def maxInt64_def)
  have fin: "wrap64 (b - min (ReqReclaimableBytes r) b) = max 0 (b - ReqReclaimableBytes r)" if "0 \<le> b" "b \<le> maxInt64" for b
    using nn that by (subst wrap64_id) (auto simp: in_int64_def maxInt64_def)
  note eval = assms(2) [unfolded CheckBudget_def addBudgetBytes_exact [OF conjunct1 [OF conjunct2 [OF ok]]
        conjunct1 [OF conjunct2 [OF conjunct2 [OF ok]]] nn(2,3)]]
  show "ProjectedPeakBytes rep = CurrentPhysicalBytes r + peak_addition r"
    and "ProjectedFinalBytes rep = max 0 (CurrentPhysicalBytes r + ReqPersistentBytes r - ReqReclaimableBytes r)"
    and "FreeSpaceAfterPeak rep = AvailableBytes r - peak_addition r"
    and "Allowed rep" and "Rejections rep = []"
    and "0 \<le> peak_addition r" and "ProjectedPeakBytes rep \<le> maxInt64"
    and "0 < MaxPhysicalBytes lim \<Longrightarrow> ProjectedPeakBytes rep \<le> MaxPhysicalBytes lim"
    and "0 < MaxTemporaryBytes lim \<Longrightarrow> ReqTemporaryBytes r \<le> MaxTemporaryBytes lim"
    and "FreeSpaceReserveBytes lim \<le> FreeSpaceAfterPeak rep" and "0 \<le> FreeSpaceReserveBytes lim"
    and "0 \<le> ReqPersistentBytes r" and "0 \<le> ReqTemporaryBytes r"
    using eval nn ok sum1 p free
    by (auto simp: Let_def addBudgetBytes_exact fin reject_if_def p_def [symmetric] split: if_splits)
qed


text \<open>The request is well-formed, none of its sums overflows, and its exact sums respect every limit.\<close>

definition fits :: "budget_request \<Rightarrow> limits \<Rightarrow> bool" where
  "fits r lim \<longleftrightarrow>
     ReqOperation r \<noteq> '''' \<and>
     0 \<le> CurrentPhysicalBytes r \<and> 0 \<le> ReqPersistentBytes r \<and> 0 \<le> ReqTemporaryBytes r \<and> 0 \<le> ReqOverlapBytes r \<and>
     0 \<le> ReqReclaimableBytes r \<and> 0 \<le> AvailableBytes r \<and>
     ReqOverlapBytes r \<le> ReqTemporaryBytes r \<and> ReqOverlapBytes r \<le> ReqPersistentBytes r \<and>
     0 \<le> MaxPhysicalBytes lim \<and> 0 \<le> MaxTemporaryBytes lim \<and> 0 \<le> FreeSpaceReserveBytes lim \<and>
     ReqPersistentBytes r + ReqTemporaryBytes r \<le> maxInt64 \<and>
     CurrentPhysicalBytes r + peak_addition r \<le> maxInt64 \<and>
     (0 < MaxPhysicalBytes lim \<longrightarrow> CurrentPhysicalBytes r + peak_addition r \<le> MaxPhysicalBytes lim) \<and>
     (0 < MaxTemporaryBytes lim \<longrightarrow> ReqTemporaryBytes r \<le> MaxTemporaryBytes lim) \<and>
     FreeSpaceReserveBytes lim \<le> AvailableBytes r - peak_addition r"

lemma fits_allows:
  assumes "request_ok r" and f: "fits r lim"
  shows "\<exists>rep. CheckBudget r lim = Inr rep"
proof -
  note ok = assms(1) [unfolded request_ok_def]
  have p: "wrap64 (ReqPersistentBytes r + ReqTemporaryBytes r - ReqOverlapBytes r) = peak_addition r" "0 \<le> peak_addition r" "in_int64 (peak_addition r)"
    using f by (auto simp: fits_def peak_addition_def in_int64_def maxInt64_def)
  have free: "wrap64 (AvailableBytes r - peak_addition r) = AvailableBytes r - peak_addition r"
    using f p(2,3) ok by (intro wrap64_id) (auto simp: fits_def in_int64_def maxInt64_def)
  have "CurrentPhysicalBytes r + ReqPersistentBytes r \<le> maxInt64"
    using f by (auto simp: fits_def peak_addition_def)
  then show ?thesis
    using f ok p free by (auto simp: fits_def CheckBudget_def Let_def addBudgetBytes_exact reject_if_def)
qed

text \<open>C20: The budget check allows a request exactly when the request fits: its arithmetic on 64-bit integers, with
  its overflow guards, decides the inequalities over the true sums.\<close>

theorem CheckBudget_iff_fits:
  assumes "request_ok r"
  shows "(\<exists>rep. CheckBudget r lim = Inr rep) \<longleftrightarrow> fits r lim"
proof
  assume "\<exists>rep. CheckBudget r lim = Inr rep"
  then obtain rep where rep: "CheckBudget r lim = Inr rep"
    by blast
  have "ReqPersistentBytes r + ReqTemporaryBytes r \<le> maxInt64"
    using rep assms unfolding request_ok_def
    by (auto simp: CheckBudget_def addBudgetBytes_exact split: if_splits)
  moreover have "ReqOperation r \<noteq> ''''" "0 \<le> CurrentPhysicalBytes r" "0 \<le> ReqOverlapBytes r"
      "0 \<le> ReqReclaimableBytes r" "0 \<le> AvailableBytes r" "ReqOverlapBytes r \<le> ReqTemporaryBytes r"
      "ReqOverlapBytes r \<le> ReqPersistentBytes r" "0 \<le> MaxPhysicalBytes lim" "0 \<le> MaxTemporaryBytes lim"
    using rep by (auto simp: CheckBudget_def Let_def split: if_splits prod.splits)
  ultimately show "fits r lim"
    using CheckBudget_Inr [OF assms rep] by (auto simp: fits_def)
next
  assume "fits r lim"
  with assms show "\<exists>rep. CheckBudget r lim = Inr rep"
    by (rule fits_allows)
qed

definition example_request :: budget_request where
  "example_request = \<lparr>ReqOperation = ''fold'', CurrentPhysicalBytes = 10, ReqPersistentBytes = 5, ReqTemporaryBytes = 4,
     ReqOverlapBytes = 3, ReqReclaimableBytes = 2, AvailableBytes = 100\<rparr>"

theorem CheckBudget_iff_fits_witness:
  "(\<exists>rep. CheckBudget example_request \<lparr>MaxPhysicalBytes = 16, MaxTemporaryBytes = 4, FreeSpaceReserveBytes = 94\<rparr> = Inr rep) \<and>
   \<not> (\<exists>rep. CheckBudget example_request \<lparr>MaxPhysicalBytes = 15, MaxTemporaryBytes = 4, FreeSpaceReserveBytes = 94\<rparr> = Inr rep)"
proof -
  have "request_ok example_request"
    by (simp add: request_ok_def example_request_def in_int64_def maxInt64_def)
  from CheckBudget_iff_fits [OF this] show ?thesis
    by (simp add: fits_def peak_addition_def example_request_def maxInt64_def)
qed



section \<open>The checker interface\<close>

text \<open>
  \<open>storage.Checker\<close>: what the operations that write to a store may rely on when their projection has
  been admitted. Both kinds of guard provide it.
\<close>

definition admits :: "limits \<Rightarrow> projection \<Rightarrow> assessment \<Rightarrow> bool" where
  "admits lim p a \<longleftrightarrow>
     Allowed (Budget a) \<and> FreeSpaceReserveBytes lim \<le> FreeSpaceAfterPeak (Budget a) \<and>
     (0 < MaxTemporaryBytes lim \<longrightarrow> TemporaryBytes p \<le> MaxTemporaryBytes lim) \<and>
     0 \<le> AdditionalPersistentBytes p \<and> 0 \<le> TemporaryBytes p"

locale storage_checker =
  fixes check :: "projection \<Rightarrow> budget_error + assessment"
    and lim :: limits
  assumes check_admits: "check p = Inr a \<Longrightarrow> admits lim p a"
begin

text \<open>An admitted projection never asks for more temporary space than the policy grants.\<close>

lemma check_temporary: "check p = Inr a \<Longrightarrow> 0 < MaxTemporaryBytes lim \<Longrightarrow> TemporaryBytes p \<le> MaxTemporaryBytes lim"
  using check_admits [of p a] by (simp add: admits_def)

end

lemma CheckBudget_admits:
  assumes "CheckBudget (request_of p c v) lim = Inr rep"
  shows "Allowed rep \<and> FreeSpaceReserveBytes lim \<le> FreeSpaceAfterPeak rep \<and>
    (0 < MaxTemporaryBytes lim \<longrightarrow> TemporaryBytes p \<le> MaxTemporaryBytes lim) \<and>
    0 \<le> AdditionalPersistentBytes p \<and> 0 \<le> TemporaryBytes p"
  using assms
  by (auto simp: CheckBudget_def request_of_def Let_def reject_if_def split: if_splits prod.splits)

interpretation guard: storage_checker "Guard_Check scan probe g" "Limits g" for scan probe g
  by unfold_locales
    (auto simp: Guard_Check_def checkWithInventory_def admits_def result_simps dest: CheckBudget_admits
      split: if_splits option.splits)

interpretation volume: storage_checker "Volume_Check probe path lim" "if lim = zero_limits then DefaultLimits else lim"
  for probe path lim
  by unfold_locales
    (auto simp: Volume_Check_def admits_def result_simps dest: CheckBudget_admits split: if_splits option.splits)


section \<open>The shared inventory as a state machine\<close>

inductive cache_step :: "inventory_cache \<Rightarrow> inventory_cache \<Rightarrow> bool" where
  get: "cache_get now maxAge c = (r, c') \<Longrightarrow> cache_step c c'"
| prime: "cache_step c (Prime c)"
| finish: "flight c \<Longrightarrow> cache_step c (finish_refresh now result c)"

inductive_cases cache_stepE: "cache_step c c'"

definition new_cache :: inventory_cache where
  "new_cache = \<lparr>cached_inv = zero_inventory, loadedAt = 0, loaded = False, flight = False, lastErr = None\<rparr>"

text \<open>Once a scan has ended there is an answer: an inventory or an error.\<close>

definition answered :: "inventory_cache \<Rightarrow> bool" where
  "answered c \<longleftrightarrow> loaded c \<or> lastErr c \<noteq> None"

lemma answered_step: "cache_step c c' \<Longrightarrow> answered c \<Longrightarrow> answered c'"
  by (erule cache_stepE)
    (auto simp: answered_def cache_get_def Prime_def startRefreshLocked_def finish_refresh_def split: if_splits sum.splits)

lemma answered_finish: "answered (finish_refresh now result c)"
  by (simp add: answered_def finish_refresh_def split: sum.splits)

lemma loaded_step: "cache_step c c' \<Longrightarrow> loaded c \<Longrightarrow> loaded c'"
  by (erule cache_stepE)
    (auto simp: cache_get_def Prime_def startRefreshLocked_def finish_refresh_def split: if_splits sum.splits)



text \<open>A guard that takes one inventory keeps it: after a check that got past its scan, the outcome of every later
  check is that of the fresh guard on that inventory, whatever a new scan would have found.\<close>

theorem Once_Check_keeps:
  assumes "Once_Check scan probe p g = (r, g')" and "once_loaded g'"
  shows "fst (Once_Check scan2 probe2 p2 g') =
    rbind (absoluteStore (OnceGuard g)) (\<lambda>store. checkWithInventory probe2 (OnceGuard g) store (once_inventory g') p2)"
  using assms
  by (auto simp: Once_Check_def Let_def split: sum.splits if_splits)

theorem Once_Check_keeps_witness:
  "let g = \<lparr>OnceGuard = \<lparr>GuardStoreDir = ''/s'', Limits = DefaultLimits\<rparr>, once_inventory = zero_inventory, once_loaded = True\<rparr>
   in fst (Once_Check (\<lambda>_. Inl ProbeFailed) (\<lambda>_. Some 0) \<lparr>Operation = ''x'', AdditionalPersistentBytes = 0, TemporaryBytes = 0,
        TemporaryPersistentOverlapBytes = 0, ReclaimableBytes = 0\<rparr> g) = Inl InventoryMismatch"
proof -
  define g where "g = \<lparr>OnceGuard = \<lparr>GuardStoreDir = ''/s'', Limits = DefaultLimits\<rparr>, once_inventory = zero_inventory, once_loaded = True\<rparr>"
  define p where "p = \<lparr>Operation = ''x'', AdditionalPersistentBytes = 0, TemporaryBytes = 0,
    TemporaryPersistentOverlapBytes = 0, ReclaimableBytes = 0\<rparr>"
  have neq: "path_clean ''/s'' \<noteq> path_clean ''''"
    by code_simp
  have "\<exists>r. Once_Check (\<lambda>_. Inl ProbeFailed) (\<lambda>_. Some 0) p g = (r, g)"
    by (simp add: Once_Check_def absoluteStore_def g_def)
  then obtain r where "Once_Check (\<lambda>_. Inl ProbeFailed) (\<lambda>_. Some 0) p g = (r, g)"
    by blast
  from Once_Check_keeps [OF this, of "\<lambda>_. Inl ProbeFailed" "\<lambda>_. Some 0" p] show ?thesis
    using neq by (simp add: absoluteStore_def checkWithInventory_def zero_inventory_def flip: g_def p_def) (simp add: g_def zero_inventory_def)
qed



section \<open>The probe path\<close>

lemma probe_up_Some:
  "probe_up exists cs = Some p \<Longrightarrow>
   \<exists>k\<le>length cs. p = render True (take k cs) \<and> exists p \<and> (\<forall>j. k < j \<and> j \<le> length cs \<longrightarrow> \<not> exists (render True (take j cs)))"
proof (induction "length cs" arbitrary: cs)
  case 0
  then show ?case
    by (auto simp: probe_up.simps [of _ "[]"] split: if_splits)
next
  case (Suc n)
  show ?case
  proof (cases "exists (render True cs)")
    case True
    then show ?thesis
      using Suc.prems by (intro exI [of _ "length cs"]) (simp add: probe_up.simps [of _ cs])
  next
    case False
    have "probe_up exists (butlast cs) = Some p"
      using Suc.prems Suc.hyps(2) False by (subst (asm) probe_up.simps) (auto split: if_splits)
    moreover have "n = length (butlast cs)"
      using Suc.hyps(2) by simp
    ultimately obtain k where k: "k \<le> n" "p = render True (take k (butlast cs))" "exists p"
      and no: "\<forall>j. k < j \<and> j \<le> n \<longrightarrow> \<not> exists (render True (take j (butlast cs)))"
      using Suc.hyps(1) by blast
    have take_eq: "take j (butlast cs) = take j cs" if "j \<le> n" for j
      using that Suc.hyps(2) by (simp add: take_butlast)
    have "\<not> exists (render True (take j cs))" if "k < j" "j \<le> length cs" for j
    proof (cases "j \<le> n")
      case True
      then show ?thesis using no that take_eq by auto
    next
      case j: False
      then have "take j cs = cs"
        using that Suc.hyps(2) by simp
      then show ?thesis using False by simp
    qed
    then show ?thesis
      using k take_eq [of k] Suc.hyps(2) by (intro exI [of _ k]) auto
  qed
qed


end
