(* ===== verification/Unfold.thy ===== *)
theory Unfold
  imports Object_Store Budget
begin

text \<open>
  Reconstructing a session from its manifest: the verification in \<open>src/internal/fold/fold.go\<close>
  (\<open>verifyStoredManifest\<close> and its callers), loading and writing manifests (\<open>manifest.go\<close>), and the
  restore in \<open>src/internal/fold/unfold.go\<close>. The interface \<open>object_source\<close> is what a reader owes its
  clients; the loose store and the fallback of two readers provide it.
\<close>

section \<open>Sources of objects\<close>

locale object_source =
  fixes fetch :: "object_ref \<Rightarrow> object_error + bytes"
  assumes fetch_verified: "fetch ref = Inr x \<Longrightarrow> int (length x) = RawBytes ref \<and> sha256_hex x = SHA256 ref"

lemma fetch_object_verified:
  "fetch_object z w s ref = Inr x \<Longrightarrow> int (length x) = RawBytes ref \<and> sha256_hex x = SHA256 ref"
  by (auto simp: fetch_is_Read Read_Inr dest: Read_Inr)

interpretation loose: object_source "fetch_object z w s" for z w s
  by unfold_locales (rule fetch_object_verified)

text \<open>Two sources make a source: the fallback reads from one of them.\<close>

locale two_sources = primary: object_source "reader_fetch p" + fallback: object_source "reader_fetch q"
  for p q :: object_reader

sublocale two_sources \<subseteq> both: object_source "reader_fetch (fallbackObjectReader p q)"
  by unfold_locales
    (auto simp: fallbackObjectReader_def split: if_splits dest: primary.fetch_verified fallback.fetch_verified)

interpretation loose_fallback: two_sources "store_reader z w s" "store_reader z2 w2 s2" for z w s z2 w2 s2
  by unfold_locales (auto simp: store_reader_def dest: fetch_object_verified)

section \<open>Verification\<close>

datatype verify_error =
    VerifyObject object_error
  | ReconstructedBytes int64 int64
  | ReconstructedDigest string string
  | ReaderRequired
  | VerifyManifestError manifest_error

text \<open>The loop over the parts: the bytes that reach the hasher and the target.\<close>

primrec reconstruct :: "(object_ref \<Rightarrow> object_error + bytes) \<Rightarrow> part list \<Rightarrow> object_error + bytes" where
  "reconstruct fetch [] = Inr []"
| "reconstruct fetch (p # ps) =
     rbind (fetch (Object p)) (\<lambda>data. rbind (reconstruct fetch ps) (\<lambda>more. Inr (data @ more)))"

definition verifySourceDigest :: "bytes \<Rightarrow> manifest_source \<Rightarrow> verify_error + unit" where
  "verifySourceDigest written source =
     (if int (length written) \<noteq> Bytes source then Inl (ReconstructedBytes (int (length written)) (Bytes source))
      else if sha256_hex written \<noteq> SourceSHA256 source then Inl (ReconstructedDigest (sha256_hex written) (SourceSHA256 source))
      else Inr ())"

definition verifyStoredManifest :: "(object_ref \<Rightarrow> object_error + bytes) \<Rightarrow> manifest \<Rightarrow> verify_error + unit" where
  "verifyStoredManifest fetch m =
     (case reconstruct fetch (Parts m) of
        Inl e \<Rightarrow> Inl (VerifyObject e)
      | Inr written \<Rightarrow> verifySourceDigest written (Source m))"

definition VerifyManifest :: "object_reader option \<Rightarrow> manifest \<Rightarrow> verify_error + unit" where
  "VerifyManifest reader m =
     (case reader of
        None \<Rightarrow> Inl ReaderRequired
      | Some r \<Rightarrow>
          (case validateManifest m of
             Inl e \<Rightarrow> Inl (VerifyManifestError e)
           | Inr _ \<Rightarrow> verifyStoredManifest (reader_fetch r) m))"

definition LoadManifestPath :: "fs \<Rightarrow> string \<Rightarrow> manifest_error + manifest" where
  "LoadManifestPath w path =
     (case ReadFile w path of None \<Rightarrow> Inl (ManifestNotFound path) | Some data \<Rightarrow> DecodeManifest data)"

definition LoadManifest :: "fs \<Rightarrow> string \<Rightarrow> string \<Rightarrow> manifest_error + manifest" where
  "LoadManifest w storeDir sessionID =
     rbind (validateSessionID sessionID) (\<lambda>_. LoadManifestPath w (ManifestPath storeDir sessionID))"

definition writeManifestPath :: "string \<Rightarrow> manifest \<Rightarrow> bool \<Rightarrow> fs \<Rightarrow> manifest_error + fs" where
  "writeManifestPath path m overwrite w =
     rbind (validateManifest m) (\<lambda>_.
       if \<not> overwrite \<and> Stat w path \<noteq> None then Inl (ManifestExists path)
       else Inr (install_file path (encodeManifest m) w))"

definition writeManifest :: "string \<Rightarrow> manifest \<Rightarrow> bool \<Rightarrow> fs \<Rightarrow> manifest_error + fs" where
  "writeManifest storeDir m overwrite w =
     rbind (validateSessionID (ID (Session m))) (\<lambda>_.
       writeManifestPath (ManifestPath storeDir (ID (Session m))) m overwrite w)"

definition VerifySession :: "zstd \<Rightarrow> fs \<Rightarrow> string \<Rightarrow> string \<Rightarrow> verify_error + manifest" where
  "VerifySession z w storeDir sessionID =
     (case LoadManifest w storeDir sessionID of
        Inl e \<Rightarrow> Inl (VerifyManifestError e)
      | Inr m \<Rightarrow> rbind (verifyStoredManifest (fetch_object z w (NewObjectStore storeDir)) m) (\<lambda>_. Inr m))"

section \<open>Restoring\<close>

record unfold_options =
  TargetPath :: string
  Overwrite :: bool
  Reader :: "object_reader option"

record unfold_result =
  UnfSessionID :: string
  UnfManifestPath :: string
  UnfTargetPath :: string
  UnfBytes :: int64
  UnfSHA256 :: string
  Verified :: bool

datatype unfold_error =
    UnfoldManifest manifest_error
  | TargetExists string
  | UnfoldBudget budget_error
  | UnfoldObject object_error
  | UnfoldVerify verify_error

definition unfold_projection :: "int64 \<Rightarrow> int64 \<Rightarrow> projection" where
  "unfold_projection source reclaimable =
     \<lparr>Operation = ''unfold'', AdditionalPersistentBytes = source, TemporaryBytes = source,
      TemporaryPersistentOverlapBytes = source, ReclaimableBytes = reclaimable\<rparr>"

definition UnfoldWithOptions ::
    "zstd \<Rightarrow> (projection \<Rightarrow> budget_error + assessment) \<Rightarrow> string \<Rightarrow> string \<Rightarrow> unfold_options \<Rightarrow> fs \<Rightarrow>
     unfold_error + (unfold_result \<times> fs)" where
  "UnfoldWithOptions z check storeDir sessionID opts w =
     (case LoadManifest w storeDir sessionID of
        Inl e \<Rightarrow> Inl (UnfoldManifest e)
      | Inr m \<Rightarrow>
          let targetPath = (if TargetPath opts = '''' then RolloutPath (Session m) else TargetPath opts);
              info = Stat w targetPath
          in if info \<noteq> None \<and> \<not> Overwrite opts then Inl (TargetExists targetPath)
             else let reclaimable = (case info of Some i \<Rightarrow> Size i | None \<Rightarrow> 0)
             in case check (unfold_projection (Bytes (Source m)) reclaimable) of
                  Inl e \<Rightarrow> Inl (UnfoldBudget e)
                | Inr _ \<Rightarrow>
                    (case reconstruct (reader_fetch (openObjectReader z w storeDir (Reader opts))) (Parts m) of
                       Inl e \<Rightarrow> Inl (UnfoldObject e)
                     | Inr written \<Rightarrow>
                         (case verifySourceDigest written (Source m) of
                            Inl e \<Rightarrow> Inl (UnfoldVerify e)
                          | Inr _ \<Rightarrow>
                              Inr (\<lparr>UnfSessionID = sessionID, UnfManifestPath = ManifestPath storeDir sessionID,
                                    UnfTargetPath = targetPath, UnfBytes = int (length written),
                                    UnfSHA256 = SourceSHA256 (Source m), Verified = True\<rparr>,
                                   install_file targetPath written w))))"

section \<open>Lemmas\<close>

lemma verifySourceDigest_Inr [result_simps]:
  "verifySourceDigest d s = Inr u \<longleftrightarrow> int (length d) = Bytes s \<and> sha256_hex d = SourceSHA256 s"
  by (auto simp: verifySourceDigest_def)

lemma reconstruct_append:
  "reconstruct f (ps @ qs) = rbind (reconstruct f ps) (\<lambda>a. rbind (reconstruct f qs) (\<lambda>b. Inr (a @ b)))"
  by (induction ps) (auto simp: rbind_assoc rbind_Inr)

lemma reconstruct_Inr:
  "reconstruct f ps = Inr d \<longleftrightarrow> (\<exists>ds. list_all2 (\<lambda>p x. f (Object p) = Inr x) ps ds \<and> d = concat ds)"
proof (induction ps arbitrary: d)
  case Nil
  show ?case by auto
next
  case (Cons p ps)
  have "reconstruct f (p # ps) = Inr d \<longleftrightarrow> (\<exists>x ds. f (Object p) = Inr x \<and> list_all2 (\<lambda>p x. f (Object p) = Inr x) ps ds \<and> d = x @ concat ds)"
    by (auto simp: result_simps Cons.IH)
  also have "\<dots> \<longleftrightarrow> (\<exists>ds. list_all2 (\<lambda>p x. f (Object p) = Inr x) (p # ps) ds \<and> d = concat ds)"
    by (auto simp: list_all2_Cons1) (metis concat.simps(2))
  finally show ?case .
qed

context object_source
begin

lemma reconstruct_verified:
  "reconstruct fetch ps = Inr d \<Longrightarrow>
   \<exists>ds. d = concat ds \<and> list_all2 (\<lambda>p x. int (length x) = RawBytes (Object p) \<and> sha256_hex x = SHA256 (Object p)) ps ds"
  unfolding reconstruct_Inr using fetch_verified by (metis (mono_tags, lifting) list_all2_mono)

end

text \<open>
  Two sources agree on every manifest both can reconstruct, as long as no two of the objects at hand
  collide.
\<close>

context two_sources
begin

lemma fetch_agree:
  assumes "reader_fetch p ref = Inr x" and "reader_fetch q ref = Inr y" and "no_collision {x, y}"
  shows "x = y"
proof -
  have "sha256_hex x = sha256_hex y"
    using primary.fetch_verified [OF assms(1)] fallback.fetch_verified [OF assms(2)] by metis
  then show ?thesis
    using no_collisionD [OF assms(3), of x y] by simp
qed

lemma reconstruct_agree:
  "reconstruct (reader_fetch p) ps = Inr d \<Longrightarrow> reconstruct (reader_fetch q) ps = Inr e \<Longrightarrow>
   (\<And>r x y. reader_fetch p r = Inr x \<Longrightarrow> reader_fetch q r = Inr y \<Longrightarrow> r \<in> Object ` set ps \<Longrightarrow> no_collision {x, y}) \<Longrightarrow> d = e"
proof (induction ps arbitrary: d e)
  case Nil
  then show ?case by simp
next
  case (Cons a ps)
  then obtain x d' y e' where *: "reader_fetch p (Object a) = Inr x" "reconstruct (reader_fetch p) ps = Inr d'" "d = x @ d'"
      "reader_fetch q (Object a) = Inr y" "reconstruct (reader_fetch q) ps = Inr e'" "e = y @ e'"
    by (auto simp: result_simps)
  have "x = y"
    using Cons.prems(3) [of "Object a" x y] * by (intro fetch_agree [of "Object a"]) simp_all
  moreover have "d' = e'"
    using *(2,5)
  proof (rule Cons.IH)
    fix r x y
    assume "reader_fetch p r = Inr x" "reader_fetch q r = Inr y" "r \<in> Object ` set ps"
    then show "no_collision {x, y}"
      by (intro Cons.prems(3) [of r x y]) simp_all
  qed
  ultimately show ?case
    using *(3,6) by simp
qed

end

section \<open>Properties\<close>

lemma verifyStoredManifest_Inr [result_simps]:
  "verifyStoredManifest fetch m = Inr u \<longleftrightarrow>
   (\<exists>d. reconstruct fetch (Parts m) = Inr d \<and> int (length d) = Bytes (Source m) \<and> sha256_hex d = SourceSHA256 (Source m))"
  by (auto simp: verifyStoredManifest_def result_simps split: sum.splits)

lemma unfold_writes:
  assumes "UnfoldWithOptions z check storeDir sessionID opts w = Inr (res, w')"
  shows "\<exists>m data. LoadManifest w storeDir sessionID = Inr m \<and> ReadFile w' (UnfTargetPath res) = Some data \<and>
    int (length data) = Bytes (Source m) \<and> sha256_hex data = SourceSHA256 (Source m) \<and>
    (\<forall>q. q \<noteq> UnfTargetPath res \<longrightarrow> ReadFile w' q = ReadFile w q) \<and>
    (ReadFile w (UnfTargetPath res) = None \<or> Overwrite opts)"
  using assms
  by (auto simp: UnfoldWithOptions_def Let_def result_simps Stat_None_iff split: sum.splits if_splits)


lemma unfold_verified:
  assumes "LoadManifest w storeDir sessionID = Inr m" and "TargetPath opts \<noteq> ''''"
    and "ReadFile w (TargetPath opts) = None \<or> Overwrite opts"
    and "\<And>p. \<exists>a. check p = Inr a"
    and "verifyStoredManifest (reader_fetch (openObjectReader z w storeDir (Reader opts))) m = Inr ()"
  shows "\<exists>res w'. UnfoldWithOptions z check storeDir sessionID opts w = Inr (res, w') \<and> UnfTargetPath res = TargetPath opts"
proof -
  obtain d where d: "reconstruct (reader_fetch (openObjectReader z w storeDir (Reader opts))) (Parts m) = Inr d"
      "verifySourceDigest d (Source m) = Inr ()"
    using assms(5) by (auto simp: result_simps)
  define p where "p = unfold_projection (Bytes (Source m)) (case Stat w (TargetPath opts) of Some i \<Rightarrow> Size i | None \<Rightarrow> 0)"
  obtain a where a: "check p = Inr a"
    using assms(4) by blast
  have "Stat w (TargetPath opts) = None \<or> Overwrite opts"
    using assms(3) by (simp add: Stat_None_iff)
  then show ?thesis
    using assms(1,2) d a [unfolded p_def] by (auto simp: UnfoldWithOptions_def Let_def)
qed


text \<open>Reconstruction does not depend on where the objects are read from: two loose stores that both reconstruct a
  list of parts produce the same bytes, unless two of the objects they read collide under SHA-256.\<close>

theorem reconstruct_source_independent:
  assumes "reconstruct (fetch_object z w s) ps = Inr d" and "reconstruct (fetch_object z2 w2 s2) ps = Inr e"
    and "\<And>r x y. fetch_object z w s r = Inr x \<Longrightarrow> fetch_object z2 w2 s2 r = Inr y \<Longrightarrow> r \<in> Object ` set ps \<Longrightarrow> no_collision {x, y}"
  shows "d = e"
  using loose_fallback.reconstruct_agree [of z w s ps d z2 w2 s2 e] assms by (simp add: store_reader_def)

text \<open>C25: A manifest that is written can be loaded: after a successful write the session's manifest is the one
  written, and a write that was not told to overwrite never replaces one.\<close>

theorem writeManifest_LoadManifest:
  assumes "writeManifest storeDir m overwrite w = Inr w'" and "manifest_ok m"
  shows "LoadManifest w' storeDir (ID (Session m)) = Inr m \<and>
    (\<not> overwrite \<longrightarrow> ReadFile w (ManifestPath storeDir (ID (Session m))) = None)"
proof -
  have v: "validateManifest m = Inr ()" and id: "validateSessionID (ID (Session m)) = Inr ()"
    and ow: "overwrite \<or> Stat w (ManifestPath storeDir (ID (Session m))) = None"
    and w': "w' = install_file (ManifestPath storeDir (ID (Session m))) (encodeManifest m) w"
    using assms(1) by (auto simp: writeManifest_def writeManifestPath_def result_simps split: if_splits)
  have "DecodeManifest (encodeManifest m) = Inr m"
    using v assms(2) by (rule decode_encode)
  then show ?thesis
    using id ow w' by (auto simp: LoadManifest_def LoadManifestPath_def Stat_None_iff)
qed


section \<open>Witnesses\<close>

text \<open>A compressor that does nothing, and a store with one session of no bytes.\<close>

definition plain_zstd :: zstd where
  "plain_zstd = \<lparr>Compress = (\<lambda>x. x), DecodeAll = Some\<rparr>"

definition example_fs :: fs where
  "example_fs = install_file (ManifestPath ''/s'' ''a'') (encodeManifest example_manifest) empty_fs"

lemma plain_zstd_ok: "zstd_ok plain_zstd"
  by (simp add: zstd_ok_def plain_zstd_def)

lemma load_example: "LoadManifest example_fs ''/s'' ''a'' = Inr example_manifest"
  using decode_encode [OF example_manifest_valid example_manifest_ok]
  by (simp add: LoadManifest_def LoadManifestPath_def example_fs_def validateSessionID_def contains_any_def)

lemma example_parts: "Parts example_manifest = []" "Source example_manifest = \<lparr>Bytes = 0, SourceSHA256 = sha256_hex []\<rparr>"
  by (simp_all add: example_manifest_def zero_manifest_def)

definition admit_all :: "projection \<Rightarrow> budget_error + assessment" where
  "admit_all p = Inr \<lparr>Inventory = zero_inventory, Budget = \<lparr>RepOperation = Operation p, Allowed = True, RepCurrentPhysicalBytes = 0,
     ProjectedPeakBytes = 0, ProjectedFinalBytes = 0, ProjectedReclaimableBytes = 0, RepAvailableBytes = 0,
     FreeSpaceAfterPeak = 0, Rejections = []\<rparr>\<rparr>"

definition example_options :: unfold_options where
  "example_options = \<lparr>TargetPath = ''/t'', Overwrite = True, Reader = None\<rparr>"

lemma verify_example: "VerifySession plain_zstd example_fs ''/s'' ''a'' = Inr example_manifest"
  by (simp add: VerifySession_def load_example verifyStoredManifest_def example_parts verifySourceDigest_def)


lemma unfold_example:
  "\<exists>res w'. UnfoldWithOptions plain_zstd admit_all ''/s'' ''a'' example_options example_fs = Inr (res, w') \<and>
     UnfTargetPath res = ''/t''"
  by (simp add: UnfoldWithOptions_def load_example Let_def example_options_def admit_all_def example_parts verifySourceDigest_def)


definition one_object_fs :: fs where
  "one_object_fs = install_file (ObjectPath (NewObjectStore ''/s'') (sha256_hex [7])) [7] empty_fs"

definition one_part :: part where
  "one_part = \<lparr>PartKind = PartResidual, JSONPath = '''', Object = \<lparr>SHA256 = sha256_hex [7], RawBytes = 1, StoredBytes = 1\<rparr>\<rparr>"

lemma fetch_one: "fetch_object plain_zstd one_object_fs (NewObjectStore ''/s'') (Object one_part) = Inr [7]"
  by (simp add: fetch_is_Read Read_def one_object_fs_def one_part_def plain_zstd_def verify_object_def)

theorem reconstruct_source_independent_witness:
  "reconstruct (fetch_object plain_zstd one_object_fs (NewObjectStore ''/s'')) [one_part] = Inr [7] \<and> [7 :: byte] = [7]"
proof -
  let ?f = "fetch_object plain_zstd one_object_fs (NewObjectStore ''/s'')"
  have r: "reconstruct ?f [one_part] = Inr [7]"
    by (simp add: fetch_one)
  have "no_collision {x, y}" if "?f r = Inr x" "?f r = Inr y" for r x y
    using that by simp
  then have "[7 :: byte] = [7]"
    by (intro reconstruct_source_independent [OF r r]) blast
  then show ?thesis
    using r by blast
qed

theorem writeManifest_LoadManifest_witness:
  "\<exists>w'. writeManifest ''/s'' example_manifest False empty_fs = Inr w' \<and> LoadManifest w' ''/s'' ''a'' = Inr example_manifest"
proof -
  have id: "ID (Session example_manifest) = ''a''"
    by (simp add: example_manifest_def)
  have "\<exists>w'. writeManifest ''/s'' example_manifest False empty_fs = Inr w'"
    using example_manifest_valid
    by (simp add: writeManifest_def writeManifestPath_def id validateSessionID_def contains_any_def Stat_def empty_fs_def)
  then show ?thesis
    using writeManifest_LoadManifest [OF _ example_manifest_ok] id by fastforce
qed


end
