(* ===== verification/Cdc.thy ===== *)
theory Cdc
  imports Sha256
begin

text \<open>
  Content-defined chunking, \<open>src/internal/cdc/chunker.go\<close>. A \<open>chunker\<close> collects bytes and hands a
  chunk to its callback whenever the collected bytes reach the maximum size, or have reached the
  minimum size and the gear hash has zeros under the mask. \<open>cut\<close> is the reference segmentation: the
  chunks a stream is cut into and the chunker left over, with no callback. The refinement
  \<open>Write_cut\<close> says that \<open>Write\<close> hands exactly those chunks to the callback, in order, and stops at
  the first error.
\<close>

section \<open>Data\<close>

record cdc_options =
  MinBytes :: int64
  AverageBytes :: int64
  MaxBytes :: int64

record chunk =
  Data :: bytes
  Digest :: bytes

record chunker =
  options :: cdc_options
  mask :: uint64
  gear :: uint64
  chunk_buf :: bytes

datatype cdc_error = InvalidBounds | AverageNotPowerOfTwo int64 | EmitRequired

section \<open>The gear table\<close>

fun gear_loop :: "nat \<Rightarrow> uint64 \<Rightarrow> uint64 list" where
  "gear_loop 0 state = []"
| "gear_loop (Suc n) state =
     (let state = state + 11400714819323198485;
          value = (state XOR drop_bit 30 state) * 13787848793156543929;
          value = (value XOR drop_bit 27 value) * 10723151780598845931
      in (value XOR drop_bit 31 value) # gear_loop n state)"

definition buildDedupGearTable :: "uint64 list" where
  "buildDedupGearTable = gear_loop 256 7640891576956012809"

definition dedupGear :: "byte \<Rightarrow> uint64" where
  "dedupGear value = buildDedupGearTable ! unat value"

section \<open>Operations\<close>

definition New :: "cdc_options \<Rightarrow> (chunk \<Rightarrow> 's \<Rightarrow> 'e + 's) option \<Rightarrow> cdc_error + chunker" where
  "New opts emit =
     (let opts = (if MinBytes opts \<le> 0 then opts\<lparr>MinBytes := 64 * 1024\<rparr> else opts);
          opts = (if AverageBytes opts \<le> 0 then opts\<lparr>AverageBytes := 256 * 1024\<rparr> else opts);
          opts = (if MaxBytes opts \<le> 0 then opts\<lparr>MaxBytes := 1024 * 1024\<rparr> else opts)
      in if MinBytes opts > AverageBytes opts \<or> AverageBytes opts > MaxBytes opts then Inl InvalidBounds
         else if AverageBytes opts AND (AverageBytes opts - 1) \<noteq> 0
           then Inl (AverageNotPowerOfTwo (AverageBytes opts))
         else if emit = None then Inl EmitRequired
         else Inr \<lparr>options = opts, mask = word_of_int (AverageBytes opts - 1), gear = 0, chunk_buf = []\<rparr>)"

definition emitChunk :: "(chunk \<Rightarrow> 's \<Rightarrow> 'e + 's) \<Rightarrow> chunker \<Rightarrow> 's \<Rightarrow> 'e + (chunker \<times> 's)" where
  "emitChunk emit c s =
     rbind (emit \<lparr>Data = chunk_buf c, Digest = sha256 (chunk_buf c)\<rparr> s) (\<lambda>s'.
       Inr (c\<lparr>chunk_buf := [], gear := 0\<rparr>, s'))"

definition push_byte :: "chunker \<Rightarrow> byte \<Rightarrow> chunker" where
  "push_byte c value =
     c\<lparr>chunk_buf := chunk_buf c @ [value], gear := push_bit 1 (gear c) + dedupGear value\<rparr>"

definition at_boundary :: "chunker \<Rightarrow> bool" where
  "at_boundary c =
     (let size = int (length (chunk_buf c))
      in size \<ge> MaxBytes (options c) \<or> (size \<ge> MinBytes (options c) \<and> gear c AND mask c = 0))"

fun Write :: "(chunk \<Rightarrow> 's \<Rightarrow> 'e + 's) \<Rightarrow> chunker \<Rightarrow> 's \<Rightarrow> bytes \<Rightarrow> 'e + (chunker \<times> 's)" where
  "Write emit c s [] = Inr (c, s)"
| "Write emit c s (value # data) =
     (let c = push_byte c value
      in if at_boundary c then rbind (emitChunk emit c s) (\<lambda>(c, s). Write emit c s data)
         else Write emit c s data)"

definition Finish :: "(chunk \<Rightarrow> 's \<Rightarrow> 'e + 's) \<Rightarrow> chunker \<Rightarrow> 's \<Rightarrow> 'e + (chunker \<times> 's)" where
  "Finish emit c s = (if chunk_buf c = [] then Inr (c, s) else emitChunk emit c s)"

section \<open>The reference segmentation\<close>

definition fresh :: "chunker \<Rightarrow> chunker" where
  "fresh c = c\<lparr>chunk_buf := [], gear := 0\<rparr>"

definition chunk_of :: "bytes \<Rightarrow> chunk" where
  "chunk_of bs = \<lparr>Data = bs, Digest = sha256 bs\<rparr>"

fun cut :: "chunker \<Rightarrow> bytes \<Rightarrow> chunk list \<times> chunker" where
  "cut c [] = ([], c)"
| "cut c (value # data) =
     (let c = push_byte c value
      in if at_boundary c then (case cut (fresh c) data of (cs, c') \<Rightarrow> (chunk_of (chunk_buf c) # cs, c'))
         else cut c data)"

fun emit_all :: "(chunk \<Rightarrow> 's \<Rightarrow> 'e + 's) \<Rightarrow> chunk list \<Rightarrow> 's \<Rightarrow> 'e + 's" where
  "emit_all emit [] s = Inr s"
| "emit_all emit (c # cs) s = rbind (emit c s) (emit_all emit cs)"

definition contents :: "chunk list \<Rightarrow> bytes" where
  "contents cs = concat (map Data cs)"

lemma contents_simps [simp]:
  "contents [] = []" "contents (c # cs) = Data c @ contents cs" "contents (cs @ ds) = contents cs @ contents ds"
  by (simp_all add: contents_def)

lemma chunk_of_Data [simp]: "Data (chunk_of bs) = bs"
  by (simp add: chunk_of_def)

lemma push_byte_simps [simp]:
  "chunk_buf (push_byte c v) = chunk_buf c @ [v]" "options (push_byte c v) = options c"
  "mask (push_byte c v) = mask c"
  by (simp_all add: push_byte_def)

lemma fresh_simps [simp]:
  "chunk_buf (fresh c) = []" "options (fresh c) = options c" "mask (fresh c) = mask c" "gear (fresh c) = 0"
  "fresh (fresh c) = fresh c" "fresh (push_byte c v) = fresh c"
  by (simp_all add: fresh_def push_byte_def)

lemma emitChunk_eq:
  "emitChunk emit c s = rbind (emit (chunk_of (chunk_buf c)) s) (\<lambda>s'. Inr (fresh c, s'))"
  by (simp add: emitChunk_def chunk_of_def fresh_def)

theorem Write_cut:
  "Write emit c s data = (case cut c data of (cs, c') \<Rightarrow> rbind (emit_all emit cs s) (\<lambda>s'. Inr (c', s')))"
proof (induction data arbitrary: c s)
  case Nil
  show ?case by simp
next
  case (Cons v data)
  show ?case
    by (auto simp: Let_def emitChunk_eq rbind_assoc Cons.IH split: prod.splits)
qed

lemma cut_append:
  "cut c (p @ q) =
     (case cut c p of (xs, c1) \<Rightarrow> case cut c1 q of (ys, c2) \<Rightarrow> (xs @ ys, c2))"
  by (induction p arbitrary: c) (auto simp: Let_def split: prod.splits)

lemma cut_contents: "cut c data = (cs, c') \<Longrightarrow> contents cs @ chunk_buf c' = chunk_buf c @ data"
  by (induction data arbitrary: c cs) (fastforce simp: Let_def split: if_splits prod.splits)+

lemma cut_options: "cut c data = (cs, c') \<Longrightarrow> options c' = options c \<and> mask c' = mask c"
  by (induction data arbitrary: c cs) (fastforce simp: Let_def split: if_splits prod.splits)+

section \<open>Sinks\<close>

text \<open>
  A callback whose state accounts for the bytes it has received. Both callbacks of \<open>fold.go\<close> are
  sinks; the lemmas below are what the fold engine needs of the chunker.
\<close>

locale chunk_sink =
  fixes emit :: "chunk \<Rightarrow> 's \<Rightarrow> 'e + 's"
    and written :: "'s \<Rightarrow> bytes"
  assumes emit_written: "emit (chunk_of bs) s = Inr s' \<Longrightarrow> written s' = written s @ bs"
begin

lemma Write_written:
  "Write emit c s data = Inr (c', s') \<Longrightarrow> written s' @ chunk_buf c' = written s @ chunk_buf c @ data"
proof (induction data arbitrary: c s)
  case Nil
  then show ?case by simp
next
  case (Cons v data)
  show ?case
  proof (cases "at_boundary (push_byte c v)")
    case True
    then obtain s1 where s1: "emit (chunk_of (chunk_buf c @ [v])) s = Inr s1"
      and rest: "Write emit (fresh c) s1 data = Inr (c', s')"
      using Cons.prems by (auto simp: Let_def emitChunk_eq result_simps)
    show ?thesis
      using Cons.IH [OF rest] emit_written [OF s1] by simp
  next
    case False
    then show ?thesis
      using Cons.IH [of "push_byte c v" s] Cons.prems by (simp add: Let_def)
  qed
qed

lemma Finish_written:
  "Finish emit c s = Inr (c', s') \<Longrightarrow> written s' = written s @ chunk_buf c \<and> chunk_buf c' = []"
  by (auto simp: Finish_def emitChunk_eq result_simps dest: emit_written split: if_splits)

end

section \<open>The hash window\<close>

definition gear_of :: "uint64 \<Rightarrow> bytes \<Rightarrow> uint64" where
  "gear_of g bs = foldl (\<lambda>g b. push_bit 1 g + dedupGear b) g bs"

lemma gear_of_Nil [simp]: "gear_of g [] = g"
  by (simp add: gear_of_def)

lemma gear_of_snoc: "gear_of g (bs @ [b]) = push_bit 1 (gear_of g bs) + dedupGear b"
  by (simp add: gear_of_def)

lemma gear_of_shift: "gear_of g bs = push_bit (length bs) g + gear_of 0 bs"
proof (induction bs rule: rev_induct)
  case Nil
  show ?case by (simp add: gear_of_def)
next
  case (snoc b bs)
  then show ?case
    by (simp add: gear_of_snoc push_bit_eq_mult algebra_simps)
qed

lemma take_bit_add_word: "take_bit k (a + b) = take_bit k (take_bit k a + take_bit k b)"
  for a b :: "'a::len word"
proof transfer
  fix k and a b :: int
  let ?n = "LENGTH('a)"
  have "take_bit (min ?n k) (take_bit k a + take_bit k b) =
        take_bit (min ?n k) (take_bit (min ?n k) (take_bit k a) + take_bit (min ?n k) (take_bit k b))"
    by (simp only: take_bit_add)
  also have "\<dots> = take_bit (min ?n k) (take_bit (min ?n k) a + take_bit (min ?n k) b)"
    by (simp add: min.assoc)
  also have "\<dots> = take_bit (min ?n k) (a + b)"
    by (simp only: take_bit_add)
  finally show "take_bit ?n (take_bit k (a + b)) = take_bit ?n (take_bit k (take_bit k a + take_bit k b))"
    by simp
qed

lemma gear_of_window:
  "k \<le> length bs \<Longrightarrow> take_bit k (gear_of g bs) = take_bit k (gear_of h bs)"
proof -
  assume k: "k \<le> length bs"
  have z: "take_bit k (push_bit (length bs) x) = 0" for x :: uint64
    using k by (simp add: take_bit_push_bit)
  have "take_bit k (gear_of x bs) = take_bit k (gear_of 0 bs)" for x
    using take_bit_add_word [of k "push_bit (length bs) x" "gear_of 0 bs"] z [of x]
    by (simp add: gear_of_shift [of x])
  then show ?thesis by metis
qed

section \<open>Invariant and bounds\<close>

text \<open>
  What \<open>New\<close> establishes and every operation keeps: ordered positive bounds, a mask of low ones, a
  buffer below the maximum, and the gear hash of exactly the buffered bytes.
\<close>

definition cdc_inv :: "chunker \<Rightarrow> bool" where
  "cdc_inv c \<longleftrightarrow>
     0 < MinBytes (options c) \<and> MinBytes (options c) \<le> AverageBytes (options c) \<and>
     AverageBytes (options c) \<le> MaxBytes (options c) \<and>
     int (length (chunk_buf c)) < MaxBytes (options c) \<and>
     (\<exists>k. AverageBytes (options c) = 2 ^ k \<and> mask c = Bit_Operations.mask k) \<and>
     gear c = gear_of 0 (chunk_buf c)"

lemma power_of_two_test:
  "0 < n \<Longrightarrow> n AND (n - 1) = 0 \<Longrightarrow> \<exists>k. n = 2 ^ k" for n :: int
proof (induction "nat n" arbitrary: n rule: less_induct)
  case less
  show ?case
  proof (cases "n = 1")
    case True
    then show ?thesis by (intro exI [of _ 0]) simp
  next
    case False
    define m where "m = n div 2"
    have m: "0 < m" "nat m < nat n"
      using less.prems(1) False by (auto simp: m_def)
    show ?thesis
    proof (cases "even n")
      case True
      then have n: "n = 2 * m" and "(n - 1) div 2 = m - 1"
        by (auto simp: m_def)
      then have "m AND (m - 1) = 0"
        using less.prems(2) and_rec [of n "n - 1"] by (simp add: True)
      then obtain k where "m = 2 ^ k"
        using less.hyps m by blast
      then show ?thesis
        using n by (intro exI [of _ "Suc k"]) simp
    next
      case odd: False
      then have "(n - 1) div 2 = m" "n div 2 = m"
        by (auto simp: m_def elim: oddE)
      then show ?thesis
        using less.prems(2) and_rec [of n "n - 1"] m odd by simp
    qed
  qed
qed

lemma cdc_inv_New:
  assumes "New opts emit = Inr c"
  shows "cdc_inv c"
proof -
  have avg: "0 < AverageBytes (options c)" "AverageBytes (options c) AND (AverageBytes (options c) - 1) = 0"
    and mask: "mask c = word_of_int (AverageBytes (options c) - 1)"
    and rest: "0 < MinBytes (options c)" "MinBytes (options c) \<le> AverageBytes (options c)"
      "AverageBytes (options c) \<le> MaxBytes (options c)" "chunk_buf c = []" "gear c = 0"
    using assms by (auto simp: New_def Let_def split: if_splits)
  obtain k where k: "AverageBytes (options c) = 2 ^ k"
    using power_of_two_test [OF avg] by blast
  then have "mask c = Bit_Operations.mask k"
    by (simp add: mask mask_eq_exp_minus_1)
  then show ?thesis
    using rest k by (auto simp: cdc_inv_def)
qed

lemma cdc_inv_fresh: "cdc_inv c \<Longrightarrow> cdc_inv (fresh c)"
  by (auto simp: cdc_inv_def)

lemma cdc_inv_push: "cdc_inv c \<Longrightarrow> \<not> at_boundary (push_byte c v) \<Longrightarrow> cdc_inv (push_byte c v)"
  by (auto simp: cdc_inv_def at_boundary_def Let_def push_byte_def gear_of_snoc)

lemma cut_inv: "cdc_inv c \<Longrightarrow> cut c data = (cs, c') \<Longrightarrow> cdc_inv c'"
proof (induction data arbitrary: c cs)
  case Nil
  then show ?case by simp
next
  case (Cons v data)
  then show ?case
    using cdc_inv_push [of c v] cdc_inv_fresh [of c]
    by (fastforce simp: Let_def split: if_splits prod.splits)
qed

lemma boundary_size:
  assumes "cdc_inv c" and "at_boundary (push_byte c v)"
  shows "MinBytes (options c) \<le> int (length (chunk_buf c @ [v]))"
    and "int (length (chunk_buf c @ [v])) \<le> MaxBytes (options c)"
  using assms by (auto simp: cdc_inv_def at_boundary_def Let_def)

lemma cut_sizes:
  "cdc_inv c \<Longrightarrow> cut c data = (cs, c') \<Longrightarrow> ch \<in> set cs \<Longrightarrow>
   MinBytes (options c) \<le> int (length (Data ch)) \<and> int (length (Data ch)) \<le> MaxBytes (options c)"
proof (induction data arbitrary: c cs)
  case Nil
  then show ?case by simp
next
  case (Cons v data)
  show ?case
  proof (cases "at_boundary (push_byte c v)")
    case True
    then obtain ds where ds: "cut (fresh c) data = (ds, c')"
      and cs: "cs = chunk_of (chunk_buf c @ [v]) # ds"
      using Cons.prems by (auto simp: Let_def split: prod.splits)
    show ?thesis
      using cs boundary_size [OF Cons.prems(1) True] Cons.prems(3)
        Cons.IH [OF cdc_inv_fresh [OF Cons.prems(1)] ds] by auto
  next
    case False
    then have rest: "cut (push_byte c v) data = (cs, c')"
      using Cons.prems(2) by (simp add: Let_def)
    show ?thesis
      using Cons.IH [OF cdc_inv_push [OF Cons.prems(1) False] rest Cons.prems(3)] by simp
  qed
qed

lemma fresh_cong: "options d = options c \<Longrightarrow> mask d = mask c \<Longrightarrow> fresh d = fresh c"
  by (cases c, cases d) (simp add: fresh_def)

lemma fresh_eq: "cdc_inv c \<Longrightarrow> chunk_buf c = [] \<Longrightarrow> c = fresh c"
  by (simp add: cdc_inv_def fresh_def)

lemma at_boundary_gear:
  "cdc_inv c \<Longrightarrow> AverageBytes (options c) = 2 ^ k \<Longrightarrow>
   at_boundary c \<longleftrightarrow>
     (MinBytes (options c) \<le> int (length (chunk_buf c)) \<and> take_bit k (gear_of 0 (chunk_buf c)) = 0)"
  by (auto simp: cdc_inv_def at_boundary_def Let_def take_bit_eq_mask)

lemma at_boundary_window:
  assumes "cdc_inv c" "cdc_inv d" "options d = options c" "AverageBytes (options c) = 2 ^ k"
    and "chunk_buf c = p @ v" "chunk_buf d = q @ v" "k \<le> length v"
    and "MinBytes (options c) \<le> int (length (p @ v))" "MinBytes (options c) \<le> int (length (q @ v))"
  shows "at_boundary c = at_boundary d"
proof -
  have "gear_of 0 (x @ v) = gear_of (gear_of 0 x) v" for x
    by (simp add: gear_of_def)
  then have "take_bit k (gear_of 0 (p @ v)) = take_bit k (gear_of 0 (q @ v))"
    using gear_of_window [OF assms(7)] by metis
  then show ?thesis
    using assms at_boundary_gear [of c k] at_boundary_gear [of d k] by simp
qed

section \<open>Properties\<close>

lemma emit_all_append: "emit_all emit (cs @ ds) s = rbind (emit_all emit cs s) (emit_all emit ds)"
  by (induction cs arbitrary: s) (auto simp: rbind_def split: sum.splits)

lemma cut_digests: "cut c data = (cs, c') \<Longrightarrow> ch \<in> set cs \<Longrightarrow> Digest ch = sha256 (Data ch)"
proof (induction data arbitrary: c cs)
  case Nil
  then show ?case by simp
next
  case (Cons v data)
  then show ?case
    by (fastforce simp: Let_def chunk_of_def split: if_splits prod.splits)
qed

lemma Finish_emits:
  "Finish emit c s =
     rbind (emit_all emit (if chunk_buf c = [] then [] else [chunk_of (chunk_buf c)]) s)
       (\<lambda>s'. Inr (if chunk_buf c = [] then c else fresh c, s'))"
  by (auto simp: Finish_def emitChunk_eq rbind_assoc)

lemma butlast_cases: "x \<in> set (butlast (cs @ ds)) \<Longrightarrow> length ds \<le> 1 \<Longrightarrow> x \<in> set cs"
  by (cases ds) (auto dest: in_set_butlastD)

text \<open>C21: Chunking a stream with \<open>Write\<close> and \<open>Finish\<close> loses and invents nothing. The callback has received,
  in order, chunks whose concatenation is the stream, each with the SHA-256 digest of its data, none
  empty, none above the maximum size, and none but the last below the minimum size.\<close>

theorem cdc_stream:
  assumes "New opts (Some emit) = Inr c"
    and "Write emit c s data = Inr (c1, s1)"
    and "Finish emit c1 s1 = Inr (c2, s2)"
  shows "\<exists>cs. emit_all emit cs s = Inr s2 \<and> contents cs = data \<and>
    (\<forall>ch\<in>set cs. Digest ch = sha256 (Data ch) \<and> Data ch \<noteq> [] \<and>
       int (length (Data ch)) \<le> MaxBytes (options c)) \<and>
    (\<forall>ch\<in>set (butlast cs). MinBytes (options c) \<le> int (length (Data ch)))"
proof -
  have inv: "cdc_inv c" and empty: "chunk_buf c = []"
    using assms(1) cdc_inv_New [OF assms(1)] by (auto simp: New_def Let_def split: if_splits)
  obtain cs c1' where cut: "cut c data = (cs, c1')"
    by (cases "cut c data")
  define ds where "ds = (if chunk_buf c1' = [] then [] else [chunk_of (chunk_buf c1')])"
  have c1: "c1' = c1" "emit_all emit cs s = Inr s1"
    using assms(2) by (auto simp: Write_cut cut result_simps)
  have "emit_all emit ds s1 = Inr s2"
    using assms(3) by (auto simp: Finish_emits ds_def c1 result_simps)
  then have all: "emit_all emit (cs @ ds) s = Inr s2"
    using c1 by (simp add: emit_all_append)
  have contents: "contents (cs @ ds) = data"
    using cut_contents [OF cut] by (auto simp: ds_def empty)
  have "cdc_inv c1'" "options c1' = options c"
    using cut_inv [OF inv cut] cut_options [OF cut] by auto
  then have ds: "Digest ch = sha256 (Data ch) \<and> Data ch \<noteq> [] \<and> int (length (Data ch)) \<le> MaxBytes (options c)"
    if "ch \<in> set ds" for ch
    using that by (auto simp: ds_def chunk_of_def cdc_inv_def split: if_splits)
  have cs: "Digest ch = sha256 (Data ch) \<and> Data ch \<noteq> [] \<and> int (length (Data ch)) \<le> MaxBytes (options c)
      \<and> MinBytes (options c) \<le> int (length (Data ch))" if "ch \<in> set cs" for ch
    using cut_sizes [OF inv cut that] cut_digests [OF cut that] inv by (auto simp: cdc_inv_def)
  have "ch \<in> set cs" if "ch \<in> set (butlast (cs @ ds))" for ch
    using butlast_cases [OF that] by (simp add: ds_def split: if_splits)
  then show ?thesis
    using all contents cs ds by (intro exI [of _ "cs @ ds"]) auto
qed

theorem cdc_stream_witness:
  "\<exists>cs. emit_all (\<lambda>ch s. Inr (s @ [Data ch]) :: cdc_error + bytes list) cs [] = Inr [[1], [2], [3]] \<and>
     contents cs = [1, 2, 3] \<and>
     (\<forall>ch\<in>set cs. Digest ch = sha256 (Data ch) \<and> Data ch \<noteq> [] \<and> int (length (Data ch)) \<le> 2) \<and>
     (\<forall>ch\<in>set (butlast cs). 1 \<le> int (length (Data ch)))"
  using cdc_stream [of "\<lparr>MinBytes = 1, AverageBytes = 1, MaxBytes = 2\<rparr>"
      "\<lambda>ch s. Inr (s @ [Data ch]) :: cdc_error + bytes list"
      "\<lparr>options = \<lparr>MinBytes = 1, AverageBytes = 1, MaxBytes = 2\<rparr>, mask = 0, gear = 0, chunk_buf = []\<rparr>"
      "[]" "[1, 2, 3]"
      "\<lparr>options = \<lparr>MinBytes = 1, AverageBytes = 1, MaxBytes = 2\<rparr>, mask = 0, gear = 0, chunk_buf = []\<rparr>"
      "[[1], [2], [3]]"]
  by (simp add: New_def Finish_def emitChunk_def at_boundary_def push_byte_def)




end
