(* ===== verification/Jsonraw.thy ===== *)
theory Jsonraw
  imports Json_Decoder
begin

text \<open>
  Locating the raw text of long strings in a JSON record, \<open>src/internal/jsonraw/spans.go\<close>.
  \<open>FindStringSpans\<close> walks the token stream and recovers, for every string value, the byte range of
  its quoted text; recursion is by fuel, and \<open>FindStringSpans_errors\<close> shows that the fuel chosen there
  never runs out.
\<close>

record string_span =
  Path :: string
  Start :: nat
  End :: nat

fun index_byte :: "byte \<Rightarrow> bytes \<Rightarrow> nat option" where
  "index_byte c [] = None"
| "index_byte c (b # bs) = (if b = c then Some 0 else map_option Suc (index_byte c bs))"

fun scanStringLoop :: "bool \<Rightarrow> nat \<Rightarrow> bytes \<Rightarrow> nat option" where
  "scanStringLoop escaped cursor [] = None"
| "scanStringLoop escaped cursor (b # bs) =
     (if escaped then scanStringLoop False (cursor + 1) bs
      else if b = b_backslash then scanStringLoop True (cursor + 1) bs
      else if b = b_quote then Some (cursor + 1)
      else scanStringLoop False (cursor + 1) bs)"

definition scanStringToken :: "bytes \<Rightarrow> nat \<Rightarrow> nat option" where
  "scanStringToken data start =
     (if start \<ge> length data \<or> data ! start \<noteq> b_quote then None
      else scanStringLoop False (start + 1) (drop (start + 1) data))"

definition rawStringBounds :: "bytes \<Rightarrow> nat \<Rightarrow> nat \<Rightarrow> (nat \<times> nat) option" where
  "rawStringBounds data startOffset endOffset =
     (if endOffset < startOffset \<or> endOffset > length data then None
      else (case index_byte b_quote (slice startOffset endOffset data) of
              None \<Rightarrow> None
            | Some relativeStart \<Rightarrow>
                (let absoluteStart = startOffset + relativeStart
                 in case scanStringToken data absoluteStart of
                      None \<Rightarrow> None
                    | Some absoluteEnd \<Rightarrow>
                        if absoluteEnd > endOffset then None else Some (absoluteStart, absoluteEnd))))"

fun escapePointerToken :: "string \<Rightarrow> string" where
  "escapePointerToken [] = []"
| "escapePointerToken (c # cs) =
     (if c = CHR ''~'' then ''~0'' else if c = CHR ''/'' then ''~1'' else [c]) @ escapePointerToken cs"

text \<open>
  The loops over the members of an object and the elements of an array call \<open>scan\<close>, the walk of one
  value; \<open>scanValue\<close> ties the knot. Both loops and the nesting are bounded by the fuel.
\<close>

type_synonym scan_result = "json_error + (decoder \<times> string_span list)"

primrec scanObject :: "nat \<Rightarrow> (string \<Rightarrow> decoder \<Rightarrow> string_span list \<Rightarrow> scan_result) \<Rightarrow> string \<Rightarrow> decoder \<Rightarrow> string_span list \<Rightarrow> scan_result" where
  "scanObject 0 scan path d spans = Inl OutOfFuel"
| "scanObject (Suc n) scan path d spans =
     (case More d of
        (False, d) \<Rightarrow> Inr (d, spans)
      | (True, d) \<Rightarrow>
          rbind (Token d) (\<lambda>(keyToken, d).
            case keyToken of
              StringTok key \<Rightarrow>
                rbind (scan (path @ ''/'' @ escapePointerToken (go_string key)) d spans) (\<lambda>(d, spans).
                  scanObject n scan path d spans)
            | _ \<Rightarrow> Inl KeyNotString))"

primrec scanArray :: "nat \<Rightarrow> (string \<Rightarrow> decoder \<Rightarrow> string_span list \<Rightarrow> scan_result) \<Rightarrow> string \<Rightarrow> nat \<Rightarrow> decoder \<Rightarrow> string_span list \<Rightarrow> scan_result" where
  "scanArray 0 scan path index d spans = Inl OutOfFuel"
| "scanArray (Suc n) scan path index d spans =
     (case More d of
        (False, d) \<Rightarrow> Inr (d, spans)
      | (True, d) \<Rightarrow>
          rbind (scan (path @ ''/'' @ itoa index) d spans) (\<lambda>(d, spans).
            scanArray n scan path (index + 1) d spans))"

primrec scanValue :: "nat \<Rightarrow> bytes \<Rightarrow> int64 \<Rightarrow> string \<Rightarrow> decoder \<Rightarrow> string_span list \<Rightarrow> scan_result" where
  "scanValue 0 raw minRawBytes path d spans = Inl OutOfFuel"
| "scanValue (Suc n) raw minRawBytes path d spans =
     (let startOffset = InputOffset raw d
      in rbind (Token d) (\<lambda>(tok, d).
           case tok of
             StringTok _ \<Rightarrow>
               (case rawStringBounds raw startOffset (InputOffset raw d) of
                  None \<Rightarrow> Inl (LocateString startOffset)
                | Some (start, stop) \<Rightarrow>
                    Inr (d, if int (stop - start) \<ge> minRawBytes
                            then spans @ [\<lparr>Path = path, Start = start, End = stop\<rparr>] else spans))
           | Delim c \<Rightarrow>
               if c = b_lbrace then
                 rbind (scanObject n (scanValue n raw minRawBytes) path d spans) (\<lambda>(d, spans).
                   rbind (Token d) (\<lambda>(stop, d).
                     if stop = Delim b_rbrace then Inr (d, spans) else Inl ObjectEndedWith))
               else if c = b_lbrack then
                 rbind (scanArray n (scanValue n raw minRawBytes) path 0 d spans) (\<lambda>(d, spans).
                   rbind (Token d) (\<lambda>(stop, d).
                     if stop = Delim b_rbrack then Inr (d, spans) else Inl ArrayEndedWith))
               else Inl UnexpectedDelimiter
           | ScalarTok _ \<Rightarrow> Inr (d, spans)))"

definition FindStringSpans :: "bytes \<Rightarrow> int64 \<Rightarrow> json_error + string_span list" where
  "FindStringSpans data minRawBytes =
     rbind (scanValue (length data + 1) data minRawBytes '''' (NewDecoder data) []) (\<lambda>(d, spans).
       case Token d of
         Inr _ \<Rightarrow> Inl ErrMultipleValues
       | Inl EOF \<Rightarrow> Inr spans
       | Inl e \<Rightarrow> Inl e)"

section \<open>Raw bounds of a scanned string\<close>

lemma index_byte_gap:
  "(\<And>b. b \<in> set g \<Longrightarrow> b \<noteq> c) \<Longrightarrow> index_byte c (g @ c # bs) = Some (length g)"
  by (induction g) auto

lemma hex_not_special: "is_hex c \<Longrightarrow> c \<noteq> b_quote \<and> c \<noteq> b_backslash"
  by (auto simp: is_hex_def)

lemma scanStringLoop_readValue:
  "readValue st bs = Inr (v, r) \<Longrightarrow>
   (st = InString \<longrightarrow> scanStringLoop False k (bs @ x) = Some (k + length v)) \<and>
   (st = InStringEsc \<longrightarrow> scanStringLoop True k (bs @ x) = Some (k + length v)) \<and>
   (\<forall>n. st = InStringU n \<longrightarrow> scanStringLoop False k (bs @ x) = Some (k + length v))"
proof (induction bs arbitrary: st v k)
  case Nil
  then show ?case by (auto split: if_splits)
next
  case (Cons b bs)
  show ?case
  proof (intro conjI allI impI)
    assume "st = InString"
    then show "scanStringLoop False k ((b # bs) @ x) = Some (k + length v)"
      using Cons.prems Cons.IH [of _ _ "Suc k"] by (auto simp: result_simps split: if_splits)
  next
    assume "st = InStringEsc"
    then show "scanStringLoop True k ((b # bs) @ x) = Some (k + length v)"
      using Cons.prems Cons.IH [of _ _ "Suc k"] by (auto simp: result_simps split: if_splits)
  next
    fix n
    assume "st = InStringU n"
    then show "scanStringLoop False k ((b # bs) @ x) = Some (k + length v)"
      using Cons.prems Cons.IH [of _ _ "Suc k"] hex_not_special [of b]
      by (auto simp: result_simps split: if_splits nat.splits)
  qed
qed

text \<open>A quoted text as the scanner delimits it.\<close>

definition json_string :: "bytes \<Rightarrow> bool" where
  "json_string v \<longleftrightarrow> v \<noteq> [] \<and> hd v = b_quote \<and> readValue BeginValue v = Inr (v, [])"

fun string_state :: "scan_state \<Rightarrow> bool" where
  "string_state InString = True"
| "string_state InStringEsc = True"
| "string_state (InStringU n) = True"
| "string_state EndValue = True"
| "string_state _ = False"

lemma scan_step_string:
  "string_state st \<Longrightarrow> scan_step st b = ScanContinue st' \<Longrightarrow> string_state st'"
  by (cases st) (auto split: if_splits nat.splits)

lemma readValue_cut:
  "readValue st (v @ r) = Inr (v, r) \<Longrightarrow> string_state st \<Longrightarrow> readValue st v = Inr (v, [])"
proof (induction v arbitrary: st)
  case Nil
  then show ?case
    by (cases st; cases r) (auto simp: result_simps split: if_splits nat.splits)
next
  case (Cons b v)
  obtain st' where st': "scan_step st b = ScanContinue st'" "readValue st' (v @ r) = Inr (v, r)"
    using Cons.prems(1) by (auto simp: result_simps split: scan_op.splits)
  show ?case
    using Cons.IH [OF st'(2) scan_step_string [OF Cons.prems(2) st'(1)]] st'(1) by simp
qed

lemma json_string_prefix:
  assumes "readValue BeginValue (v @ r) = Inr (v, r)" and "v \<noteq> []" and "hd v = b_quote"
  shows "json_string v"
proof -
  obtain w where v: "v = b_quote # w"
    using assms by (cases v) auto
  have "readValue InString (w @ r) = Inr (w, r)"
    using assms(1) by (auto simp: v isSpace_def result_simps)
  then have "readValue InString w = Inr (w, [])"
    by (rule readValue_cut) simp
  then show ?thesis
    by (simp add: json_string_def v isSpace_def)
qed

lemma scanStringToken_string:
  assumes "json_string v"
  shows "scanStringToken (p @ v @ r) (length p) = Some (length p + length v)"
proof -
  obtain w where v: "v = b_quote # w"
    using assms by (cases v) (auto simp: json_string_def)
  have "readValue InString w = Inr (w, [])"
    using assms by (auto simp: json_string_def v isSpace_def result_simps)
  then have "scanStringLoop False (Suc (length p)) (w @ r) = Some (Suc (length p) + length w)"
    using scanStringLoop_readValue by blast
  then show ?thesis
    by (simp add: scanStringToken_def v nth_append)
qed

text \<open>The range recovered for a string token is exactly its quoted text.\<close>

lemma rawStringBounds_string:
  assumes "json_string v" and "\<And>c. c \<in> set g \<Longrightarrow> is_gap c"
  shows "rawStringBounds (p @ g @ v @ r) (length p) (length p + length g + length v) =
    Some (length p + length g, length p + length g + length v)"
proof -
  obtain w where v: "v = b_quote # w"
    using assms by (cases v) (auto simp: json_string_def)
  have "index_byte b_quote (g @ b_quote # w) = Some (length g)"
    using assms(2) quote_not_gap by (intro index_byte_gap) blast
  moreover have "slice (length p) (length p + length g + length v) (p @ g @ v @ r) = g @ v"
    by (simp add: slice_def)
  moreover have "scanStringToken (p @ g @ v @ r) (length p + length g) = Some (length p + length g + length v)"
    using scanStringToken_string [OF assms(1), of "p @ g" r] by simp
  ultimately show ?thesis
    by (simp add: rawStringBounds_def v Let_def)
qed

section \<open>Soundness of the spans\<close>

text \<open>A span denotes a JSON string of at least the wanted size inside the record.\<close>

definition good_span :: "bytes \<Rightarrow> int64 \<Rightarrow> string_span \<Rightarrow> bool" where
  "good_span raw minRawBytes s \<longleftrightarrow>
     Start s < End s \<and> End s \<le> length raw \<and> json_string (slice (Start s) (End s) raw) \<and>
     minRawBytes \<le> int (End s - Start s)"

definition spans_ok :: "bytes \<Rightarrow> int64 \<Rightarrow> nat \<Rightarrow> string_span list \<Rightarrow> bool" where
  "spans_ok raw minRawBytes hi spans \<longleftrightarrow>
     sorted_wrt (\<lambda>a b. End a \<le> Start b) spans \<and>
     (\<forall>s\<in>set spans. good_span raw minRawBytes s \<and> End s \<le> hi)"

lemma spans_ok_mono: "spans_ok raw m hi spans \<Longrightarrow> hi \<le> hi' \<Longrightarrow> spans_ok raw m hi' spans"
  by (auto simp: spans_ok_def intro: order_trans)

lemma spans_ok_snoc:
  "spans_ok raw m hi spans \<Longrightarrow> good_span raw m s \<Longrightarrow> hi \<le> Start s \<Longrightarrow> spans_ok raw m (End s) (spans @ [s])"
  by (fastforce simp: spans_ok_def sorted_wrt_append good_span_def)

text \<open>The decoder has read a prefix of the record.\<close>

definition reads :: "bytes \<Rightarrow> decoder \<Rightarrow> bool" where
  "reads raw d \<longleftrightarrow> (\<exists>p. raw = p @ rest d)"

lemma InputOffset_reads: "raw = p @ rest d \<Longrightarrow> InputOffset raw d = length p"
  by (simp add: InputOffset_def)

lemma reads_Token:
  assumes "reads raw d" and "Token d = Inr (t, d')"
  shows "reads raw d'" and "length (rest d') < length (rest d)"
  using assms(1) Token_text [OF assms(2)] by (auto simp: reads_def)

lemma reads_More:
  assumes "reads raw d" and "More d = (b, d')"
  shows "reads raw d'" and "length (rest d') \<le> length (rest d)"
  using assms(1) More_rest [OF assms(2)] by (auto simp: reads_def)

lemma InputOffset_mono: "length (rest d') \<le> length (rest d) \<Longrightarrow> InputOffset raw d \<le> InputOffset raw d'"
  by (simp add: InputOffset_def)

lemma string_token_bounds:
  assumes "reads raw d" and "Token d = Inr (StringTok s, d')"
  obtains a b where "rawStringBounds raw (InputOffset raw d) (InputOffset raw d') = Some (a, b)"
    and "InputOffset raw d \<le> a" and "b = InputOffset raw d'" and "a < b" and "b \<le> length raw"
    and "json_string (slice a b raw)"
proof -
  obtain p where p: "raw = p @ rest d"
    using assms(1) by (auto simp: reads_def)
  obtain g v where gv: "rest d = g @ v @ rest d'" and gap: "\<And>c. c \<in> set g \<Longrightarrow> is_gap c" and "v \<noteq> []"
    and t: "token_text (StringTok s) v (rest d')"
    using Token_text [OF assms(2)] by blast
  then have js: "json_string v"
    by (auto simp: token_text_def intro: json_string_prefix)
  have raw: "raw = p @ g @ v @ rest d'"
    using p gv by simp
  have off: "InputOffset raw d = length p" "InputOffset raw d' = length p + length g + length v"
    using p gv by (simp_all add: InputOffset_def)
  have "rawStringBounds (p @ g @ v @ rest d') (length p) (length p + length g + length v) =
      Some (length p + length g, length p + length g + length v)"
    using js gap by (rule rawStringBounds_string)
  then have "rawStringBounds raw (InputOffset raw d) (InputOffset raw d') =
      Some (length p + length g, length p + length g + length v)"
    unfolding off by (simp only: raw)
  moreover have "slice (length p + length g) (length p + length g + length v) raw = v"
    unfolding raw by (simp add: slice_def)
  ultimately show thesis
    using that off raw js \<open>v \<noteq> []\<close> by simp
qed

text \<open>
  One access to the token stream, with what it may add to the spans. Whatever the walk does is a
  sequence of such steps, so an invariant of the steps is an invariant of the walk.
\<close>

inductive scan_step1 :: "bytes \<Rightarrow> int64 \<Rightarrow> decoder \<times> string_span list \<Rightarrow> decoder \<times> string_span list \<Rightarrow> bool"
  for raw :: bytes and m :: int64 where
  more: "More d = (b, d') \<Longrightarrow> scan_step1 raw m (d, spans) (d', spans)"
| tok: "Token d = Inr (t, d') \<Longrightarrow> scan_step1 raw m (d, spans) (d', spans)"
| str: "Token d = Inr (StringTok k, d') \<Longrightarrow>
    rawStringBounds raw (InputOffset raw d) (InputOffset raw d') = Some (a, b) \<Longrightarrow> m \<le> int (b - a) \<Longrightarrow>
    scan_step1 raw m (d, spans) (d', spans @ [\<lparr>Path = path, Start = a, End = b\<rparr>])"

abbreviation scan_run :: "bytes \<Rightarrow> int64 \<Rightarrow> decoder \<times> string_span list \<Rightarrow> decoder \<times> string_span list \<Rightarrow> bool" where
  "scan_run raw m \<equiv> (scan_step1 raw m)\<^sup>*\<^sup>*"

lemma scanObject_run:
  assumes scan: "\<And>path d s d' s'. scan path d s = Inr (d', s') \<Longrightarrow> scan_run raw m (d, s) (d', s')"
  shows "scanObject n scan path d s = Inr (d', s') \<Longrightarrow> scan_run raw m (d, s) (d', s')"
proof (induction n arbitrary: d s)
  case 0
  then show ?case by simp
next
  case (Suc n)
  obtain b d1 where m: "More d = (b, d1)"
    by (cases "More d")
  then have step: "scan_step1 raw m (d, s) (d1, s)"
    by (rule scan_step1.more)
  show ?case
  proof (cases b)
    case False
    then show ?thesis using Suc.prems m step by auto
  next
    case True
    then obtain t d2 where t: "Token d1 = Inr (t, d2)"
      using Suc.prems m by (auto simp: result_simps)
    then obtain key d3 s3 path' where "scan path' d2 s = Inr (d3, s3)"
      and rest: "scanObject n scan path d3 s3 = Inr (d', s')"
      using Suc.prems m True by (cases t) (auto simp: result_simps)
    then have "scan_step1 raw m (d1, s) (d2, s)" "scan_run raw m (d2, s) (d3, s3)" "scan_run raw m (d3, s3) (d', s')"
      using scan t Suc.IH [OF rest] by (auto intro: scan_step1.tok)
    then show ?thesis
      using step by (meson converse_rtranclp_into_rtranclp rtranclp_trans)
  qed
qed

lemma scanArray_run:
  assumes scan: "\<And>path d s d' s'. scan path d s = Inr (d', s') \<Longrightarrow> scan_run raw m (d, s) (d', s')"
  shows "scanArray n scan path index d s = Inr (d', s') \<Longrightarrow> scan_run raw m (d, s) (d', s')"
proof (induction n arbitrary: index d s)
  case 0
  then show ?case by simp
next
  case (Suc n)
  obtain b d1 where m: "More d = (b, d1)"
    by (cases "More d")
  then have step: "scan_step1 raw m (d, s) (d1, s)"
    by (rule scan_step1.more)
  show ?case
  proof (cases b)
    case False
    then show ?thesis using Suc.prems m step by auto
  next
    case True
    then obtain d3 s3 path' where "scan path' d1 s = Inr (d3, s3)"
      and rest: "scanArray n scan path (index + 1) d3 s3 = Inr (d', s')"
      using Suc.prems m by (auto simp: result_simps)
    then have "scan_run raw m (d1, s) (d3, s3)" "scan_run raw m (d3, s3) (d', s')"
      using scan Suc.IH [OF rest] by auto
    then show ?thesis
      using step by (meson converse_rtranclp_into_rtranclp rtranclp_trans)
  qed
qed

lemma scanValue_run:
  "scanValue n raw m path d s = Inr (d', s') \<Longrightarrow> scan_run raw m (d, s) (d', s')"
proof (induction n arbitrary: path d s d' s')
  case 0
  then show ?case by simp
next
  case (Suc n)
  then obtain t d1 where t: "Token d = Inr (t, d1)"
    by (auto simp: Let_def result_simps)
  have obj: "scanObject n (scanValue n raw m) path d1 s = Inr (d2, s2) \<Longrightarrow> scan_run raw m (d1, s) (d2, s2)" for d2 s2
    using Suc.IH by (rule scanObject_run)
  have arr: "scanArray n (scanValue n raw m) path 0 d1 s = Inr (d2, s2) \<Longrightarrow> scan_run raw m (d1, s) (d2, s2)" for d2 s2
    using Suc.IH by (rule scanArray_run)
  show ?case
  proof (cases t)
    case (Delim c)
    then obtain d2 t' where d2: "Token d2 = Inr (t', d')" and "scan_run raw m (d1, s) (d2, s')"
      using Suc.prems t by (auto simp: Let_def result_simps split: if_splits dest: obj arr)
    moreover have "scan_step1 raw m (d, s) (d1, s)" "scan_step1 raw m (d2, s') (d', s')"
      using t d2 by (auto intro: scan_step1.tok)
    ultimately show ?thesis
      by (meson converse_rtranclp_into_rtranclp rtranclp.rtrancl_into_rtrancl)
  next
    case (StringTok k)
    then have "scan_step1 raw m (d, s) (d', s')"
      using Suc.prems t by (auto simp: Let_def split: option.splits if_splits intro: scan_step1.intros)
    then show ?thesis by blast
  next
    case (ScalarTok k)
    then have "scan_step1 raw m (d, s) (d', s')"
      using Suc.prems t by (auto simp: Let_def intro: scan_step1.intros)
    then show ?thesis by blast
  qed
qed

text \<open>The invariant of the walk.\<close>

definition scan_inv :: "bytes \<Rightarrow> int64 \<Rightarrow> decoder \<times> string_span list \<Rightarrow> bool" where
  "scan_inv raw m = (\<lambda>(d, spans). reads raw d \<and> spans_ok raw m (InputOffset raw d) spans)"

lemma scan_step1_inv: "scan_step1 raw m x y \<Longrightarrow> scan_inv raw m x \<Longrightarrow> scan_inv raw m y"
proof (induction rule: scan_step1.induct)
  case (more d b d' spans)
  then show ?case
    using reads_More [of raw d b d'] spans_ok_mono [of raw m "InputOffset raw d" spans] InputOffset_mono [of d' d raw]
    by (simp add: scan_inv_def)
next
  case (tok d t d' spans)
  then show ?case
    using reads_Token [of raw d t d'] spans_ok_mono [of raw m "InputOffset raw d" spans] InputOffset_mono [of d' d raw]
    by (simp add: scan_inv_def)
next
  case (str d k d' a b spans path)
  then have "reads raw d" "spans_ok raw m (InputOffset raw d) spans"
    by (auto simp: scan_inv_def)
  moreover from this(1) obtain "InputOffset raw d \<le> a" "b = InputOffset raw d'" "a < b" "b \<le> length raw" "json_string (slice a b raw)"
    using string_token_bounds [OF _ str(1)] str(2) by (metis Pair_inject option.inject)
  ultimately show ?case
    using str spans_ok_snoc [of raw m "InputOffset raw d" spans "\<lparr>Path = path, Start = a, End = b\<rparr>"]
      reads_Token(1) [of raw d "StringTok k" d']
    by (auto simp: scan_inv_def good_span_def)
qed

lemma scan_run_inv: "scan_run raw m x y \<Longrightarrow> scan_inv raw m x \<Longrightarrow> scan_inv raw m y"
  by (induction rule: rtranclp_induct) (auto intro: scan_step1_inv)

lemma scan_run_length: "scan_run raw m x y \<Longrightarrow> length (rest (fst y)) \<le> length (rest (fst x))"
proof (induction rule: rtranclp_induct)
  case base
  show ?case by simp
next
  case (step y z)
  have "length (rest (fst z)) \<le> length (rest (fst y))"
    using step(2)
  proof (cases rule: scan_step1.cases)
    case (more d b d' spans)
    then show ?thesis using More_rest [of d b d'] by auto
  next
    case (tok d t d' spans)
    then show ?thesis using Token_text [of d t d'] by auto
  next
    case (str d k d' a b spans path)
    then show ?thesis using Token_text [of d _ d'] by fastforce
  qed
  then show ?case using step.IH by simp
qed

section \<open>Token states during the walk\<close>

text \<open>The states in which a value may be read next, what they are once its separator has been read, and once the
  value has been read.\<close>

fun inner_state :: "token_state \<Rightarrow> token_state" where
  "inner_state ArrayComma = ArrayValue"
| "inner_state ObjectColon = ObjectValue"
| "inner_state st = st"

definition after_value :: "token_state \<Rightarrow> token_state" where
  "after_value st = tokenValueEnd (inner_state st)"

definition value_pos :: "decoder \<Rightarrow> bool" where
  "value_pos d \<longleftrightarrow>
     tokenState d \<in> {TopValue, ArrayStart, ArrayComma, ObjectColon} \<and> (tokenState d \<in> {ArrayStart, ArrayComma} \<longrightarrow> fst (More d))"

definition lib_error :: "json_error \<Rightarrow> bool" where
  "lib_error e \<longleftrightarrow> e \<in> {EOF, UnexpectedEOF, SyntaxError}"

lemma readValue_error: "readValue st bs = Inl e \<Longrightarrow> lib_error e"
  by (induction bs arbitrary: st)
    (auto simp: lib_error_def result_simps split: if_splits scan_op.splits)

lemma decode_scalar_error: "decode_scalar bs = Inl e \<Longrightarrow> lib_error e"
  using readValue_error
  by (fastforce simp: decode_scalar_def lib_error_def result_simps split: if_splits option.splits)

lemma Token_error: "Token d = Inl e \<Longrightarrow> lib_error e"
proof (induction "length (rest d)" arbitrary: d rule: less_induct)
  case less
  show ?case
  proof (cases "skip_space (rest d)")
    case Nil
    then show ?thesis using less.prems by (simp add: Token.simps lib_error_def)
  next
    case (Cons c cs)
    have sy: "lib_error SyntaxError"
      by (simp add: lib_error_def)
    note tok = less.prems [unfolded Token.simps [of d] Cons list.case]
    have opn: "open_token d c cs st = Inl e \<Longrightarrow> lib_error e" for st c
      using sy by (auto simp: open_token_def split: if_splits)
    have cls: "close_token d c cs sts = Inl e \<Longrightarrow> lib_error e" for sts c
      using sy by (auto simp: close_token_def split: if_splits list.splits)
    have scalar: "rbind (decode_scalar (c # cs)) (\<lambda>(t, bs). Inr (t, f bs)) = (Inl e :: json_error + (token \<times> decoder)) \<Longrightarrow> lib_error e" for f c
      using decode_scalar_error by (auto simp: result_simps)
    have rec: "Token \<lparr>rest = cs, tokenState = st, tokenStack = sts\<rparr> = Inl e \<Longrightarrow> lib_error e" for st sts
      using less.hyps [of "\<lparr>rest = cs, tokenState = st, tokenStack = sts\<rparr>"] skip_space_length [of "rest d"] Cons
      by simp
    show ?thesis
      using tok sy by (auto dest: opn cls scalar rec split: if_split_asm)
  qed
qed

lemma More_True:
  "fst (More d) \<longleftrightarrow> (\<exists>c cs. skip_space (rest d) = c # cs \<and> c \<noteq> b_rbrack \<and> c \<noteq> b_rbrace)"
  by (auto simp: More_def split: list.splits)

lemma More_again: "fst (More (snd (More d))) = fst (More d)"
  by (auto simp: More_def skip_space_head split: list.splits)

lemma More_state [simp]: "tokenState (snd (More d)) = tokenState d" "tokenStack (snd (More d)) = tokenStack d"
  by (auto simp: More_def split: list.splits)

text \<open>The outcome of \<open>Token\<close> where a value is read: an opening delimiter that pushes a state, or a scalar.\<close>

definition value_token :: "decoder \<Rightarrow> token \<Rightarrow> decoder \<Rightarrow> bool" where
  "value_token d t d' \<longleftrightarrow>
     (t = Delim b_lbrack \<and> tokenState d' = ArrayStart \<and> tokenStack d' = inner_state (tokenState d) # tokenStack d) \<or>
     (t = Delim b_lbrace \<and> tokenState d' = ObjectStart \<and> tokenStack d' = inner_state (tokenState d) # tokenStack d) \<or>
     ((\<forall>c. t \<noteq> Delim c) \<and> tokenState d' = after_value (tokenState d) \<and> tokenStack d' = tokenStack d)"

lemma decode_scalar_not_delim: "decode_scalar bs = Inr (Delim c, r) \<Longrightarrow> False"
  by (auto simp: decode_scalar_def result_simps split: if_splits option.splits)

lemma decode_scalar_quote:
  "decode_scalar (b_quote # cs) = Inr (t, r) \<Longrightarrow> \<exists>s. t = StringTok s"
  by (auto simp: decode_scalar_def result_simps isSpace_def split: if_splits option.splits)

lemma open_token_Inr:
  "open_token d c cs st = Inr (t, d') \<Longrightarrow>
   t = Delim c \<and> tokenState d' = st \<and> tokenStack d' = tokenState d # tokenStack d"
  by (auto simp: open_token_def split: if_splits)

lemma close_token_Inr:
  "close_token d c cs sts = Inr (t, d') \<Longrightarrow>
   t = Delim c \<and> tokenState d \<in> sts \<and>
   (\<exists>st k. tokenStack d = st # k \<and> tokenState d' = tokenValueEnd st \<and> tokenStack d' = k)"
  by (auto simp: close_token_def split: if_splits list.splits)

lemma scalar_token_Inr:
  "rbind (decode_scalar bs) (\<lambda>(t, r). Inr (t, \<lparr>rest = r, tokenState = st, tokenStack = k\<rparr>)) = Inr (t, d') \<Longrightarrow>
   (\<forall>c. t \<noteq> Delim c) \<and> tokenState d' = st \<and> tokenStack d' = k \<and> (\<exists>r. decode_scalar bs = Inr (t, r))"
  by (auto simp: result_simps dest: decode_scalar_not_delim)

lemmas token_Inr = open_token_Inr close_token_Inr scalar_token_Inr

lemma Token_allowed:
  assumes "tokenState d \<in> {TopValue, ArrayStart, ArrayValue, ObjectValue}"
    and "tokenState d = ArrayStart \<longrightarrow> fst (More d)" and tok: "Token d = Inr (t, d')"
  shows "value_token d t d'"
proof -
  obtain c cs where c: "skip_space (rest d) = c # cs"
    using tok by (cases "skip_space (rest d)") (auto simp: Token.simps)
  have st: "inner_state (tokenState d) = tokenState d" "tokenState d \<notin> {ArrayComma, ObjectStart, ObjectComma, ObjectColon, ObjectKey}"
    using assms(1) by auto
  have nb: "tokenState d = ArrayStart \<Longrightarrow> c \<noteq> b_rbrack"
    using assms(2) c by (simp add: More_True)
  note t = tok [unfolded Token.simps [of d] c list.case]
  show ?thesis
    using t st nb unfolding value_token_def after_value_def
    by (auto dest!: token_Inr split: if_split_asm)
qed

lemma Token_value:
  assumes "value_pos d" and tok: "Token d = Inr (t, d')"
  shows "value_token d t d'"
proof (cases "tokenState d \<in> {TopValue, ArrayStart}")
  case True
  then show ?thesis
    using assms Token_allowed [of d] by (auto simp: value_pos_def)
next
  case False
  then have st: "tokenState d = ArrayComma \<or> tokenState d = ObjectColon"
    using assms by (auto simp: value_pos_def)
  obtain c cs where c: "skip_space (rest d) = c # cs"
    using assms(2) by (cases "skip_space (rest d)") (auto simp: Token.simps)
  have nb: "tokenState d = ArrayComma \<Longrightarrow> c \<noteq> b_rbrack"
    using assms(1) c by (simp add: More_True value_pos_def)
  let ?d = "\<lparr>rest = cs, tokenState = inner_state (tokenState d), tokenStack = tokenStack d\<rparr>"
  note t = tok [unfolded Token.simps [of d] c list.case]
  have "Token ?d = Inr (t, d')"
    using t st nb by (auto simp: tokenValueAllowed_def open_token_def dest!: token_Inr split: if_split_asm)
  then have "value_token ?d t d'"
    using st by (intro Token_allowed) auto
  then show ?thesis
    using st by (auto simp: value_token_def after_value_def)
qed

lemma Token_key:
  assumes st: "tokenState d \<in> {ObjectStart, ObjectComma}" and more: "fst (More d)" and tok: "Token d = Inr (t, d')"
  shows "\<exists>k. t = StringTok k" and "tokenState d' = ObjectColon" and "tokenStack d' = tokenStack d"
proof -
  obtain c cs where c: "skip_space (rest d) = c # cs" "c \<noteq> b_rbrace"
    using more by (auto simp: More_True)
  note t = tok [unfolded Token.simps [of d] c(1) list.case]
  let ?R = "(\<exists>k. t = StringTok k) \<and> tokenState d' = ObjectColon \<and> tokenStack d' = tokenStack d"
  have key: ?R if tk: "Token \<lparr>rest = cs, tokenState = ObjectKey, tokenStack = tokenStack d\<rparr> = Inr (t, d')"
  proof -
    let ?d = "\<lparr>rest = cs, tokenState = ObjectKey, tokenStack = tokenStack d\<rparr>"
    obtain e es where e: "skip_space (rest ?d) = e # es"
      using tk by (cases "skip_space (rest ?d)") (auto simp: Token.simps)
    note t' = tk [unfolded Token.simps [of ?d] e list.case]
    show ?thesis
      using t' by (auto simp: tokenValueAllowed_def open_token_def dest!: token_Inr dest: decode_scalar_quote split: if_split_asm)
  qed
  have ?R
    using t st c(2) key
    by (auto simp: tokenValueAllowed_def open_token_def dest!: token_Inr dest: decode_scalar_quote split: if_split_asm)
  then show "\<exists>k. t = StringTok k" and "tokenState d' = ObjectColon" and "tokenStack d' = tokenStack d"
    by auto
qed

lemma Token_close:
  assumes tok: "Token d = Inr (t, d')" and more: "\<not> fst (More d)"
  shows "tokenState d \<in> {ObjectStart, ObjectComma} \<Longrightarrow> t = Delim b_rbrace"
    and "tokenState d \<in> {ArrayStart, ArrayComma} \<Longrightarrow> t = Delim b_rbrack"
    and "\<exists>st k. tokenStack d = st # k \<and> tokenState d' = tokenValueEnd st \<and> tokenStack d' = k"
proof -
  obtain c cs where c: "skip_space (rest d) = c # cs"
    using tok by (cases "skip_space (rest d)") (auto simp: Token.simps)
  then have cc: "c = b_rbrace \<or> c = b_rbrack"
    using more by (auto simp: More_True)
  note t = tok [unfolded Token.simps [of d] c list.case]
  show "tokenState d \<in> {ObjectStart, ObjectComma} \<Longrightarrow> t = Delim b_rbrace"
    and "tokenState d \<in> {ArrayStart, ArrayComma} \<Longrightarrow> t = Delim b_rbrack"
    and "\<exists>st k. tokenStack d = st # k \<and> tokenState d' = tokenValueEnd st \<and> tokenStack d' = k"
    using t cc by (auto dest!: token_Inr)
qed

section \<open>Errors of the walk\<close>

text \<open>What the walk of a value, and a loop over members or elements, may come to.\<close>

definition value_outcome :: "bytes \<Rightarrow> decoder \<Rightarrow> scan_result \<Rightarrow> bool" where
  "value_outcome raw d r \<longleftrightarrow>
     (case r of
        Inl e \<Rightarrow> lib_error e
      | Inr (d', _) \<Rightarrow> reads raw d' \<and> tokenState d' = after_value (tokenState d) \<and> tokenStack d' = tokenStack d \<and>
          length (rest d') < length (rest d))"

definition loop_outcome :: "bytes \<Rightarrow> token_state set \<Rightarrow> decoder \<Rightarrow> scan_result \<Rightarrow> bool" where
  "loop_outcome raw sts d r \<longleftrightarrow>
     (case r of
        Inl e \<Rightarrow> lib_error e
      | Inr (d', _) \<Rightarrow> reads raw d' \<and> tokenState d' \<in> sts \<and> tokenStack d' = tokenStack d \<and>
          length (rest d') \<le> length (rest d) \<and> \<not> fst (More d'))"

lemma loop_continue:
  assumes "value_outcome raw d2 v" and "tokenStack d2 = tokenStack d" and "length (rest d2) \<le> length (rest d)"
    and next_iter: "\<And>d3 s3. v = Inr (d3, s3) \<Longrightarrow> reads raw d3 \<Longrightarrow> tokenState d3 = after_value (tokenState d2) \<Longrightarrow>
      length (rest d3) < length (rest d2) \<Longrightarrow> loop_outcome raw sts d3 (f d3 s3)"
  shows "loop_outcome raw sts d (rbind v (\<lambda>(d, s). f d s))"
proof (cases v)
  case (Inl e)
  then show ?thesis
    using assms(1) by (simp add: value_outcome_def loop_outcome_def)
next
  case (Inr x)
  obtain d3 s3 where v: "v = Inr (d3, s3)"
    using Inr by (cases x) auto
  then have d3: "reads raw d3" "tokenState d3 = after_value (tokenState d2)" "tokenStack d3 = tokenStack d2"
      "length (rest d3) < length (rest d2)"
    using assms(1) by (simp_all add: value_outcome_def)
  have "loop_outcome raw sts d3 (f d3 s3)"
    using v d3 by (intro next_iter)
  then show ?thesis
    using v d3 assms(2,3) by (auto simp: loop_outcome_def split: sum.splits)
qed

lemma scanObject_outcome:
  assumes scan: "\<And>path d s. reads raw d \<Longrightarrow> value_pos d \<Longrightarrow> length (rest d) < n \<Longrightarrow> value_outcome raw d (scan path d s)"
  shows "reads raw d \<Longrightarrow> tokenState d \<in> {ObjectStart, ObjectComma} \<Longrightarrow> length (rest d) < k \<Longrightarrow> length (rest d) \<le> n \<Longrightarrow>
    loop_outcome raw {ObjectStart, ObjectComma} d (scanObject k scan path d s)"
proof (induction k arbitrary: d s)
  case 0
  then show ?case by simp
next
  case (Suc k)
  obtain b d1 where m: "More d = (b, d1)"
    by (cases "More d")
  have d1: "reads raw d1" "length (rest d1) \<le> length (rest d)" "tokenState d1 = tokenState d"
      "tokenStack d1 = tokenStack d" "fst (More d1) = b"
    using reads_More [OF Suc.prems(1) m] More_state [of d] More_again [of d] by (simp_all add: m)
  show ?case
  proof (cases b)
    case False
    then show ?thesis
      using m d1 Suc.prems by (simp add: loop_outcome_def)
  next
    case True
    show ?thesis
    proof (cases "Token d1")
      case (Inl e)
      then show ?thesis
        using Token_error [OF Inl] m True by (simp add: loop_outcome_def)
    next
      case (Inr r)
      then obtain t d2 where t: "Token d1 = Inr (t, d2)"
        by (cases r) auto
      have d2: "reads raw d2" "length (rest d2) < length (rest d1)"
        using reads_Token [OF d1(1) t] by auto
      obtain key where key: "t = StringTok key" and st: "tokenState d2 = ObjectColon" "tokenStack d2 = tokenStack d"
        using Token_key [OF _ _ t] d1 Suc.prems(2) True by metis
      define v where "v = scan (path @ ''/'' @ escapePointerToken (go_string key)) d2 s"
      have eq: "scanObject (Suc k) scan path d s = rbind v (\<lambda>(d, s). scanObject k scan path d s)"
        using m True t key by (simp add: v_def)
      have "value_outcome raw d2 v"
        unfolding v_def using d2 d1 Suc.prems st by (intro scan) (auto simp: value_pos_def)
      then show ?thesis
        unfolding eq using st d2 d1 Suc.prems
        by (intro loop_continue [of raw d2 v]) (auto simp: after_value_def intro!: Suc.IH)
    qed
  qed
qed

lemma scanArray_outcome:
  assumes scan: "\<And>path d s. reads raw d \<Longrightarrow> value_pos d \<Longrightarrow> length (rest d) < n \<Longrightarrow> value_outcome raw d (scan path d s)"
  shows "reads raw d \<Longrightarrow> tokenState d \<in> {ArrayStart, ArrayComma} \<Longrightarrow> length (rest d) < k \<Longrightarrow> length (rest d) < n \<Longrightarrow>
    loop_outcome raw {ArrayStart, ArrayComma} d (scanArray k scan path index d s)"
proof (induction k arbitrary: d s index)
  case 0
  then show ?case by simp
next
  case (Suc k)
  obtain b d1 where m: "More d = (b, d1)"
    by (cases "More d")
  have d1: "reads raw d1" "length (rest d1) \<le> length (rest d)" "tokenState d1 = tokenState d"
      "tokenStack d1 = tokenStack d" "fst (More d1) = b"
    using reads_More [OF Suc.prems(1) m] More_state [of d] More_again [of d] by (simp_all add: m)
  show ?case
  proof (cases b)
    case False
    then show ?thesis
      using m d1 Suc.prems by (simp add: loop_outcome_def)
  next
    case True
    define v where "v = scan (path @ ''/'' @ itoa index) d1 s"
    have eq: "scanArray (Suc k) scan path index d s = rbind v (\<lambda>(d, s). scanArray k scan path (index + 1) d s)"
      using m True by (simp add: v_def)
    have "value_outcome raw d1 v"
      unfolding v_def using d1 Suc.prems True by (intro scan) (auto simp: value_pos_def)
    moreover have "after_value (tokenState d) = ArrayComma"
      using Suc.prems(2) by (auto simp: after_value_def)
    ultimately show ?thesis
      unfolding eq using d1 Suc.prems
      by (intro loop_continue [of raw d1 v]) (auto intro!: Suc.IH)
  qed
qed

lemma closing_outcome:
  assumes loop: "loop_outcome raw sts d1 r" and d1: "value_token d (Delim c) d1" "length (rest d1) < length (rest d)"
    and sts: "sts \<in> {{ObjectStart, ObjectComma}, {ArrayStart, ArrayComma}}"
    and c: "delim = Delim (if sts = {ObjectStart, ObjectComma} then b_rbrace else b_rbrack)"
  shows "value_outcome raw d (rbind r (\<lambda>(d, s). rbind (Token d) (\<lambda>(stop, d). if stop = delim then Inr (d, s) else Inl e)))"
proof (cases r)
  case (Inl e)
  then show ?thesis
    using loop by (simp add: loop_outcome_def value_outcome_def)
next
  case (Inr x)
  then obtain d2 s2 where r: "r = Inr (d2, s2)"
    by (cases x) auto
  have d2: "reads raw d2" "tokenState d2 \<in> sts" "tokenStack d2 = tokenStack d1" "length (rest d2) \<le> length (rest d1)"
      "\<not> fst (More d2)"
    using loop by (auto simp: r loop_outcome_def)
  show ?thesis
  proof (cases "Token d2")
    case (Inl e)
    then show ?thesis
      using Token_error [OF Inl] by (simp add: r value_outcome_def)
  next
    case (Inr y)
    then obtain t d3 where t: "Token d2 = Inr (t, d3)"
      by (cases y) auto
    have "t = delim"
      using Token_close(1,2) [OF t d2(5)] d2(2) sts c by (auto split: if_splits)
    moreover have "tokenState d3 = after_value (tokenState d)" "tokenStack d3 = tokenStack d"
      using Token_close(3) [OF t d2(5)] d2(3) d1(1) by (auto simp: value_token_def after_value_def)
    ultimately show ?thesis
      using reads_Token [OF d2(1) t] t d2 d1(2) by (simp add: r value_outcome_def)
  qed
qed

lemma scanValue_outcome:
  "reads raw d \<Longrightarrow> value_pos d \<Longrightarrow> length (rest d) < n \<Longrightarrow> value_outcome raw d (scanValue n raw m path d s)"
proof (induction n arbitrary: d s path)
  case 0
  then show ?case by simp
next
  case (Suc n)
  show ?case
  proof (cases "Token d")
    case (Inl e)
    then show ?thesis
      using Token_error [OF Inl] by (simp add: value_outcome_def)
  next
    case (Inr y)
    then obtain t d1 where t: "Token d = Inr (t, d1)"
      by (cases y) auto
    note d1 = reads_Token [OF Suc.prems(1) t] and vt = Token_value [OF Suc.prems(2) t]
    show ?thesis
    proof (cases t)
      case (Delim c)
      then consider "c = b_lbrace" "tokenState d1 = ObjectStart" | "c = b_lbrack" "tokenState d1 = ArrayStart"
        using vt by (auto simp: value_token_def)
      then show ?thesis
      proof cases
        case 1
        have "loop_outcome raw {ObjectStart, ObjectComma} d1 (scanObject n (scanValue n raw m) path d1 s)"
          using d1 Suc.prems 1 by (intro scanObject_outcome [where n = n] Suc.IH) auto
        then have "value_outcome raw d (rbind (scanObject n (scanValue n raw m) path d1 s) (\<lambda>(d, s).
            rbind (Token d) (\<lambda>(stop, d). if stop = Delim b_rbrace then Inr (d, s) else Inl ObjectEndedWith)))"
          using vt d1 Delim by (intro closing_outcome [where sts = "{ObjectStart, ObjectComma}"]) auto
        then show ?thesis
          using t Delim 1 by (simp add: Let_def)
      next
        case 2
        have "loop_outcome raw {ArrayStart, ArrayComma} d1 (scanArray n (scanValue n raw m) path 0 d1 s)"
          using d1 Suc.prems 2 by (intro scanArray_outcome [where n = n] Suc.IH) auto
        then have "value_outcome raw d (rbind (scanArray n (scanValue n raw m) path 0 d1 s) (\<lambda>(d, s).
            rbind (Token d) (\<lambda>(stop, d). if stop = Delim b_rbrack then Inr (d, s) else Inl ArrayEndedWith)))"
          using vt d1 Delim by (intro closing_outcome [where sts = "{ArrayStart, ArrayComma}"]) auto
        then show ?thesis
          using t Delim 2 by (simp add: Let_def)
      qed
    next
      case (StringTok k)
      obtain a b where "rawStringBounds raw (InputOffset raw d) (InputOffset raw d1) = Some (a, b)"
        using string_token_bounds [OF Suc.prems(1)] t StringTok by metis
      then show ?thesis
        using t StringTok d1 vt by (simp add: value_outcome_def value_token_def Let_def)
    next
      case (ScalarTok k)
      then show ?thesis
        using t d1 vt by (simp add: value_outcome_def value_token_def Let_def)
    qed
  qed
qed

section \<open>Properties\<close>

lemma reads_NewDecoder: "reads raw (NewDecoder raw)"
  by (simp add: reads_def NewDecoder_def)

lemma spans_sound:
  assumes "FindStringSpans data minRawBytes = Inr spans"
  shows "sorted_wrt (\<lambda>a b. End a \<le> Start b) spans \<and>
    (\<forall>s\<in>set spans. Start s < End s \<and> End s \<le> length data \<and>
       json_string (slice (Start s) (End s) data) \<and> minRawBytes \<le> int (End s - Start s))"
proof -
  define r where "r = scanValue (length data + 1) data minRawBytes [] (NewDecoder data) []"
  have eq: "rbind r (\<lambda>(d, spans).
      case Token d of Inr _ \<Rightarrow> Inl ErrMultipleValues | Inl EOF \<Rightarrow> Inr spans | Inl e \<Rightarrow> Inl e) = Inr spans"
    using assms unfolding FindStringSpans_def r_def .
  obtain d where "r = Inr (d, spans)"
    using eq by (cases r) (auto split: sum.splits json_error.splits)
  then have "scanValue (length data + 1) data minRawBytes [] (NewDecoder data) [] = Inr (d, spans)"
    unfolding r_def .
  from scanValue_run [OF this] have "scan_inv data minRawBytes (d, spans)"
    by (rule scan_run_inv) (simp add: scan_inv_def reads_NewDecoder spans_ok_def)
  then show ?thesis
    by (auto simp: scan_inv_def spans_ok_def good_span_def)
qed

text \<open>C31: A successful search reports ranges of the record in ascending order and pairwise disjoint, each of
  which is the complete quoted text of a JSON string of at least the wanted number of bytes.\<close>

theorem FindStringSpans_sound:
  assumes "FindStringSpans data minRawBytes = Inr spans"
  shows "sorted_wrt (\<lambda>a b. End a \<le> Start b) spans \<and>
    (\<forall>s\<in>set spans. Start s < End s \<and> End s \<le> length data \<and>
       json_string (slice (Start s) (End s) data) \<and> minRawBytes \<le> int (End s - Start s))"
  using assms by (rule spans_sound)

lemma FindStringSpans_example:
  "FindStringSpans [91, 34, 97, 98, 34, 44, 49, 93] 2 = Inr [\<lparr>Path = ''/0'', Start = 1, End = 5\<rparr>]"
  by code_simp

theorem FindStringSpans_sound_witness:
  "json_string (slice 1 5 [91, 34, 97, 98, 34, 44, 49, 93])"
  using FindStringSpans_sound [OF FindStringSpans_example] by simp

text \<open>The search ends within its fuel, and its defensive checks never fire: the only errors are those of the
  JSON library and the error for a record with more than one value.\<close>

theorem FindStringSpans_errors:
  "FindStringSpans data minRawBytes = Inl e \<Longrightarrow> e \<in> {EOF, UnexpectedEOF, SyntaxError, ErrMultipleValues}"
proof -
  assume *: "FindStringSpans data minRawBytes = Inl e"
  define r where "r = scanValue (length data + 1) data minRawBytes [] (NewDecoder data) []"
  have eq: "rbind r (\<lambda>(d, spans).
      case Token d of Inr _ \<Rightarrow> Inl ErrMultipleValues | Inl EOF \<Rightarrow> Inr spans | Inl e \<Rightarrow> Inl e) = Inl e"
    using * unfolding FindStringSpans_def r_def .
  have "value_pos (NewDecoder data)" "length (rest (NewDecoder data)) < length data + 1"
    by (simp_all add: value_pos_def NewDecoder_def)
  then have ok: "value_outcome data (NewDecoder data) r"
    unfolding r_def by (rule scanValue_outcome [OF reads_NewDecoder])
  show ?thesis
  proof (cases r)
    case (Inl e')
    then show ?thesis
      using ok eq by (auto simp: value_outcome_def lib_error_def)
  next
    case (Inr x)
    obtain d s where x: "x = (d, s)"
      by (cases x)
    show ?thesis
    proof (cases "Token d")
      case (Inl e')
      then show ?thesis
        using eq Inr x Token_error [OF Inl] by (auto simp: lib_error_def)
    next
      case t: (Inr y)
      then show ?thesis
        using eq Inr x by simp
    qed
  qed
qed

theorem FindStringSpans_errors_witness:
  "EOF \<in> {EOF, UnexpectedEOF, SyntaxError, ErrMultipleValues}"
proof -
  have "FindStringSpans [] 2 = Inl EOF"
    by code_simp
  then show ?thesis
    by (rule FindStringSpans_errors)
qed

text \<open>JSON pointer tokens are unambiguous: an escaped key contains no separator, and different keys have
  different tokens, so that two members of an object never share a path.\<close>

theorem escapePointerToken_unambiguous:
  "CHR ''/'' \<notin> set (escapePointerToken a) \<and> (escapePointerToken a = escapePointerToken b \<longleftrightarrow> a = b)"
proof
  show "CHR ''/'' \<notin> set (escapePointerToken a)"
    by (induction a) auto
  have "escapePointerToken x = escapePointerToken y \<Longrightarrow> x = y" for x y
  proof (induction x arbitrary: y)
    case Nil
    then show ?case by (cases y) (auto split: if_splits)
  next
    case (Cons c x)
    then show ?case by (cases y) (auto split: if_splits)
  qed
  then show "escapePointerToken a = escapePointerToken b \<longleftrightarrow> a = b"
    by auto
qed

end
