(* ===== verification/Bufio.thy ===== *)
theory Bufio
  imports Jsonraw
begin

text \<open>\<open>bufio.Reader.ReadSlice('\n')\<close> of Go's standard library, on the bytes still to be read and with a buffer of \<open>n\<close>
  bytes: a line with its end, a full buffer, or what is left at the end of the input.\<close>

datatype slice_end = Delimited | BufferFull | SliceEOF

definition ReadSlice :: "nat \<Rightarrow> bytes \<Rightarrow> bytes \<times> slice_end \<times> bytes" where
  "ReadSlice n bs =
     (case index_byte 10 (take n bs) of
        Some i \<Rightarrow> (take (i + 1) bs, Delimited, drop (i + 1) bs)
      | None \<Rightarrow> if n \<le> length bs then (take n bs, BufferFull, drop n bs) else (bs, SliceEOF, []))"

text \<open>The size of the buffers the program reads rollouts with.\<close>

definition read_buffer :: nat where
  "read_buffer = 1048576"

lemma index_byte_less: "index_byte c bs = Some i \<Longrightarrow> i < length bs"
  by (induction bs arbitrary: i) (auto split: if_splits)

lemma ReadSlice_consumes:
  "ReadSlice (Suc n) input = (fragment, how, input') \<Longrightarrow> how \<noteq> SliceEOF \<Longrightarrow> length input' < length input"
  by (auto simp: ReadSlice_def dest!: index_byte_less split: option.splits if_splits)

lemma ReadSlice_split: "ReadSlice n input = (fragment, how, input') \<Longrightarrow> input = fragment @ input' \<and> (how = SliceEOF \<longrightarrow> input' = [])"
  by (auto simp: ReadSlice_def split: option.splits if_splits)

end
