(* ===== verification/Fold_Engine.thy ===== *)
theory Fold_Engine
  imports Unfold Cdc Bufio
begin

text \<open>
  Folding a rollout, \<open>src/internal/fold/fold.go\<close>: the rollout is read line by line, each line is cut into
  long string fields, promoted duplicate records and residual chunks, every part is stored under its
  digest, and the manifest is committed after the source and the stored parts have been verified
  again. The rollout may change while it is read: what the process observes of it (the first
  \<open>Stat\<close>, the bytes read, the later \<open>Stat\<close> results and the second read) is a record of its own.
\<close>

section \<open>Options, state and errors\<close>

record fold_options =
  Opaque :: bool
  FoldStoreDir :: string
  ManifestPathOverride :: string
  Apply :: bool
  FoldOverwrite :: bool
  RemoveSource :: bool
  AllowActive :: bool
  OptFieldThreshold :: int64
  OptMaxJSONLineBytes :: int64
  CDC :: cdc_options
  ExistingReader :: "object_reader option"
  RecordIndex :: "(bytes \<Rightarrow> int64 \<Rightarrow> bool option) option"
  OptRecordThreshold :: int64

datatype fold_error =
    StoreDirRequired | RemoveNeedsApply | RefuseActive | OverrideOutside | FoldManifestExists string
  | OpenRollout | EstimateNegative | EstimateOverflow | FoldBudget budget_error | StoreLocked
  | FoldCDC cdc_error | FoldObject object_error | RecordIndexFailed | ComponentOverflow
  | SegmentationFailed | StatAfter | RolloutChanged | RereadFailed | SourceChanged verify_error
  | FoldVerify verify_error | FoldManifest manifest_error

record fold_state =
  fparts :: "part list"
  fworld :: fs
  fstore :: object_store
  reconstruction :: bytes
  FieldParts :: nat
  ResidualParts :: nat
  RecordParts :: nat
  UniqueObjects :: nat
  ReusedObjects :: nat
  NewStoredBytes :: int64
  OversizedLines :: nat
  InvalidJSONLines :: nat

definition new_state :: "fs \<Rightarrow> string \<Rightarrow> fold_state" where
  "new_state w storeDir =
     \<lparr>fparts = [], fworld = w, fstore = NewObjectStore storeDir, reconstruction = [], FieldParts = 0, ResidualParts = 0,
      RecordParts = 0, UniqueObjects = 0, ReusedObjects = 0, NewStoredBytes = 0, OversizedLines = 0, InvalidJSONLines = 0\<rparr>"

definition existing_has :: "fold_options \<Rightarrow> object_ref \<Rightarrow> bool" where
  "existing_has opts ref = (case ExistingReader opts of Some r \<Rightarrow> reader_has r ref | None \<Rightarrow> False)"

definition put_object :: "zstd \<Rightarrow> bytes \<Rightarrow> bool \<Rightarrow> fold_state \<Rightarrow> fold_error + (object_ref \<times> bool \<times> fold_state)" where
  "put_object z data apply_it st =
     (case Put z data apply_it (fworld st, fstore st) of
        Inl e \<Rightarrow> Inl (FoldObject e)
      | Inr (ref, reused, w, s) \<Rightarrow> Inr (ref, reused, st\<lparr>fworld := w, fstore := s\<rparr>))"

section \<open>Parts\<close>

definition count_part :: "string \<Rightarrow> fold_state \<Rightarrow> fold_state" where
  "count_part kind st =
     (if kind = PartField then st\<lparr>FieldParts := FieldParts st + 1\<rparr>
      else if kind = PartRecord then st\<lparr>RecordParts := RecordParts st + 1\<rparr>
      else st\<lparr>ResidualParts := ResidualParts st + 1\<rparr>)"

definition count_object :: "bool \<Rightarrow> object_ref \<Rightarrow> fold_state \<Rightarrow> fold_state" where
  "count_object reused ref st =
     (if reused then st\<lparr>ReusedObjects := ReusedObjects st + 1\<rparr>
      else st\<lparr>UniqueObjects := UniqueObjects st + 1, NewStoredBytes := NewStoredBytes st + StoredBytes ref\<rparr>)"

definition appendPart :: "zstd \<Rightarrow> fold_options \<Rightarrow> string \<Rightarrow> string \<Rightarrow> bytes \<Rightarrow> fold_state \<Rightarrow> fold_error + fold_state" where
  "appendPart z opts kind path data st =
     (if data = [] then Inr st
      else let ref = \<lparr>SHA256 = sha256_hex data, RawBytes = int (length data), StoredBytes = 0\<rparr>
      in rbind (if existing_has opts ref then Inr (ref, True, st) else put_object z data (Apply opts) st) (\<lambda>(ref, reused, st).
           Inr (count_object reused ref (count_part kind
             (st\<lparr>fparts := fparts st @ [\<lparr>PartKind = kind, JSONPath = path, Object = ref\<rparr>],
                reconstruction := reconstruction st @ data\<rparr>)))))"

definition residual_emit :: "zstd \<Rightarrow> fold_options \<Rightarrow> chunk \<Rightarrow> fold_state \<Rightarrow> fold_error + fold_state" where
  "residual_emit z opts c st = appendPart z opts PartResidual '''' (Data c) st"

section \<open>Planned components of a record\<close>

record planned_part =
  pkind :: string
  ppath :: string
  pdata :: bytes

definition plan_emit :: "chunk \<Rightarrow> planned_part list \<Rightarrow> fold_error + planned_part list" where
  "plan_emit c parts = Inr (parts @ [\<lparr>pkind = PartResidual, ppath = '''', pdata = Data c\<rparr>])"

primrec plan_spans :: "bytes \<Rightarrow> nat \<Rightarrow> string_span list \<Rightarrow> chunker \<Rightarrow> planned_part list \<Rightarrow> fold_error + (chunker \<times> planned_part list)" where
  "plan_spans line cursor [] c parts =
     rbind (Write plan_emit c parts (drop cursor line)) (\<lambda>(c, parts). Finish plan_emit c parts)"
| "plan_spans line cursor (sp # sps) c parts =
     rbind (Write plan_emit c parts (slice cursor (Start sp) line)) (\<lambda>(c, parts).
       rbind (Finish plan_emit c parts) (\<lambda>(c, parts).
         plan_spans line (End sp) sps c
           (parts @ [\<lparr>pkind = PartField, ppath = Path sp, pdata = slice (Start sp) (End sp) line\<rparr>])))"

definition planRecordComponents :: "bytes \<Rightarrow> fold_options \<Rightarrow> fold_error + planned_part list" where
  "planRecordComponents line opts =
     (case New (CDC opts) (Some plan_emit) of
        Inl e \<Rightarrow> Inl (FoldCDC e)
      | Inr c \<Rightarrow>
          (case FindStringSpans line (OptFieldThreshold opts) of
             Inl _ \<Rightarrow>
               rbind (Write plan_emit c [] line) (\<lambda>(c, parts).
                 rbind (Finish plan_emit c parts) (\<lambda>(c, parts). Inr parts))
           | Inr spans \<Rightarrow> rbind (plan_spans line 0 spans c []) (\<lambda>(c, parts). Inr parts)))"

primrec plannedStorageCost :: "zstd \<Rightarrow> fold_options \<Rightarrow> planned_part list \<Rightarrow> int64 \<Rightarrow> fold_state \<Rightarrow> fold_error + (int64 \<times> fold_state)" where
  "plannedStorageCost z opts [] tot st = Inr (tot, st)"
| "plannedStorageCost z opts (p # ps) tot st =
     rbind (put_object z (pdata p) False st) (\<lambda>(ref, _, st).
       if HasObject (fworld st) (fstore st) ref \<or> existing_has opts ref then plannedStorageCost z opts ps tot st
       else if tot > wrap64 (maxInt64 - StoredBytes ref) then Inl ComponentOverflow
       else plannedStorageCost z opts ps (wrap64 (tot + StoredBytes ref)) st)"

section \<open>Lines\<close>

type_synonym engine = "chunker \<times> fold_state"

definition write_residual :: "zstd \<Rightarrow> fold_options \<Rightarrow> bytes \<Rightarrow> engine \<Rightarrow> fold_error + engine" where
  "write_residual z opts data e = Write (residual_emit z opts) (fst e) (snd e) data"

definition flushResidual :: "zstd \<Rightarrow> fold_options \<Rightarrow> engine \<Rightarrow> fold_error + engine" where
  "flushResidual z opts e = Finish (residual_emit z opts) (fst e) (snd e)"

definition append_to :: "zstd \<Rightarrow> fold_options \<Rightarrow> string \<Rightarrow> string \<Rightarrow> bytes \<Rightarrow> engine \<Rightarrow> fold_error + engine" where
  "append_to z opts kind path data e = rbind (appendPart z opts kind path data (snd e)) (\<lambda>st. Inr (fst e, st))"

primrec write_spans :: "zstd \<Rightarrow> fold_options \<Rightarrow> bytes \<Rightarrow> nat \<Rightarrow> string_span list \<Rightarrow> engine \<Rightarrow> fold_error + engine" where
  "write_spans z opts line cursor [] e = write_residual z opts (drop cursor line) e"
| "write_spans z opts line cursor (sp # sps) e =
     rbind (write_residual z opts (slice cursor (Start sp) line) e) (\<lambda>e.
       rbind (flushResidual z opts e) (\<lambda>e.
         rbind (append_to z opts PartField (Path sp) (slice (Start sp) (End sp) line) e) (\<lambda>e.
           write_spans z opts line (End sp) sps e)))"

definition split_line :: "zstd \<Rightarrow> fold_options \<Rightarrow> bytes \<Rightarrow> engine \<Rightarrow> fold_error + engine" where
  "split_line z opts line e =
     (case FindStringSpans line (OptFieldThreshold opts) of
        Inl _ \<Rightarrow> write_residual z opts line (fst e, (snd e)\<lparr>InvalidJSONLines := InvalidJSONLines (snd e) + 1\<rparr>)
      | Inr spans \<Rightarrow> write_spans z opts line 0 spans e)"

text \<open>Whether a duplicate record is worth an object of its own; the state changes by the estimates it caches.\<close>

definition worth_promoting :: "zstd \<Rightarrow> fold_options \<Rightarrow> bytes \<Rightarrow> fold_state \<Rightarrow> fold_error + (bool \<times> fold_state)" where
  "worth_promoting z opts line st =
     rbind (planRecordComponents line opts) (\<lambda>components.
       rbind (plannedStorageCost z opts components 0 st) (\<lambda>(componentCost, st).
         rbind (put_object z line False st) (\<lambda>(recordRef, _, st).
           let recordReused = HasObject (fworld st) (fstore st) recordRef \<or> existing_has opts recordRef;
               recordCost = (if recordReused then 0 else StoredBytes recordRef);
               worth = recordReused \<or> (componentCost > 0 \<and> recordCost \<le> componentCost div 2)
           in Inr (length components > 1 \<and> worth, st))))"

definition processLine :: "zstd \<Rightarrow> fold_options \<Rightarrow> bytes \<Rightarrow> engine \<Rightarrow> fold_error + engine" where
  "processLine z opts line e =
     (case RecordIndex opts of
        None \<Rightarrow> split_line z opts line e
      | Some isDuplicateRecord \<Rightarrow>
          if int (length line) \<ge> OptRecordThreshold opts then
            (case isDuplicateRecord (sha256 line) (int (length line)) of
               None \<Rightarrow> Inl RecordIndexFailed
             | Some False \<Rightarrow> split_line z opts line e
             | Some True \<Rightarrow>
                 rbind (worth_promoting z opts line (snd e)) (\<lambda>(promote, st).
                   if promote then
                     rbind (flushResidual z opts (fst e, st)) (\<lambda>e. append_to z opts PartRecord '''' line e)
                   else split_line z opts line (fst e, st)))
          else split_line z opts line e)"

section \<open>The reading loop\<close>

record line_state =
  line :: bytes
  oversized :: bool

definition add_fragment :: "zstd \<Rightarrow> fold_options \<Rightarrow> bytes \<Rightarrow> line_state \<times> engine \<Rightarrow> fold_error + (line_state \<times> engine)" where
  "add_fragment z opts fragment le =
     (case le of (l, e) \<Rightarrow>
        if fragment = [] then Inr (l, e)
        else if oversized l then rbind (write_residual z opts fragment e) (\<lambda>e. Inr (l, e))
        else if int (length (line l) + length fragment) > OptMaxJSONLineBytes opts then
          rbind (write_residual z opts (line l) (fst e, (snd e)\<lparr>OversizedLines := OversizedLines (snd e) + 1\<rparr>)) (\<lambda>e.
            rbind (write_residual z opts fragment e) (\<lambda>e. Inr (\<lparr>line = [], oversized = True\<rparr>, e)))
        else Inr (l\<lparr>line := line l @ fragment\<rparr>, e))"

function read_loop :: "zstd \<Rightarrow> fold_options \<Rightarrow> nat \<Rightarrow> bytes \<Rightarrow> line_state \<times> engine \<Rightarrow> fold_error + engine" where
  "read_loop z opts n input le =
     (case ReadSlice (Suc n) input of (fragment, how, input') \<Rightarrow>
        rbind (add_fragment z opts fragment le) (\<lambda>(l, e).
          case how of
            Delimited \<Rightarrow>
              rbind (if oversized l then Inr e else processLine z opts (line l) e) (\<lambda>e.
                read_loop z opts n input' (\<lparr>line = [], oversized = Opaque opts\<rparr>, e))
          | BufferFull \<Rightarrow> read_loop z opts n input' (l, e)
          | SliceEOF \<Rightarrow>
              rbind (if \<not> oversized l \<and> line l \<noteq> [] then processLine z opts (line l) e else Inr e) (flushResidual z opts)))"
  by pat_completeness auto

termination
  by (relation "measure (\<lambda>(_, _, _, input, _). length input)") (auto dest!: ReadSlice_consumes [OF sym])

declare read_loop.simps [simp del]

section \<open>The whole fold\<close>

text \<open>Lines 82--111: guards and defaults of the options, and the manifest path.\<close>

definition default_options :: "fold_options \<Rightarrow> fold_options" where
  "default_options opts =
     (let opts = (if OptFieldThreshold opts \<le> 0 then opts\<lparr>OptFieldThreshold := 4 * 1024\<rparr> else opts);
          opts = (if OptMaxJSONLineBytes opts \<le> 0 then opts\<lparr>OptMaxJSONLineBytes := 32 * 1024 * 1024\<rparr> else opts);
          opts = (if MinBytes (CDC opts) \<le> 0
                  then opts\<lparr>CDC := \<lparr>MinBytes = 4 * 1024, AverageBytes = 16 * 1024, MaxBytes = 64 * 1024\<rparr>\<rparr> else opts)
      in if OptRecordThreshold opts \<le> 0
         then opts\<lparr>OptRecordThreshold := max (OptFieldThreshold opts) (MinBytes (CDC opts))\<rparr> else opts)"

definition fold_manifest_path :: "fold_options \<Rightarrow> string \<Rightarrow> fold_error + string" where
  "fold_manifest_path opts sessionID =
     (if ManifestPathOverride opts = '''' then Inr (ManifestPath (FoldStoreDir opts) sessionID)
      else let manifestPath = path_clean (ManifestPathOverride opts);
               manifestRoot = path_join [FoldStoreDir opts, ''manifests'']
           in case path_rel manifestRoot manifestPath of
                None \<Rightarrow> Inl OverrideOutside
              | Some relative \<Rightarrow>
                  if relative = ''..'' \<or> has_prefix ''../'' relative then Inl OverrideOutside else Inr manifestPath)"

definition fold_guards :: "manifest_session \<Rightarrow> fold_options \<Rightarrow> fold_error + unit" where
  "fold_guards session opts =
     (if FoldStoreDir opts = '''' then Inl StoreDirRequired
      else if RemoveSource opts \<and> \<not> Apply opts then Inl RemoveNeedsApply
      else if RemoveSource opts \<and> \<not> Archived session \<and> \<not> AllowActive opts then Inl RefuseActive
      else Inr ())"

definition estimateFoldStorageBytes :: "int64 \<Rightarrow> fold_error + int64" where
  "estimateFoldStorageBytes rawBytes =
     (if rawBytes < 0 then Inl EstimateNegative
      else let overhead = wrap64 (rawBytes div 16 + 1048576)
           in if rawBytes > wrap64 (maxInt64 - overhead) then Inl EstimateOverflow
              else Inr (wrap64 (rawBytes + overhead)))"

text \<open>Lines 134--170: the budget and the lock of the object store.\<close>

definition fold_admit :: "(projection \<Rightarrow> budget_error + assessment) \<Rightarrow> bool \<Rightarrow> fold_options \<Rightarrow> file_info \<Rightarrow> fold_error + unit" where
  "fold_admit check lock_free opts before =
     (if \<not> Apply opts then Inr ()
      else rbind (estimateFoldStorageBytes (Size before)) (\<lambda>persistentBytes.
        rbind (estimateFoldStorageBytes (min (Size before) (max (MaxBytes (CDC opts)) (OptMaxJSONLineBytes opts)))) (\<lambda>temporaryBytes.
          case check \<lparr>Operation = ''fold'', AdditionalPersistentBytes = persistentBytes, TemporaryBytes = temporaryBytes,
                 TemporaryPersistentOverlapBytes = min temporaryBytes persistentBytes,
                 ReclaimableBytes = (if RemoveSource opts then Size before else 0)\<rparr> of
            Inl e \<Rightarrow> Inl (FoldBudget e)
          | Inr _ \<Rightarrow> if lock_free then Inr () else Inl StoreLocked)))"

text \<open>What the process sees of the rollout: the open file's first \<open>Stat\<close>, the bytes read from it, the \<open>Stat\<close> of its path
  after reading, the bytes of the second read and the \<open>Stat\<close> after that.\<close>

record rollout_view =
  before :: file_info
  seen :: bytes
  after_read :: "file_info option"
  reread :: "bytes option"
  after_reread :: "file_info option"

definition verifyCurrentSource :: "rollout_view \<Rightarrow> manifest_source \<Rightarrow> fold_error + unit" where
  "verifyCurrentSource v source =
     (case reread v of
        None \<Rightarrow> Inl RereadFailed
      | Some bytes \<Rightarrow>
          (case after_reread v of
             None \<Rightarrow> Inl StatAfter
           | Some info \<Rightarrow>
               if \<not> same_info (before v) info then Inl RolloutChanged
               else case verifySourceDigest bytes source of
                      Inl e \<Rightarrow> Inl (SourceChanged e)
                    | Inr _ \<Rightarrow> Inr ()))"

record fold_result =
  ResSessionID :: string
  SourcePath :: string
  ResManifestPath :: string
  SourceBytes :: int64
  SourceDigest :: string
  PartCount :: nat
  ResFieldParts :: nat
  ResResidualParts :: nat
  ResRecordParts :: nat
  ResUniqueObjects :: nat
  ResReusedObjects :: nat
  ResNewStoredBytes :: int64
  ResOversizedLines :: nat
  ResInvalidJSONLines :: nat
  ResVerified :: bool
  DryRun :: bool
  RemovedSource :: bool

definition fold_manifest :: "manifest_session \<Rightarrow> fold_options \<Rightarrow> string \<Rightarrow> part list \<Rightarrow> bytes \<Rightarrow> manifest" where
  "fold_manifest session opts now parts source =
     \<lparr>Version = (if RecordIndex opts = None then ManifestVersion else ManifestVersionV2),
      Kind = (if RecordIndex opts = None then ManifestKind else ManifestKindV2),
      CreatedAt = now, Session = session,
      Source = \<lparr>Bytes = int (length source), SourceSHA256 = sha256_hex source\<rparr>,
      Settings = \<lparr>FieldThreshold = OptFieldThreshold opts, MaxJSONLineBytes = OptMaxJSONLineBytes opts,
        CDCMinBytes = MinBytes (CDC opts), CDCAverageBytes = AverageBytes (CDC opts), CDCMaxBytes = MaxBytes (CDC opts),
        Compression = ''zstd'', RecordThreshold = OptRecordThreshold opts\<rparr>,
      Parts = parts\<rparr>"

definition fold_reader :: "zstd \<Rightarrow> fold_options \<Rightarrow> fs \<Rightarrow> object_store \<Rightarrow> object_reader" where
  "fold_reader z opts w s =
     (case ExistingReader opts of
        None \<Rightarrow> store_reader z w s
      | Some r \<Rightarrow> fallbackObjectReader (store_reader z w s) r)"

text \<open>Lines 371--419: everything after the last byte has been read.\<close>

definition fold_commit ::
    "zstd \<Rightarrow> (string \<Rightarrow> bool) \<Rightarrow> manifest_session \<Rightarrow> fold_options \<Rightarrow> string \<Rightarrow> string \<Rightarrow> rollout_view \<Rightarrow> fold_state \<Rightarrow>
     fold_error + (fold_result \<times> manifest \<times> fs)" where
  "fold_commit z sync_ok session opts now manifestPath v st =
     (let m = fold_manifest session opts now (fparts st) (seen v);
          result = \<lparr>ResSessionID = ID session, SourcePath = RolloutPath session, ResManifestPath = manifestPath,
            SourceBytes = int (length (seen v)), SourceDigest = sha256_hex (seen v), PartCount = length (fparts st),
            ResFieldParts = FieldParts st, ResResidualParts = ResidualParts st, ResRecordParts = RecordParts st,
            ResUniqueObjects = UniqueObjects st, ResReusedObjects = ReusedObjects st, ResNewStoredBytes = NewStoredBytes st,
            ResOversizedLines = OversizedLines st, ResInvalidJSONLines = InvalidJSONLines st, ResVerified = True, DryRun = (\<not> Apply opts), RemovedSource = False\<rparr>
      in if \<not> (length (reconstruction st) = length (seen v) \<and> sha256_hex (reconstruction st) = sha256_hex (seen v))
         then Inl SegmentationFailed
         else case after_read v of
                None \<Rightarrow> Inl StatAfter
              | Some info \<Rightarrow>
                  if \<not> same_info (before v) info then Inl RolloutChanged
                  else rbind (verifyCurrentSource v (Source m)) (\<lambda>_.
                    if \<not> Apply opts then Inr (result, m, fworld st)
                    else case verifyStoredManifest (reader_fetch (fold_reader z opts (fworld st) (fstore st))) m of
                           Inl e \<Rightarrow> Inl (FoldVerify e)
                         | Inr _ \<Rightarrow>
                             (case SyncPending sync_ok (fstore st) of
                                Inl e \<Rightarrow> Inl (FoldObject e)
                              | Inr s \<Rightarrow>
                                  (case writeManifestPath manifestPath m (FoldOverwrite opts) (fworld st) of
                                     Inl e \<Rightarrow> Inl (FoldManifest e)
                                   | Inr w \<Rightarrow>
                                       if RemoveSource opts
                                       then Inr (result\<lparr>RemovedSource := True\<rparr>, m, remove_file (RolloutPath session) w)
                                       else Inr (result, m, w)))))"

definition Fold ::
    "zstd \<Rightarrow> (projection \<Rightarrow> budget_error + assessment) \<Rightarrow> bool \<Rightarrow> (string \<Rightarrow> bool) \<Rightarrow> string \<Rightarrow> manifest_session \<Rightarrow> fold_options \<Rightarrow>
     rollout_view option \<Rightarrow> fs \<Rightarrow> fold_error + (fold_result \<times> manifest \<times> fs)" where
  "Fold z check lock_free sync_ok now session opts0 view w =
     rbind (fold_guards session opts0) (\<lambda>_.
       let opts = default_options opts0
       in rbind (fold_manifest_path opts (ID session)) (\<lambda>manifestPath.
            if Apply opts \<and> \<not> FoldOverwrite opts \<and> Stat w manifestPath \<noteq> None then Inl (FoldManifestExists manifestPath)
            else case view of
                   None \<Rightarrow> Inl OpenRollout
                 | Some v \<Rightarrow>
                     rbind (fold_admit check lock_free opts (before v)) (\<lambda>_.
                       case New (CDC opts) (Some (residual_emit z opts)) of
                         Inl e \<Rightarrow> Inl (FoldCDC e)
                       | Inr c \<Rightarrow>
                           rbind (read_loop z opts (read_buffer - 1) (seen v)
                                    (\<lparr>line = [], oversized = Opaque opts\<rparr>, c, new_state w (FoldStoreDir opts))) (\<lambda>(c, st).
                             fold_commit z sync_ok session opts now manifestPath v st))))"

section \<open>Segmentation loses nothing\<close>

lemma put_object_keeps:
  "put_object z data a st = Inr (ref, reused, st') \<Longrightarrow>
   reconstruction st' = reconstruction st \<and> fparts st' = fparts st"
  by (auto simp: put_object_def split: sum.splits)

lemma count_keeps [simp]:
  "reconstruction (count_part k st) = reconstruction st" "fparts (count_part k st) = fparts st"
  "fworld (count_part k st) = fworld st" "fstore (count_part k st) = fstore st"
  "reconstruction (count_object b r st) = reconstruction st" "fparts (count_object b r st) = fparts st"
  "fworld (count_object b r st) = fworld st" "fstore (count_object b r st) = fstore st"
  by (simp_all add: count_part_def count_object_def)

lemma appendPart_reconstruction:
  "appendPart z opts kind path data st = Inr st' \<Longrightarrow> reconstruction st' = reconstruction st @ data"
  by (auto simp: appendPart_def Let_def result_simps dest: put_object_keeps split: if_splits)

interpretation residual: chunk_sink "residual_emit z opts" reconstruction for z opts
  by unfold_locales (auto simp: residual_emit_def dest: appendPart_reconstruction)

definition planned_bytes :: "planned_part list \<Rightarrow> bytes" where
  "planned_bytes ps = concat (map pdata ps)"

interpretation plan: chunk_sink plan_emit planned_bytes
  by unfold_locales (auto simp: plan_emit_def planned_bytes_def)

text \<open>Everything the engine has taken in: the parts and what the chunker still holds.\<close>

definition taken :: "engine \<Rightarrow> bytes" where
  "taken e = reconstruction (snd e) @ chunk_buf (fst e)"

lemma write_residual_taken: "write_residual z opts data e = Inr e' \<Longrightarrow> taken e' = taken e @ data"
  using residual.Write_written [of z opts "fst e" "snd e" data "fst e'" "snd e'"]
  by (simp add: write_residual_def taken_def)

lemma flushResidual_taken: "flushResidual z opts e = Inr e' \<Longrightarrow> taken e' = taken e \<and> chunk_buf (fst e') = []"
  using residual.Finish_written [of z opts "fst e" "snd e" "fst e'" "snd e'"]
  by (simp add: flushResidual_def taken_def)

lemma append_to_taken:
  "append_to z opts kind path data e = Inr e' \<Longrightarrow> chunk_buf (fst e) = [] \<Longrightarrow> taken e' = taken e @ data"
  by (auto simp: append_to_def taken_def result_simps dest: appendPart_reconstruction)

lemma slice_drop: "i \<le> j \<Longrightarrow> slice i j xs @ drop j xs = drop i xs"
  by (metis drop_drop le_add_diff_inverse2 append_take_drop_id slice_def)

lemma write_spans_taken:
  "sorted_wrt (\<lambda>a b. End a \<le> Start b) spans \<Longrightarrow> \<forall>s\<in>set spans. cursor \<le> Start s \<and> Start s < End s \<Longrightarrow>
   write_spans z opts ln cursor spans e = Inr e' \<Longrightarrow> taken e' = taken e @ drop cursor ln"
proof (induction spans arbitrary: cursor e)
  case Nil
  then show ?case by (simp add: write_residual_taken)
next
  case (Cons sp sps)
  then obtain e1 e2 e3 where e1: "write_residual z opts (slice cursor (Start sp) ln) e = Inr e1"
      and e2: "flushResidual z opts e1 = Inr e2"
      and e3: "append_to z opts PartField (Path sp) (slice (Start sp) (End sp) ln) e2 = Inr e3"
      and rest: "write_spans z opts ln (End sp) sps e3 = Inr e'"
    by (auto simp: result_simps)
  have "taken e3 = taken e @ slice cursor (Start sp) ln @ slice (Start sp) (End sp) ln"
    using write_residual_taken [OF e1] flushResidual_taken [OF e2] append_to_taken [OF e3] by simp
  moreover have "taken e' = taken e3 @ drop (End sp) ln"
    using Cons.prems by (intro Cons.IH [OF _ _ rest]) auto
  moreover have "slice cursor (Start sp) ln @ slice (Start sp) (End sp) ln @ drop (End sp) ln = drop cursor ln"
    using Cons.prems(2) slice_drop [of "Start sp" "End sp" ln] slice_drop [of cursor "Start sp" ln] by simp
  ultimately show ?case by simp
qed

lemma split_line_taken: "split_line z opts ln e = Inr e' \<Longrightarrow> taken e' = taken e @ ln"
proof (cases "FindStringSpans ln (OptFieldThreshold opts)")
  case (Inl x)
  assume "split_line z opts ln e = Inr e'"
  then show ?thesis
    using Inl by (auto simp: split_line_def taken_def dest: write_residual_taken)
next
  case (Inr spans)
  assume "split_line z opts ln e = Inr e'"
  then have "write_spans z opts ln 0 spans e = Inr e'"
    using Inr by (simp add: split_line_def)
  then have "taken e' = taken e @ drop 0 ln"
    using spans_sound [OF Inr] by (intro write_spans_taken) auto
  then show ?thesis by simp
qed

lemma plannedStorageCost_keeps:
  "plannedStorageCost z opts ps tot st = Inr (c, st') \<Longrightarrow> reconstruction st' = reconstruction st \<and> fparts st' = fparts st"
proof (induction ps arbitrary: tot st)
  case Nil
  then show ?case by simp
next
  case (Cons p ps)
  then show ?case
    by (auto simp: result_simps dest!: put_object_keeps Cons.IH split: if_splits)
qed

lemma worth_promoting_keeps:
  "worth_promoting z opts ln st = Inr (b, st') \<Longrightarrow> reconstruction st' = reconstruction st \<and> fparts st' = fparts st"
  by (auto simp: worth_promoting_def Let_def result_simps dest!: put_object_keeps plannedStorageCost_keeps)

lemma processLine_taken: "processLine z opts ln e = Inr e' \<Longrightarrow> taken e' = taken e @ ln"
proof -
  assume *: "processLine z opts ln e = Inr e'"
  have promoted: ?thesis if wp: "worth_promoting z opts ln (snd e) = Inr (b, st)"
    and run: "(if b then rbind (flushResidual z opts (fst e, st)) (\<lambda>e. append_to z opts PartRecord [] ln e)
      else split_line z opts ln (fst e, st)) = Inr e'" for b st
  proof -
    have same: "taken (fst e, st) = taken e"
      using worth_promoting_keeps [OF wp] by (simp add: taken_def)
    show ?thesis
    proof (cases b)
      case True
      then obtain e1 where "flushResidual z opts (fst e, st) = Inr e1" "append_to z opts PartRecord [] ln e1 = Inr e'"
        using run by (auto simp: result_simps)
      then show ?thesis
        using flushResidual_taken append_to_taken same by metis
    next
      case False
      then show ?thesis
        using run split_line_taken same by metis
    qed
  qed
  then show ?thesis
    using * split_line_taken [of z opts ln e e']
    by (auto simp: processLine_def result_simps split: option.splits if_splits bool.splits)
qed


lemma add_fragment_taken:
  assumes "add_fragment z opts fragment (l, e) = Inr (l', e')" and "oversized l \<longrightarrow> line l = []"
  shows "taken e' @ line l' = taken e @ line l @ fragment \<and> (oversized l' \<longrightarrow> line l' = [])"
proof -
  have bump: "taken (fst e, (snd e)\<lparr>OversizedLines := k\<rparr>) = taken e" for k
    by (simp add: taken_def)
  show ?thesis
    using assms by (auto simp: add_fragment_def result_simps bump dest!: write_residual_taken split: if_splits)
qed

lemma read_loop_taken:
  "read_loop z opts n input le = Inr e' \<Longrightarrow> oversized (fst le) \<longrightarrow> line (fst le) = [] \<Longrightarrow>
   taken e' = taken (snd le) @ line (fst le) @ input \<and> chunk_buf (fst e') = []"
proof (induction z opts n input le rule: read_loop.induct)
  case (1 z opts n input le)
  obtain fragment how input' where rs: "ReadSlice (Suc n) input = (fragment, how, input')"
    by (metis prod_cases3)
  obtain l e where frag: "add_fragment z opts fragment le = Inr (l, e)"
    using "1.prems"(1) by (auto simp: read_loop.simps [of z opts n input le] rs result_simps)
  have input: "input = fragment @ input'" and eof: "how = SliceEOF \<longrightarrow> input' = []"
    using ReadSlice_split [OF rs] by auto
  have step: "taken e @ line l = taken (snd le) @ line (fst le) @ fragment" and ov: "oversized l \<longrightarrow> line l = []"
    using add_fragment_taken [of z opts fragment "fst le" "snd le" l e] frag "1.prems"(2) by auto
  have run: "(case how of
            Delimited \<Rightarrow>
              rbind (if oversized l then Inr e else processLine z opts (line l) e) (\<lambda>e.
                read_loop z opts n input' (\<lparr>line = [], oversized = Opaque opts\<rparr>, e))
          | BufferFull \<Rightarrow> read_loop z opts n input' (l, e)
          | SliceEOF \<Rightarrow>
              rbind (if \<not> oversized l \<and> line l \<noteq> [] then processLine z opts (line l) e else Inr e) (flushResidual z opts)) = Inr e'"
    using "1.prems"(1) frag by (simp add: read_loop.simps [of z opts n input le] rs)
  have lined: "taken e1 = taken e @ line l"
    if "(if oversized l then Inr e else processLine z opts (line l) e) = Inr e1 \<or>
        (if \<not> oversized l \<and> line l \<noteq> [] then processLine z opts (line l) e else Inr e) = Inr e1" for e1
    using that ov by (auto dest: processLine_taken split: if_splits)
  show ?case
  proof (cases how)
    case Delimited
    then obtain e1 where e1: "(if oversized l then Inr e else processLine z opts (line l) e) = Inr e1"
      and loop: "read_loop z opts n input' (\<lparr>line = [], oversized = Opaque opts\<rparr>, e1) = Inr e'"
      using run by (auto simp: result_simps)
    show ?thesis
      using "1.IH"(1) [OF rs [symmetric] refl frag refl Delimited e1 loop] lined [of e1] e1 step input by auto
  next
    case BufferFull
    then show ?thesis
      using "1.IH"(2) [OF rs [symmetric] refl frag refl BufferFull] run step input ov by auto
  next
    case SliceEOF
    then obtain e1 where "(if \<not> oversized l \<and> line l \<noteq> [] then processLine z opts (line l) e else Inr e) = Inr e1"
      and "flushResidual z opts e1 = Inr e'"
      using run by (auto simp: result_simps)
    then show ?thesis
      using lined [of e1] flushResidual_taken [of z opts e1 e'] step input eof SliceEOF by auto
  qed
qed


section \<open>Invariants of the engine\<close>

text \<open>
  What every stored part and every cost estimate keeps, the whole engine keeps: the contract between
  \<open>appendPart\<close>/\<open>objects.Put\<close> and the code that cuts the lines.
\<close>

locale part_invariant =
  fixes z :: zstd and opts :: fold_options and P :: "fold_state \<Rightarrow> bool"
  assumes append_keeps: "appendPart z opts kind path data st = Inr st' \<Longrightarrow> kind \<noteq> PartRecord \<or> RecordIndex opts \<noteq> None \<Longrightarrow>
      kind \<in> {PartField, PartResidual, PartRecord} \<Longrightarrow> P st \<Longrightarrow> P st'"
    and estimate_keeps: "put_object z data False st = Inr (ref, reused, st') \<Longrightarrow> P st \<Longrightarrow> P st'"
    and counters: "P (st\<lparr>OversizedLines := k\<rparr>) = P st" "P (st\<lparr>InvalidJSONLines := k\<rparr>) = P st"
begin

lemma emit_keeps: "residual_emit z opts c st = Inr st' \<Longrightarrow> P st \<Longrightarrow> P st'"
  by (auto simp: residual_emit_def PartRecord_def PartResidual_def PartField_def dest!: append_keeps)

lemma Write_keeps: "Write (residual_emit z opts) c st data = Inr (c', st') \<Longrightarrow> P st \<Longrightarrow> P st'"
proof (induction data arbitrary: c st)
  case Nil
  then show ?case by simp
next
  case (Cons v data)
  then show ?case
    by (auto simp: Let_def emitChunk_eq result_simps split: if_splits dest: emit_keeps)
qed

lemma residual_keeps:
  "write_residual z opts data e = Inr e' \<Longrightarrow> P (snd e) \<Longrightarrow> P (snd e')"
  "flushResidual z opts e = Inr e' \<Longrightarrow> P (snd e) \<Longrightarrow> P (snd e')"
  by (cases e', auto simp: write_residual_def flushResidual_def Finish_def emitChunk_eq result_simps
      split: if_splits dest: Write_keeps emit_keeps)+

lemma append_to_keeps:
  "append_to z opts kind path data e = Inr e' \<Longrightarrow> kind \<noteq> PartRecord \<or> RecordIndex opts \<noteq> None \<Longrightarrow>
   kind \<in> {PartField, PartResidual, PartRecord} \<Longrightarrow> P (snd e) \<Longrightarrow> P (snd e')"
  by (auto simp: append_to_def result_simps dest: append_keeps)

lemma write_spans_keeps: "write_spans z opts ln cursor spans e = Inr e' \<Longrightarrow> P (snd e) \<Longrightarrow> P (snd e')"
proof (induction spans arbitrary: cursor e)
  case Nil
  then show ?case by (simp add: residual_keeps)
next
  case (Cons sp sps)
  then obtain e1 e2 e3 where e1: "write_residual z opts (slice cursor (Start sp) ln) e = Inr e1"
      and e2: "flushResidual z opts e1 = Inr e2"
      and e3: "append_to z opts PartField (Path sp) (slice (Start sp) (End sp) ln) e2 = Inr e3"
      and more: "write_spans z opts ln (End sp) sps e3 = Inr e'"
    by (auto simp: result_simps)
  have "P (snd e3)"
    using append_to_keeps [OF e3] residual_keeps(2) [OF e2] residual_keeps(1) [OF e1] Cons.prems(2)
    by (simp add: PartField_def PartRecord_def)
  then show ?case
    using Cons.IH [OF more] by simp
qed

lemma split_line_keeps: "split_line z opts ln e = Inr e' \<Longrightarrow> P (snd e) \<Longrightarrow> P (snd e')"
  by (auto simp: split_line_def counters dest: write_spans_keeps residual_keeps split: sum.splits)

lemma cost_keeps: "plannedStorageCost z opts ps tot st = Inr (c, st') \<Longrightarrow> P st \<Longrightarrow> P st'"
proof (induction ps arbitrary: tot st)
  case Nil
  then show ?case by simp
next
  case (Cons p ps)
  then show ?case
    by (auto simp: result_simps dest!: estimate_keeps Cons.IH split: if_splits)
qed

lemma worth_keeps: "worth_promoting z opts ln st = Inr (b, st') \<Longrightarrow> P st \<Longrightarrow> P st'"
  by (auto simp: worth_promoting_def Let_def result_simps dest: cost_keeps estimate_keeps)

lemma processLine_keeps: "processLine z opts ln e = Inr e' \<Longrightarrow> P (snd e) \<Longrightarrow> P (snd e')"
proof -
  assume run: "processLine z opts ln e = Inr e'" and P: "P (snd e)"
  consider "split_line z opts ln e = Inr e'"
    | b st where "worth_promoting z opts ln (snd e) = Inr (b, st)" "RecordIndex opts \<noteq> None"
        "(if b then rbind (flushResidual z opts (fst e, st)) (\<lambda>e. append_to z opts PartRecord [] ln e)
          else split_line z opts ln (fst e, st)) = Inr e'"
    using run by (auto simp: processLine_def result_simps split: option.splits if_splits bool.splits)
  then show "P (snd e')"
  proof cases
    case 1
    then show ?thesis using P by (rule split_line_keeps)
  next
    case 2
    then show ?thesis
      using worth_keeps [OF 2(1) P] append_to_keeps [of PartRecord "[]" ln _ e'] residual_keeps(2) [of "(fst e, st)"]
      by (fastforce simp: result_simps split: if_splits dest: split_line_keeps)
  qed
qed

lemma add_fragment_keeps: "add_fragment z opts fragment (l, e) = Inr (l', e') \<Longrightarrow> P (snd e) \<Longrightarrow> P (snd e')"
  by (auto simp: add_fragment_def result_simps counters dest!: residual_keeps split: if_splits)

lemma read_loop_keeps: "read_loop z' opts' n input le = Inr e' \<Longrightarrow> z' = z \<Longrightarrow> opts' = opts \<Longrightarrow> P (snd (snd le)) \<Longrightarrow> P (snd e')"
proof (induction z' opts' n input le rule: read_loop.induct)
  case (1 z' opts' n input le)
  obtain fragment how input' where rs: "ReadSlice (Suc n) input = (fragment, how, input')"
    by (metis prod_cases3)
  have eqs: "z' = z" "opts' = opts"
    using "1.prems"(2,3) .
  obtain l e where frag: "add_fragment z opts fragment le = Inr (l, e)"
    using "1.prems"(1) eqs by (auto simp: read_loop.simps [of z opts n input le] rs result_simps)
  have P: "P (snd e)"
    using add_fragment_keeps [of fragment "fst le" "snd le" l e] frag "1.prems"(4) by simp
  note unfolded = "1.prems"(1) [unfolded eqs read_loop.simps [of z opts n input le] rs prod.case frag rbind_simps]
  note IH = "1.IH" [OF rs [symmetric] refl, unfolded eqs, OF frag refl]
  show ?case
  proof (cases how)
    case Delimited
    then obtain e1 where e1: "(if oversized l then Inr e else processLine z opts (line l) e) = Inr e1"
      and loop: "read_loop z opts n input' (\<lparr>line = [], oversized = Opaque opts\<rparr>, e1) = Inr e'"
      using unfolded by (auto simp: result_simps)
    have "P (snd e1)"
      using e1 P by (auto split: if_splits dest: processLine_keeps)
    then show ?thesis
      using IH(1) [OF Delimited e1 loop] by simp
  next
    case BufferFull
    then show ?thesis
      using IH(2) [OF BufferFull] unfolded P by simp
  next
    case SliceEOF
    then show ?thesis
      using unfolded P by (auto simp: result_simps split: if_splits dest: processLine_keeps residual_keeps)
  qed
qed

end


text \<open>
  The state of a fold: the cache speaks of its own digests, and the parts recorded so far are non-empty
  pieces of the input, each with its digest, in order.
\<close>

definition part_describes :: "fold_options \<Rightarrow> part \<Rightarrow> bytes \<Rightarrow> bool" where
  "part_describes opts p d \<longleftrightarrow> d \<noteq> [] \<and> SHA256 (Object p) = sha256_hex d \<and> RawBytes (Object p) \<ge> 0 \<and>
     SupportedPart (if RecordIndex opts = None then ManifestVersion else ManifestVersionV2) (PartKind p)"

definition cache_ok :: "object_store \<Rightarrow> bool" where
  "cache_ok s \<longleftrightarrow> (\<forall>d c. objects s d = Some c \<longrightarrow> SHA256 (cref c) = d \<and> RawBytes (cref c) \<ge> 0)"

definition fold_inv :: "fold_options \<Rightarrow> fold_state \<Rightarrow> bool" where
  "fold_inv opts st \<longleftrightarrow> cache_ok (fstore st) \<and> root (fstore st) = FoldStoreDir opts \<and>
     (\<exists>ds. list_all2 (part_describes opts) (fparts st) ds \<and> concat ds = reconstruction st)"

lemma Put_cache_ok:
  "Put z data a (w, s) = Inr (ref, reused, w', s') \<Longrightarrow> cache_ok s \<Longrightarrow>
   cache_ok s' \<and> SHA256 ref = sha256_hex data \<and> RawBytes ref \<ge> 0"
  by (erule Put_cases) (auto simp: cache_ok_def)

lemma put_object_inv:
  "put_object z data a st = Inr (ref, reused, st') \<Longrightarrow> fold_inv opts st \<Longrightarrow>
   fold_inv opts st' \<and> SHA256 ref = sha256_hex data \<and> RawBytes ref \<ge> 0"
  by (auto simp: put_object_def fold_inv_def split: sum.splits dest: Put_cache_ok Put_root)

lemma fold_inv_append:
  assumes "fold_inv opts st" and "part_describes opts p d"
  shows "fold_inv opts (count_object b ref (count_part k (st\<lparr>fparts := fparts st @ [p], reconstruction := reconstruction st @ d\<rparr>)))"
proof -
  obtain ds where "list_all2 (part_describes opts) (fparts st) ds" "concat ds = reconstruction st"
    using assms(1) by (auto simp: fold_inv_def)
  then have "list_all2 (part_describes opts) (fparts st @ [p]) (ds @ [d]) \<and> concat (ds @ [d]) = reconstruction st @ d"
    using assms(2) by (simp add: list_all2_appendI)
  then show ?thesis
    using assms(1) unfolding fold_inv_def by (auto intro!: exI [of _ "ds @ [d]"])
qed

lemma appendPart_inv:
  assumes run: "appendPart z opts kind path data st = Inr st'" and kind: "kind \<noteq> PartRecord \<or> RecordIndex opts \<noteq> None"
    "kind \<in> {PartField, PartResidual, PartRecord}" and inv: "fold_inv opts st"
  shows "fold_inv opts st'"
proof (cases "data = []")
  case True
  then show ?thesis using run inv by (simp add: appendPart_def)
next
  case False
  let ?ref = "\<lparr>SHA256 = sha256_hex data, RawBytes = int (length data), StoredBytes = 0\<rparr>"
  obtain ref reused st1 where
      put: "(if existing_has opts ?ref then Inr (?ref, True, st) else put_object z data (Apply opts) st) = Inr (ref, reused, st1)"
    and st': "st' = count_object reused ref (count_part kind
             (st1\<lparr>fparts := fparts st1 @ [\<lparr>PartKind = kind, JSONPath = path, Object = ref\<rparr>],
                reconstruction := reconstruction st1 @ data\<rparr>))"
    using run False by (auto simp: appendPart_def Let_def result_simps)
  have "fold_inv opts st1 \<and> SHA256 ref = sha256_hex data \<and> RawBytes ref \<ge> 0"
    using put inv by (auto split: if_splits dest: put_object_inv)
  then show ?thesis
    unfolding st' using kind False
    by (intro fold_inv_append) (auto simp: part_describes_def SupportedPart_def)
qed

interpretation described: part_invariant z opts "fold_inv opts" for z opts
proof unfold_locales
  show "fold_inv opts (st\<lparr>OversizedLines := k\<rparr>) = fold_inv opts st" "fold_inv opts (st\<lparr>InvalidJSONLines := k\<rparr>) = fold_inv opts st" for st k
    by (simp_all add: fold_inv_def)
qed (blast dest: put_object_inv appendPart_inv)+

text \<open>A dry run leaves the files alone.\<close>

interpretation dry: part_invariant z "opts\<lparr>Apply := False\<rparr>" "\<lambda>st. fworld st = w" for z opts w
  by unfold_locales
    (auto simp: appendPart_def put_object_def Let_def result_simps elim!: Put_cases split: if_splits sum.splits)


lemma fold_inv_new: "fold_inv opts (new_state w (FoldStoreDir opts))"
  by (simp add: fold_inv_def new_state_def cache_ok_def NewObjectStore_def)

lemma New_empty: "New cdc (Some emit) = Inr c \<Longrightarrow> chunk_buf c = []"
  by (auto simp: New_def Let_def split: if_splits option.splits)

text \<open>The reading loop as a whole.\<close>

lemma read_loop_segments:
  assumes "New (CDC opts) (Some (residual_emit z opts)) = Inr c"
    and "read_loop z opts n input (\<lparr>line = [], oversized = b\<rparr>, c, new_state w (FoldStoreDir opts)) = Inr (c', st)"
  shows "reconstruction st = input \<and> fold_inv opts st"
proof
  have "taken (c', st) = input \<and> chunk_buf c' = []"
    using read_loop_taken [OF assms(2)] New_empty [OF assms(1)] by (auto simp: taken_def new_state_def)
  then show "reconstruction st = input"
    by (auto simp: taken_def)
  show "fold_inv opts st"
    using described.read_loop_keeps [OF assms(2) refl refl] fold_inv_new [of opts w] by simp
qed

lemma fold_commit_Inr:
  assumes "fold_commit z sync_ok session opts now path v st = Inr (res, m, w')"
  shows "m = fold_manifest session opts now (fparts st) (seen v)"
    and "ResManifestPath res = path" and "DryRun res = (\<not> Apply opts)"
    and "\<exists>d. reread v = Some d \<and> int (length d) = Bytes (Source m) \<and> sha256_hex d = SourceSHA256 (Source m)"
    and "RemovedSource res = (Apply opts \<and> RemoveSource opts)"
    and "if Apply opts then verifyStoredManifest (reader_fetch (fold_reader z opts (fworld st) (fstore st))) m = Inr () \<and>
           (\<exists>w1. writeManifestPath path m (FoldOverwrite opts) (fworld st) = Inr w1 \<and>
             w' = (if RemoveSource opts then remove_file (RolloutPath session) w1 else w1))
         else w' = fworld st"
  using assms
  by (auto simp: fold_commit_def verifyCurrentSource_def Let_def result_simps split: if_splits sum.splits option.splits)


lemma Fold_Inr:
  assumes "Fold z check lock_free sync_ok now session opts0 view w = Inr (res, m, w')"
  obtains v path st where "view = Some v" and "fold_manifest_path (default_options opts0) (ID session) = Inr path"
    and "fold_guards session opts0 = Inr ()" and "fold_inv (default_options opts0) st"
    and "\<not> Apply opts0 \<Longrightarrow> fworld st = w" and "reconstruction st = seen v"
    and "fold_commit z sync_ok session (default_options opts0) now path v st = Inr (res, m, w')"
proof -
  define opts where "opts = default_options opts0"
  have apply_eq: "Apply opts = Apply opts0"
    by (simp add: opts_def default_options_def Let_def)
  obtain path v c c' st where *: "view = Some v" "fold_manifest_path opts (ID session) = Inr path" "fold_guards session opts0 = Inr ()"
      "New (CDC opts) (Some (residual_emit z opts)) = Inr c"
      "read_loop z opts (read_buffer - 1) (seen v) (\<lparr>line = [], oversized = Opaque opts\<rparr>, c, new_state w (FoldStoreDir opts)) = Inr (c', st)"
      "fold_commit z sync_ok session opts now path v st = Inr (res, m, w')"
    using assms
    by (auto simp: Fold_def Let_def opts_def [symmetric] result_simps split: if_splits option.splits sum.splits)
  have "fworld st = w" if "\<not> Apply opts0"
  proof -
    have "opts\<lparr>Apply := False\<rparr> = opts"
      using that apply_eq by (cases opts) simp
    then show ?thesis
      using dry.read_loop_keeps [where z = z and opts = opts and w = w, OF *(5)] by (simp add: new_state_def)
  qed
  then show thesis
    using that [OF *(1) *(2)[unfolded opts_def] *(3) _ _ _ *(6)[unfolded opts_def]] read_loop_segments [OF *(4,5)]
    by (simp add: opts_def)
qed

text \<open>C10: What a successful fold records is the rollout: the manifest's parts, in order, are digests of non-empty
  pieces whose concatenation is exactly the bytes read, the recorded length and digest are those of the bytes read, and the
  second reading of the rollout had the same length and digest.\<close>

theorem Fold_describes_source:
  assumes "Fold z check lock_free sync_ok now session opts view w = Inr (res, m, w')"
  shows "\<exists>v pieces again. view = Some v \<and> concat pieces = seen v \<and> [] \<notin> set pieces \<and>
    map (SHA256 \<circ> Object) (Parts m) = map sha256_hex pieces \<and>
    Bytes (Source m) = int (length (seen v)) \<and> SourceSHA256 (Source m) = sha256_hex (seen v) \<and>
    reread v = Some again \<and> length again = length (seen v) \<and> sha256 again = sha256 (seen v)"
  using assms
proof (rule Fold_Inr)
  fix v path st
  assume v: "view = Some v" and inv: "fold_inv (default_options opts) st" and rec: "reconstruction st = seen v"
    and "fold_commit z sync_ok session (default_options opts) now path v st = Inr (res, m, w')"
  note commit = fold_commit_Inr [OF this(4)]
  obtain ds where ds: "list_all2 (part_describes (default_options opts)) (fparts st) ds" "concat ds = seen v"
    using inv rec by (auto simp: fold_inv_def)
  have "map (SHA256 \<circ> Object) (fparts st) = map sha256_hex ds \<and> [] \<notin> set ds"
    using ds(1) by (induction rule: list_all2_induct) (auto simp: part_describes_def)
  then show ?thesis
    using v ds(2) commit(1,4) by (auto simp: fold_manifest_def intro!: exI [of _ ds])
qed


lemma default_options_keeps [simp]:
  "Apply (default_options opts) = Apply opts" "FoldStoreDir (default_options opts) = FoldStoreDir opts"
  "ManifestPathOverride (default_options opts) = ManifestPathOverride opts" "RemoveSource (default_options opts) = RemoveSource opts"
  "ExistingReader (default_options opts) = ExistingReader opts" "FoldOverwrite (default_options opts) = FoldOverwrite opts"
  "RecordIndex (default_options opts) = RecordIndex opts"
  by (simp_all add: default_options_def Let_def)


lemma fetch_object_cong:
  "root s' = root s \<Longrightarrow> ReadFile w' (ObjectPath s (SHA256 r)) = ReadFile w (ObjectPath s (SHA256 r)) \<Longrightarrow>
   fetch_object z w' s' r = fetch_object z w s r"
  by (simp add: fetch_is_Read Read_cong [of s' s w' r w z])

lemma reconstruct_cong:
  "(\<And>p. p \<in> set ps \<Longrightarrow> f (Object p) = g (Object p)) \<Longrightarrow> reconstruct f ps = reconstruct g ps"
  by (induction ps) auto


lemma hex_encode_plain: "c \<in> set (hex_encode bs) \<Longrightarrow> c \<noteq> CHR ''/'' \<and> c \<noteq> CHR ''.''"
  using hex_encode_digits hex_digit_not_special by metis

lemma proper_digest: "proper_comp (take 2 (sha256_hex d))" "proper_comp (sha256_hex d @ ''.zst'')"
proof -
  have len: "length (sha256_hex d) = 64"
    by simp
  have plain: "c \<noteq> CHR ''/'' \<and> c \<noteq> CHR ''.''" if "c \<in> set (sha256_hex d)" for c
    using that hex_encode_plain by (auto simp: sha256_hex_def)
  have "take 2 (sha256_hex d) \<noteq> []" "CHR ''.'' \<notin> set (take 2 (sha256_hex d))" "slash \<notin> set (take 2 (sha256_hex d))"
    using len plain in_set_takeD [of _ 2 "sha256_hex d"] by (auto simp: slash_def simp del: length_sha256_hex)
  then show "proper_comp (take 2 (sha256_hex d))"
    by (auto simp: proper_comp_def)
  show "proper_comp (sha256_hex d @ ''.zst'')"
    using len plain by (auto simp: proper_comp_def slash_def append_eq_Cons_conv)
qed

lemma ObjectPath_not_ManifestPath:
  assumes "is_abs (root s)" and "validateSessionID a = Inr ()"
  shows "ObjectPath s (sha256_hex d) \<noteq> ManifestPath (root s) a"
proof -
  have "path_base (ObjectPath s (sha256_hex d)) = sha256_hex d @ ''.zst''"
    using path_base_join [OF assms(1), of "[''objects'', take 2 (sha256_hex d)]" "sha256_hex d @ ''.zst''"] proper_digest [of d]
    by (simp add: ObjectPath_def) (simp add: proper_comp_def slash_def)
  moreover have "path_base (ManifestPath (root s) a) = a @ ''.json''"
    using path_base_join [OF assms(1), of "[''manifests'']" "a @ ''.json''"] proper_json [of a] proper_manifests assms(2)
    by (simp add: ManifestPath_def result_simps)
  moreover have "last (sha256_hex d @ ''.zst'') \<noteq> last (a @ ''.json'')"
    by simp
  ultimately show ?thesis
    by metis
qed


lemma fold_objects_survive:
  assumes inv: "fold_inv opts st" and abs: "is_abs (FoldStoreDir opts)" and id: "validateSessionID a = Inr ()"
    and w': "w' = (if removed then remove_file p w1 else w1)" "w1 = install_file (ManifestPath (FoldStoreDir opts) a) encoded (fworld st)"
    and out: "removed \<longrightarrow> p \<notin> range (ObjectPath (NewObjectStore (FoldStoreDir opts)))"
  shows "reconstruct (fetch_object z w' (NewObjectStore (FoldStoreDir opts))) (fparts st) =
    reconstruct (fetch_object z (fworld st) (fstore st)) (fparts st)"
proof (rule reconstruct_cong)
  fix q
  assume "q \<in> set (fparts st)"
  moreover obtain ds where "list_all2 (part_describes opts) (fparts st) ds"
    using inv by (auto simp: fold_inv_def)
  ultimately obtain d where d: "SHA256 (Object q) = sha256_hex d"
    by (auto simp: list_all2_conv_all_nth in_set_conv_nth part_describes_def)
  have root: "root (fstore st) = FoldStoreDir opts" "root (NewObjectStore (FoldStoreDir opts)) = root (fstore st)"
    using inv by (simp_all add: fold_inv_def NewObjectStore_def)
  have "ObjectPath (fstore st) (sha256_hex d) \<noteq> ManifestPath (FoldStoreDir opts) a"
    using ObjectPath_not_ManifestPath [of "fstore st" a d] root abs id by simp
  moreover have "removed \<longrightarrow> p \<noteq> ObjectPath (fstore st) (sha256_hex d)"
    using out ObjectPath_cong [OF root(2), of "sha256_hex d"] by (metis rangeI)
  ultimately show "fetch_object z w' (NewObjectStore (FoldStoreDir opts)) (Object q) = fetch_object z (fworld st) (fstore st) (Object q)"
    using w' d by (intro fetch_object_cong [OF root(2)]) auto
qed

lemma Fold_VerifySession:
  assumes run: "Fold z check lock_free sync_ok now session opts (Some v) w = Inr (res, m, w')"
    and opts: "Apply opts" "ExistingReader opts = None" "ManifestPathOverride opts = ''''" "is_abs (FoldStoreDir opts)"
    and ok: "manifest_ok m"
    and out: "RemoveSource opts \<longrightarrow> RolloutPath session \<noteq> ManifestPath (FoldStoreDir opts) (ID session) \<and>
      RolloutPath session \<notin> range (ObjectPath (NewObjectStore (FoldStoreDir opts)))"
  shows "VerifySession z w' (FoldStoreDir opts) (ID session) = Inr m"
  using run
proof (rule Fold_Inr)
  fix v2 path st
  assume "fold_manifest_path (default_options opts) (ID session) = Inr path"
    and inv: "fold_inv (default_options opts) st"
    and "fold_commit z sync_ok session (default_options opts) now path v2 st = Inr (res, m, w')"
  note commit = fold_commit_Inr [OF this(3), simplified]
  have path: "path = ManifestPath (FoldStoreDir opts) (ID session)"
    using \<open>fold_manifest_path _ _ = Inr path\<close> opts(3) by (simp add: fold_manifest_path_def)
  have m: "Parts m = fparts st" "ID (Session m) = ID session"
    using commit(1) by (simp_all add: fold_manifest_def)
  obtain w1 where verified: "verifyStoredManifest (reader_fetch (fold_reader z (default_options opts) (fworld st) (fstore st))) m = Inr ()"
    and w1: "writeManifestPath path m (FoldOverwrite opts) (fworld st) = Inr w1"
    and w': "w' = (if RemoveSource opts then remove_file (RolloutPath session) w1 else w1)"
    using commit(6) opts(1) by auto
  have valid: "validateManifest m = Inr ()" and w1: "w1 = install_file path (encodeManifest m) (fworld st)"
    using w1 by (auto simp: writeManifestPath_def result_simps split: if_splits)
  have id: "validateSessionID (ID session) = Inr ()"
    using valid m(2) by (auto simp: validateManifest_def result_simps split: if_splits)
  have load: "LoadManifest w' (FoldStoreDir opts) (ID session) = Inr m"
    using decode_encode [OF valid ok] id out w' w1 path by (auto simp: LoadManifest_def LoadManifestPath_def)
  have "reconstruct (fetch_object z w' (NewObjectStore (FoldStoreDir opts))) (fparts st) =
        reconstruct (fetch_object z (fworld st) (fstore st)) (fparts st)"
    using fold_objects_survive [OF inv, of "ID session" w' "RemoveSource opts" "RolloutPath session" w1 "encodeManifest m" z]
      opts(4) id w' w1 path out by simp
  then show ?thesis
    using load verified opts(2) m(1)
    by (simp add: VerifySession_def fold_reader_def store_reader_def verifyStoredManifest_def)
qed

text \<open>C1: Folding and unfolding is the identity: after an applied fold the session restores from the store alone, to
  any target, with bytes of the length and digest of those that were read, hence the same bytes unless SHA-256 collides on
  the two; also when the fold removed the rollout, as long as that lies outside the store's own files.\<close>

theorem Fold_Unfold:
  assumes "Fold z check lock_free sync_ok now session opts (Some v) w = Inr (res, m, w')"
    and "Apply opts" "ExistingReader opts = None" "ManifestPathOverride opts = ''''" "is_abs (FoldStoreDir opts)"
    and "manifest_ok m"
    and "RemoveSource opts \<longrightarrow> RolloutPath session \<noteq> ManifestPath (FoldStoreDir opts) (ID session) \<and>
      RolloutPath session \<notin> range (ObjectPath (NewObjectStore (FoldStoreDir opts)))"
    and "TargetPath uopts \<noteq> ''''" "ReadFile w' (TargetPath uopts) = None \<or> Overwrite uopts" "Reader uopts = None"
    and "\<And>p. \<exists>a. check2 p = Inr a"
  shows "\<exists>res2 w2 data. UnfoldWithOptions z check2 (FoldStoreDir opts) (ID session) uopts w' = Inr (res2, w2) \<and>
    ReadFile w2 (TargetPath uopts) = Some data \<and> length data = length (seen v) \<and> sha256 data = sha256 (seen v) \<and>
    (no_collision {data, seen v} \<longrightarrow> data = seen v)"
proof -
  have verified: "VerifySession z w' (FoldStoreDir opts) (ID session) = Inr m"
    using assms(1-7) by (rule Fold_VerifySession)
  have load: "LoadManifest w' (FoldStoreDir opts) (ID session) = Inr m"
    and stored: "verifyStoredManifest (reader_fetch (openObjectReader z w' (FoldStoreDir opts) (Reader uopts))) m = Inr ()"
    using verified assms(10)
    by (auto simp: VerifySession_def openObjectReader_def store_reader_def result_simps split: sum.splits)
  obtain res2 w2 where un: "UnfoldWithOptions z check2 (FoldStoreDir opts) (ID session) uopts w' = Inr (res2, w2)"
      "UnfTargetPath res2 = TargetPath uopts"
    using unfold_verified [where check = check2, OF load assms(8,9,11) stored] by blast
  have "Bytes (Source m) = int (length (seen v)) \<and> SourceSHA256 (Source m) = sha256_hex (seen v)"
    using assms(1) by (rule Fold_Inr) (auto dest!: fold_commit_Inr(1) simp: fold_manifest_def)
  then obtain data where "ReadFile w2 (TargetPath uopts) = Some data" "length data = length (seen v)" "sha256 data = sha256 (seen v)"
    using unfold_writes [OF un(1)] load un(2) by auto
  then show ?thesis
    using un(1) no_collisionD [of "{data, seen v}" data "seen v"] by auto
qed

text \<open>C32: The storage estimate of a fold is computed without overflow: for an \<open>int64\<close> size it is the size, a
  sixteenth of it and one mebibyte, and it is refused exactly when that is no longer an \<open>int64\<close> or the size is negative.\<close>

theorem estimateFoldStorageBytes_exact:
  assumes "in_int64 raw"
  shows "estimateFoldStorageBytes raw =
    (if raw < 0 then Inl EstimateNegative
     else if raw + raw div 16 + 1048576 > maxInt64 then Inl EstimateOverflow
     else Inr (raw + raw div 16 + 1048576))"
proof (cases "raw < 0")
  case True
  then show ?thesis by (simp add: estimateFoldStorageBytes_def)
next
  case False
  then have overhead: "0 \<le> raw div 16" "raw div 16 \<le> 576460752303423487"
    using assms by (auto simp: in_int64_def maxInt64_def)
  then have "in_int64 (raw div 16 + 1048576)" "in_int64 (maxInt64 - (raw div 16 + 1048576))"
    by (simp_all add: in_int64_def maxInt64_def)
  moreover have "in_int64 (raw + (raw div 16 + 1048576))" if "\<not> raw > maxInt64 - (raw div 16 + 1048576)"
    using that False overhead by (simp add: in_int64_def maxInt64_def)
  ultimately show ?thesis
    using False by (auto simp: estimateFoldStorageBytes_def Let_def)
qed

section \<open>Witnesses\<close>

definition small_view :: rollout_view where
  "small_view = (let info = \<lparr>Size = 1, ModTime = 0, Identity = 0\<rparr>
     in \<lparr>before = info, seen = [65], after_read = Some info, reread = Some [65], after_reread = Some info\<rparr>)"

definition small_session :: manifest_session where
  "small_session = \<lparr>ID = ''a'', Title = '''', CWD = '''', RolloutPath = ''/r'', Archived = True\<rparr>"

definition small_options :: fold_options where
  "small_options = \<lparr>Opaque = False, FoldStoreDir = ''/s'', ManifestPathOverride = '''', Apply = True, FoldOverwrite = False,
     RemoveSource = False, AllowActive = False, OptFieldThreshold = 8, OptMaxJSONLineBytes = 64,
     CDC = \<lparr>MinBytes = 2, AverageBytes = 4, MaxBytes = 8\<rparr>, ExistingReader = None, RecordIndex = None, OptRecordThreshold = 8\<rparr>"

lemma small_default: "default_options small_options = small_options"
  by (simp add: default_options_def small_options_def Let_def)

lemma small_spans: "\<exists>e. FindStringSpans [65] 8 = Inl e"
proof -
  have "case FindStringSpans [65] 8 of Inl _ \<Rightarrow> True | Inr _ \<Rightarrow> False"
    by code_simp
  then show ?thesis
    by (auto split: sum.splits)
qed

lemmas small_simps = small_options_def small_view_def small_session_def

definition small_part :: part where
  "small_part = \<lparr>PartKind = PartResidual, JSONPath = '''', Object = \<lparr>SHA256 = sha256_hex [65], RawBytes = 1, StoredBytes = 1\<rparr>\<rparr>"

definition small_world :: fs where
  "small_world = install_file (ObjectPath (NewObjectStore ''/s'') (sha256_hex [65])) [65] empty_fs"

lemma small_append:
  assumes "fworld st = empty_fs" and "fstore st = NewObjectStore ''/s''" and "fparts st = []" and "reconstruction st = []"
  shows "\<exists>st'. appendPart plain_zstd small_options PartResidual '''' [65] st = Inr st' \<and> fworld st' = small_world \<and>
    fparts st' = [small_part] \<and> reconstruction st' = [65] \<and> root (fstore st') = ''/s''"
  using assms
  by (simp add: appendPart_def Let_def existing_has_def small_simps put_object_def Put_def NewObjectStore_def put_lookup_def
      Stat_def empty_fs_def put_new_def plain_zstd_def small_part_def small_world_def ObjectPath_def)

lemma small_loop:
  assumes "New (CDC small_options) (Some (residual_emit plain_zstd small_options)) = Inr c"
  shows "\<exists>c' st. read_loop plain_zstd small_options (read_buffer - 1) [65]
      (\<lparr>line = [], oversized = False\<rparr>, c, new_state empty_fs ''/s'') = Inr (c', st) \<and>
    fworld st = small_world \<and> fparts st = [small_part] \<and> reconstruction st = [65] \<and> root (fstore st) = ''/s''"
proof -
  obtain e where e: "FindStringSpans [65] 8 = Inl e"
    using small_spans by blast
  have c: "chunk_buf c = []" "options c = CDC small_options"
    using assms by (auto simp: New_def Let_def small_options_def split: if_splits)
  define st0 where "st0 = (new_state empty_fs ''/s'')\<lparr>InvalidJSONLines := 1\<rparr>"
  obtain st where st: "appendPart plain_zstd small_options PartResidual '''' [65] st0 = Inr st"
    "fworld st = small_world" "fparts st = [small_part]" "reconstruction st = [65]" "root (fstore st) = ''/s''"
    using small_append [of st0] by (auto simp: st0_def new_state_def)
  have "read_loop plain_zstd small_options (read_buffer - 1) [65] (\<lparr>line = [], oversized = False\<rparr>, c, new_state empty_fs ''/s'') =
    Inr (fresh (push_byte c 65), st)"
    using c e st(1) [unfolded st0_def]
    by (simp add: read_loop.simps ReadSlice_def read_buffer_def add_fragment_def small_options_def processLine_def split_line_def
        write_residual_def at_boundary_def Let_def push_byte_def flushResidual_def Finish_def emitChunk_eq residual_emit_def
        new_state_def)
  then show ?thesis
    using st by blast
qed

lemma small_commit:
  assumes "fworld st = small_world" "fparts st = [small_part]" "reconstruction st = [65]" "root (fstore st) = ''/s''"
  shows "\<exists>res m w'. fold_commit plain_zstd (\<lambda>_. True) small_session small_options '''' (ManifestPath ''/s'' ''a'') small_view st =
    Inr (res, m, w') \<and> manifest_ok m \<and> Parts m = [small_part]"
proof -
  define m where "m = fold_manifest small_session small_options '''' [small_part] [65]"
  have fetch: "fetch_object plain_zstd small_world (fstore st) (Object small_part) = Inr [65]"
    using assms(4)
    by (simp add: fetch_is_Read Read_def small_world_def small_part_def plain_zstd_def verify_object_def ObjectPath_def NewObjectStore_def)
  have verified: "verifyStoredManifest (fetch_object plain_zstd small_world (fstore st)) m = Inr ()"
    using fetch by (simp add: verifyStoredManifest_def m_def fold_manifest_def verifySourceDigest_def)
  have absent: "Stat small_world (ManifestPath ''/s'' ''a'') = None" 
    using ObjectPath_not_ManifestPath [of "NewObjectStore ''/s''" "''a''" "[65]"]
    by (simp add: small_world_def Stat_def install_file_def empty_fs_def NewObjectStore_def is_abs_def slash_def validateSessionID_def contains_any_def)
  have valid: "validateManifest m = Inr ()"
    by (simp add: m_def fold_manifest_def validateManifest_def SupportedManifest_def SupportedPart_def small_simps small_part_def
        ManifestVersion_def ManifestKind_def validateSessionID_def contains_any_def sha256_hex_nonempty)
  have ok: "manifest_ok m"
    by (simp add: m_def fold_manifest_def manifest_ok_def session_ok_def settings_ok_def part_ok_def ref_ok_def in_int64_def small_simps small_part_def
        ManifestVersion_def ManifestKind_def PartResidual_def utf8_digest utf8_short maxInt64_def)
  have "\<exists>res w'. fold_commit plain_zstd (\<lambda>_. True) small_session small_options '''' (ManifestPath ''/s'' ''a'') small_view st =
    Inr (res, m, w')"
  proof -
    have fields: "Apply small_options" "\<not> RemoveSource small_options" "ExistingReader small_options = None"
      by (simp_all add: small_options_def)
    have view: "seen small_view = [65]" "\<exists>i. before small_view = i \<and> after_read small_view = Some i \<and> after_reread small_view = Some i"
      "reread small_view = Some [65]"
      by (simp_all add: small_view_def Let_def)
    have src: "Source m = \<lparr>Bytes = 1, SourceSHA256 = sha256_hex [65]\<rparr>"
      by (simp add: m_def fold_manifest_def)
    have none: "find (\<lambda>p. False) ps = None" for ps :: "string list"
      by (induction ps) auto
    show ?thesis
      using assms(1-3) verified absent valid fields view src m_def [symmetric]
      by (auto simp: none fold_commit_def Let_def same_info_def verifyCurrentSource_def verifySourceDigest_def fold_reader_def
          store_reader_def SyncPending_def writeManifestPath_def)
  qed
  moreover have "Parts m = [small_part]"
    by (simp add: m_def fold_manifest_def)
  ultimately show ?thesis
    using ok by blast
qed


lemma small_fold:
  "\<exists>res m w'. Fold plain_zstd admit_all True (\<lambda>_. True) '''' small_session small_options (Some small_view) empty_fs = Inr (res, m, w') \<and>
     manifest_ok m \<and> Parts m = [small_part]"
proof -
  let ?emit = "residual_emit plain_zstd small_options"
  obtain c where c: "New (CDC small_options) (Some ?emit) = Inr c"
    by (simp add: New_def Let_def small_options_def)
  obtain c' st where loop: "read_loop plain_zstd small_options (read_buffer - 1) [65]
      (\<lparr>line = [], oversized = False\<rparr>, c, new_state empty_fs ''/s'') = Inr (c', st)"
    and st: "fworld st = small_world" "fparts st = [small_part]" "reconstruction st = [65]" "root (fstore st) = ''/s''"
    using small_loop [OF c] by blast
  have pre: "fold_guards small_session small_options = Inr ()" "fold_manifest_path small_options ''a'' = Inr (ManifestPath ''/s'' ''a'')"
    "fold_admit admit_all True small_options (before small_view) = Inr ()" "Stat empty_fs p = None" "ID small_session = ''a''"
    "seen small_view = [65]" "FoldStoreDir small_options = ''/s''" "Opaque small_options = False" for p
    by (simp_all add: fold_guards_def small_simps fold_manifest_path_def fold_admit_def estimateFoldStorageBytes_def admit_all_def
        Let_def Stat_def empty_fs_def wrap64_def maxInt64_def)
  show ?thesis
    using small_commit [OF st] by (simp add: Fold_def small_default pre c loop [simplified])
qed

theorem Fold_describes_source_witness:
  "\<exists>res m w'. Fold plain_zstd admit_all True (\<lambda>_. True) '''' small_session small_options (Some small_view) empty_fs = Inr (res, m, w') \<and>
     SourceSHA256 (Source m) = sha256_hex [65]"
proof -
  obtain res m w' where run: "Fold plain_zstd admit_all True (\<lambda>_. True) '''' small_session small_options (Some small_view) empty_fs = Inr (res, m, w')"
    using small_fold by blast
  from Fold_describes_source [OF this] run show ?thesis
    by (auto simp: small_view_def Let_def)
qed


theorem Fold_Unfold_witness:
  "\<exists>res m w' res2 w2 data.
     Fold plain_zstd admit_all True (\<lambda>_. True) '''' small_session small_options (Some small_view) empty_fs = Inr (res, m, w') \<and>
     UnfoldWithOptions plain_zstd admit_all ''/s'' ''a'' example_options w' = Inr (res2, w2) \<and>
     ReadFile w2 ''/t'' = Some data \<and> sha256 data = sha256 [65]"
proof -
  obtain res m w' where run: "Fold plain_zstd admit_all True (\<lambda>_. True) '''' small_session small_options (Some small_view) empty_fs = Inr (res, m, w')"
    and ok: "manifest_ok m"
    using small_fold by blast
  have "\<exists>res2 w2 data. UnfoldWithOptions plain_zstd admit_all (FoldStoreDir small_options) (ID small_session) example_options w' = Inr (res2, w2) \<and>
    ReadFile w2 (TargetPath example_options) = Some data \<and> length data = length (seen small_view) \<and>
    sha256 data = sha256 (seen small_view) \<and> (no_collision {data, seen small_view} \<longrightarrow> data = seen small_view)"
    by (rule Fold_Unfold [OF run _ _ _ _ ok])
      (simp_all add: small_simps is_abs_def slash_def example_options_def admit_all_def)
  then show ?thesis
    using run by (auto simp: small_simps example_options_def Let_def)
qed


theorem estimateFoldStorageBytes_exact_witness:
  "estimateFoldStorageBytes 9223372036854775807 = Inl EstimateOverflow \<and> estimateFoldStorageBytes 16 = Inr 1048593"
  using estimateFoldStorageBytes_exact [of 9223372036854775807] estimateFoldStorageBytes_exact [of 16]
  by (simp add: in_int64_def maxInt64_def)

end
