(* ===== verification/Fskit_Wire.thy ===== *)
theory Fskit_Wire
  imports Prelude
begin

unbundle bit_operations_syntax

text \<open>
  The protocol between the file-system extension and the mount service: the field codec
  (\<open>src/internal/fskitproto/codec.go\<close>), frames and the resource descriptor
  (\<open>src/internal/fskitproto/protocol.go\<close>). A reader is the bytes it has yet to deliver; a writer is what it has
  written and how many bytes each further \<open>Write\<close> will accept.
\<close>

section \<open>Constants and data\<close>

definition WireVersion :: "16 word" where "WireVersion = 2"
definition HeaderSize :: nat where "HeaderSize = 40"
definition DefaultMaxPayload :: uint32 where "DefaultMaxPayload = push_bit 20 32"
definition CapabilityContentGeneration :: uint32 where "CapabilityContentGeneration = push_bit 4 1"
definition frameMagic :: bytes where "frameMagic = go_bytes ''CFSP''"
definition descriptorMagic :: bytes where "descriptorMagic = go_bytes ''CFSR''"

record frame =
  FKind :: byte
  FOp :: byte
  FFlags :: uint32
  FRequestID :: uint64
  FGeneration :: uint64
  FStatus :: uint32
  FPayload :: bytes

text \<open>A \<open>time.Time\<close> as an instant: seconds since the Unix epoch and nanoseconds. The zero time is the first of January of the
  year 1.\<close>

record instant =
  unix :: int64
  nanosecond :: nat

definition zero_time :: instant where
  "zero_time = \<lparr>unix = -62135596800, nanosecond = 0\<rparr>"

record entry =
  EPath :: string
  EName :: string
  NodeID :: uint64
  ParentID :: uint64
  EType :: byte
  EMode :: uint32
  UID :: uint32
  GID :: uint32
  ESize :: uint64
  AllocSize :: uint64
  EModTime :: instant
  ChangeTime :: instant
  AccessTime :: instant
  NamespaceID :: uint64
  ContentGeneration :: uint64

record stat_fs =
  BlockSize :: uint32
  IOSize :: uint32
  TotalBytes :: uint64
  StatAvailableBytes :: uint64
  FreeBytes :: uint64
  UsedBytes :: uint64
  TotalFiles :: uint64
  FreeFiles :: uint64

record descriptor =
  DGeneration :: uint64
  SocketPath :: string
  DToken :: bytes

datatype wire_error =
    Truncated | FieldTooLong | BadTimestamp | TrailingBytes nat
  | FrameEOF | FrameUnexpectedEOF | BadMagic | BadVersion | PayloadTooLarge | WriteFailed | ShortWrite
  | DescriptorMagic | DescriptorVersion | DescriptorGeneration | DescriptorSocket | DescriptorToken

section \<open>Encoder\<close>

type_synonym encoder = bytes

definition Enc_Raw :: "bytes \<Rightarrow> encoder \<Rightarrow> encoder" where
  "Enc_Raw v e = e @ v"

definition Enc_Uint8 :: "byte \<Rightarrow> encoder \<Rightarrow> encoder" where
  "Enc_Uint8 v e = e @ [v]"

definition Enc_Uint16 :: "16 word \<Rightarrow> encoder \<Rightarrow> encoder" where
  "Enc_Uint16 v e = e @ le16 v"

definition Enc_Uint32 :: "uint32 \<Rightarrow> encoder \<Rightarrow> encoder" where
  "Enc_Uint32 v e = e @ le32 v"

definition Enc_Uint64 :: "uint64 \<Rightarrow> encoder \<Rightarrow> encoder" where
  "Enc_Uint64 v e = e @ le64 v"

definition Enc_Int64 :: "int64 \<Rightarrow> encoder \<Rightarrow> encoder" where
  "Enc_Int64 v e = Enc_Uint64 (word_of_int v) e"

definition Enc_Bytes :: "bytes \<Rightarrow> encoder \<Rightarrow> encoder" where
  "Enc_Bytes v e = Enc_Raw v (Enc_Uint32 (of_nat (length v)) e)"

definition Enc_String :: "string \<Rightarrow> encoder \<Rightarrow> encoder" where
  "Enc_String v e = Enc_Bytes (go_bytes v) e"

definition Enc_Time :: "instant \<Rightarrow> encoder \<Rightarrow> encoder" where
  "Enc_Time v e =
     (if v = zero_time then Enc_Uint32 0 (Enc_Int64 0 e)
      else Enc_Uint32 (of_nat (nanosecond v)) (Enc_Int64 (unix v) e))"

definition Enc_entry :: "entry \<Rightarrow> bool \<Rightarrow> encoder \<Rightarrow> encoder" where
  "Enc_entry v includeContentGeneration e =
     (let e = Enc_String (EPath v) e;
          e = Enc_String (EName v) e;
          e = Enc_Uint64 (NodeID v) e;
          e = Enc_Uint64 (ParentID v) e;
          e = Enc_Uint8 (EType v) e;
          e = Enc_Uint32 (EMode v) e;
          e = Enc_Uint32 (UID v) e;
          e = Enc_Uint32 (GID v) e;
          e = Enc_Uint64 (ESize v) e;
          e = Enc_Uint64 (AllocSize v) e;
          e = Enc_Time (EModTime v) e;
          e = Enc_Time (ChangeTime v) e;
          e = Enc_Time (AccessTime v) e;
          e = Enc_Uint64 (NamespaceID v) e
      in if includeContentGeneration then Enc_Uint64 (ContentGeneration v) e else e)"

definition Enc_Entry :: "entry \<Rightarrow> encoder \<Rightarrow> encoder" where
  "Enc_Entry v e = Enc_entry v False e"

definition Enc_EntryForCapabilities :: "entry \<Rightarrow> uint32 \<Rightarrow> encoder \<Rightarrow> encoder" where
  "Enc_EntryForCapabilities v capabilities e = Enc_entry v (capabilities AND CapabilityContentGeneration \<noteq> 0) e"

definition Enc_StatFS :: "stat_fs \<Rightarrow> encoder \<Rightarrow> encoder" where
  "Enc_StatFS s e =
     (let e = Enc_Uint32 (BlockSize s) e;
          e = Enc_Uint32 (IOSize s) e;
          e = Enc_Uint64 (TotalBytes s) e;
          e = Enc_Uint64 (StatAvailableBytes s) e;
          e = Enc_Uint64 (FreeBytes s) e;
          e = Enc_Uint64 (UsedBytes s) e;
          e = Enc_Uint64 (TotalFiles s) e
      in Enc_Uint64 (FreeFiles s) e)"

section \<open>Decoder\<close>

record wire_decoder =
  ddata :: bytes
  doffset :: nat

type_synonym 'a decoded = "wire_error + ('a \<times> wire_decoder)"

definition Dec_New :: "bytes \<Rightarrow> wire_decoder" where
  "Dec_New data = \<lparr>ddata = data, doffset = 0\<rparr>"

definition Dec_remaining :: "wire_decoder \<Rightarrow> int" where
  "Dec_remaining d = int (length (ddata d)) - int (doffset d)"

definition Dec_Raw :: "int \<Rightarrow> wire_decoder \<Rightarrow> bytes decoded" where
  "Dec_Raw n d =
     (if n < 0 \<or> Dec_remaining d < n then Inl Truncated
      else Inr (slice (doffset d) (doffset d + nat n) (ddata d), d\<lparr>doffset := doffset d + nat n\<rparr>))"

definition Dec_Uint8 :: "wire_decoder \<Rightarrow> byte decoded" where
  "Dec_Uint8 d = rbind (Dec_Raw 1 d) (\<lambda>(v, d). Inr (v ! 0, d))"

definition Dec_Uint16 :: "wire_decoder \<Rightarrow> 16 word decoded" where
  "Dec_Uint16 d = rbind (Dec_Raw 2 d) (\<lambda>(v, d). Inr (of_le16 v, d))"

definition Dec_Uint32 :: "wire_decoder \<Rightarrow> uint32 decoded" where
  "Dec_Uint32 d = rbind (Dec_Raw 4 d) (\<lambda>(v, d). Inr (of_le32 v, d))"

definition Dec_Uint64 :: "wire_decoder \<Rightarrow> uint64 decoded" where
  "Dec_Uint64 d = rbind (Dec_Raw 8 d) (\<lambda>(v, d). Inr (of_le64 v, d))"

definition Dec_Int64 :: "wire_decoder \<Rightarrow> int64 decoded" where
  "Dec_Int64 d = rbind (Dec_Uint64 d) (\<lambda>(v, d). Inr (sint v, d))"

definition Dec_Bytes :: "int \<Rightarrow> wire_decoder \<Rightarrow> bytes decoded" where
  "Dec_Bytes limit d =
     rbind (Dec_Uint32 d) (\<lambda>(n, d).
       if int (unat n) > maxInt64 \<or> (limit > 0 \<and> n > word_of_int limit) then Inl FieldTooLong
       else Dec_Raw (int (unat n)) d)"

definition Dec_String :: "int \<Rightarrow> wire_decoder \<Rightarrow> string decoded" where
  "Dec_String limit d = rbind (Dec_Bytes limit d) (\<lambda>(v, d). Inr (go_string v, d))"

definition Dec_Time :: "wire_decoder \<Rightarrow> instant decoded" where
  "Dec_Time d =
     rbind (Dec_Int64 d) (\<lambda>(seconds, d).
       rbind (Dec_Uint32 d) (\<lambda>(nanoseconds, d).
         if seconds = 0 \<and> nanoseconds = 0 then Inr (zero_time, d)
         else if nanoseconds \<ge> 1000000000 then Inl BadTimestamp
         else Inr (\<lparr>unix = seconds, nanosecond = unat nanoseconds\<rparr>, d)))"

definition Dec_entry :: "bool \<Rightarrow> wire_decoder \<Rightarrow> entry decoded" where
  "Dec_entry includeContentGeneration d =
     rbind (Dec_String (push_bit 20 1) d) (\<lambda>(path, d).
     rbind (Dec_String 4096 d) (\<lambda>(name, d).
     rbind (Dec_Uint64 d) (\<lambda>(node, d).
     rbind (Dec_Uint64 d) (\<lambda>(parent, d).
     rbind (Dec_Uint8 d) (\<lambda>(type_value, d).
     rbind (Dec_Uint32 d) (\<lambda>(mode, d).
     rbind (Dec_Uint32 d) (\<lambda>(uid, d).
     rbind (Dec_Uint32 d) (\<lambda>(gid, d).
     rbind (Dec_Uint64 d) (\<lambda>(sz, d).
     rbind (Dec_Uint64 d) (\<lambda>(alloc, d).
     rbind (Dec_Time d) (\<lambda>(mtime, d).
     rbind (Dec_Time d) (\<lambda>(ctime, d).
     rbind (Dec_Time d) (\<lambda>(atime, d).
     rbind (Dec_Uint64 d) (\<lambda>(namespace, d).
     rbind (if includeContentGeneration then Dec_Uint64 d else Inr (0, d)) (\<lambda>(generation, d).
       Inr (\<lparr>EPath = path, EName = name, NodeID = node, ParentID = parent, EType = type_value, EMode = mode,
             UID = uid, GID = gid, ESize = sz, AllocSize = alloc, EModTime = mtime, ChangeTime = ctime,
             AccessTime = atime, NamespaceID = namespace, ContentGeneration = generation\<rparr>, d))))))))))))))))"

definition Dec_Entry :: "wire_decoder \<Rightarrow> entry decoded" where
  "Dec_Entry d = Dec_entry False d"

definition Dec_EntryForCapabilities :: "uint32 \<Rightarrow> wire_decoder \<Rightarrow> entry decoded" where
  "Dec_EntryForCapabilities capabilities d = Dec_entry (capabilities AND CapabilityContentGeneration \<noteq> 0) d"

definition Dec_StatFS :: "wire_decoder \<Rightarrow> stat_fs decoded" where
  "Dec_StatFS d =
     rbind (Dec_Uint32 d) (\<lambda>(block, d).
     rbind (Dec_Uint32 d) (\<lambda>(io, d).
     rbind (Dec_Uint64 d) (\<lambda>(tot, d).
     rbind (Dec_Uint64 d) (\<lambda>(available, d).
     rbind (Dec_Uint64 d) (\<lambda>(free, d).
     rbind (Dec_Uint64 d) (\<lambda>(used, d).
     rbind (Dec_Uint64 d) (\<lambda>(files, d).
     rbind (Dec_Uint64 d) (\<lambda>(freeFiles, d).
       Inr (\<lparr>BlockSize = block, IOSize = io, TotalBytes = tot, StatAvailableBytes = available, FreeBytes = free,
             UsedBytes = used, TotalFiles = files, FreeFiles = freeFiles\<rparr>, d)))))))))"

definition Dec_Done :: "wire_decoder \<Rightarrow> wire_error + unit" where
  "Dec_Done d = (if Dec_remaining d \<noteq> 0 then Inl (TrailingBytes (nat (Dec_remaining d))) else Inr ())"

section \<open>Frames\<close>

text \<open>\<open>io.ReadFull\<close>: exactly \<open>n\<close> bytes, \<open>EOF\<close> when there are none at all.\<close>

definition ReadFull :: "nat \<Rightarrow> bytes \<Rightarrow> wire_error + (bytes \<times> bytes)" where
  "ReadFull n reader =
     (if n \<le> length reader then Inr (take n reader, drop n reader)
      else if reader = [] then Inl FrameEOF else Inl FrameUnexpectedEOF)"

definition ReadFrame :: "bytes \<Rightarrow> uint32 \<Rightarrow> wire_error + (frame \<times> bytes)" where
  "ReadFrame reader maxPayload =
     (let maxPayload = (if maxPayload = 0 then DefaultMaxPayload else maxPayload)
      in rbind (ReadFull HeaderSize reader) (\<lambda>(header, reader).
           if take 4 header \<noteq> frameMagic then Inl BadMagic
           else if of_le16 (slice 4 6 header) \<noteq> WireVersion then Inl BadVersion
           else let payloadLength = of_le32 (slice 32 36 header)
             in if payloadLength > maxPayload then Inl PayloadTooLarge
                else rbind (ReadFull (unat payloadLength) reader) (\<lambda>(payload, reader).
                  Inr (\<lparr>FKind = header ! 6, FOp = header ! 7, FFlags = of_le32 (slice 8 12 header),
                        FRequestID = of_le64 (slice 12 20 header), FGeneration = of_le64 (slice 20 28 header),
                        FStatus = of_le32 (slice 28 32 header), FPayload = payload\<rparr>, reader))))"

text \<open>A writer: what it holds, and the outcome of each further \<open>Write\<close> (how many bytes it accepts, or an error);
  once these are used up it accepts everything.\<close>

record writer =
  written :: bytes
  accepts :: "nat option list"

definition Write_call :: "bytes \<Rightarrow> writer \<Rightarrow> nat option \<times> writer" where
  "Write_call data w =
     (case accepts w of
        [] \<Rightarrow> (Some (length data), w\<lparr>written := written w @ data\<rparr>)
      | None # later \<Rightarrow> (None, w\<lparr>accepts := later\<rparr>)
      | Some n # later \<Rightarrow> (Some (min n (length data)), w\<lparr>written := written w @ take n data, accepts := later\<rparr>))"

function writeAll :: "bytes \<Rightarrow> writer \<Rightarrow> (wire_error + unit) \<times> writer" where
  "writeAll data w =
     (if data = [] then (Inr (), w)
      else case Write_call data w of
             (None, w') \<Rightarrow> (Inl WriteFailed, w')
           | (Some n, w') \<Rightarrow> if n = 0 then (Inl ShortWrite, w') else writeAll (drop n data) w')"
  by pat_completeness auto
termination
  by (relation "measure (\<lambda>(data, _). length data)") auto

declare writeAll.simps [simp del]

definition frame_header :: "frame \<Rightarrow> nat \<Rightarrow> bytes" where
  "frame_header f payloadLength =
     frameMagic @ le16 WireVersion @ [FKind f, FOp f] @ le32 (FFlags f) @ le64 (FRequestID f) @ le64 (FGeneration f) @
     le32 (FStatus f) @ le32 (of_nat payloadLength) @ replicate 4 0"

definition WriteFrameHeader :: "frame \<Rightarrow> int \<Rightarrow> uint32 \<Rightarrow> writer \<Rightarrow> (wire_error + unit) \<times> writer" where
  "WriteFrameHeader f payloadLength maxPayload w =
     (let maxPayload = (if maxPayload = 0 then DefaultMaxPayload else maxPayload)
      in if payloadLength < 0 \<or> payloadLength > int (unat maxPayload) then (Inl PayloadTooLarge, w)
         else writeAll (frame_header f (nat payloadLength)) w)"

definition WriteFramePayload :: "bytes \<Rightarrow> writer \<Rightarrow> (wire_error + unit) \<times> writer" where
  "WriteFramePayload payload w = writeAll payload w"

definition WriteFrame :: "frame \<Rightarrow> uint32 \<Rightarrow> writer \<Rightarrow> (wire_error + unit) \<times> writer" where
  "WriteFrame f maxPayload w =
     (case WriteFrameHeader f (int (length (FPayload f))) maxPayload w of
        (Inl e, w) \<Rightarrow> (Inl e, w)
      | (Inr _, w) \<Rightarrow> WriteFramePayload (FPayload f) w)"

section \<open>The resource descriptor\<close>

definition EncodeDescriptor :: "descriptor \<Rightarrow> wire_error + bytes" where
  "EncodeDescriptor d =
     (if DGeneration d = 0 then Inl DescriptorGeneration
      else if SocketPath d = '''' \<or> length (SocketPath d) > 4096 then Inl DescriptorSocket
      else if length (DToken d) < 16 \<or> length (DToken d) > 256 then Inl DescriptorToken
      else Inr (let e = Enc_Raw descriptorMagic [];
                    e = Enc_Uint16 WireVersion e;
                    e = Enc_Uint16 0 e;
                    e = Enc_Uint64 (DGeneration d) e;
                    e = Enc_String (SocketPath d) e
                in Enc_Bytes (DToken d) e))"

definition DecodeDescriptor :: "bytes \<Rightarrow> wire_error + descriptor" where
  "DecodeDescriptor data =
     (case Dec_Raw 4 (Dec_New data) of
        Inl _ \<Rightarrow> Inl DescriptorMagic
      | Inr (magic, d) \<Rightarrow>
          if magic \<noteq> descriptorMagic then Inl DescriptorMagic
          else rbind (Dec_Uint16 d) (\<lambda>(version, d).
            if version \<noteq> WireVersion then Inl DescriptorVersion
            else rbind (Dec_Uint16 d) (\<lambda>(_, d).
              case Dec_Uint64 d of
                Inl _ \<Rightarrow> Inl DescriptorGeneration
              | Inr (generation, d) \<Rightarrow>
                  if generation = 0 then Inl DescriptorGeneration
                  else case Dec_String 4096 d of
                    Inl _ \<Rightarrow> Inl DescriptorSocket
                  | Inr (socketPath, d) \<Rightarrow>
                      if socketPath = '''' then Inl DescriptorSocket
                      else case Dec_Bytes 256 d of
                        Inl _ \<Rightarrow> Inl DescriptorToken
                      | Inr (token, d) \<Rightarrow>
                          if length token < 16 then Inl DescriptorToken
                          else rbind (Dec_Done d) (\<lambda>_.
                            Inr \<lparr>DGeneration = generation, SocketPath = socketPath, DToken = token\<rparr>))))"

section \<open>Fields are read back\<close>

text \<open>A decoder that has read \<open>pre\<close> and has \<open>rest\<close> left.\<close>

definition dec_at :: "bytes \<Rightarrow> bytes \<Rightarrow> wire_decoder" where
  "dec_at pre post = \<lparr>ddata = pre @ post, doffset = length pre\<rparr>"

lemma Dec_New_at: "Dec_New data = dec_at [] data"
  by (simp add: Dec_New_def dec_at_def)

lemma Dec_Raw_at: "int (length v) = n \<Longrightarrow> Dec_Raw n (dec_at pre (v @ post)) = Inr (v, dec_at (pre @ v) post)"
  by (auto simp: Dec_Raw_def Dec_remaining_def dec_at_def slice_def)

lemma Dec_Raw_Inr:
  "Dec_Raw n (dec_at pre data) = Inr (v, d) \<longleftrightarrow>
   0 \<le> n \<and> n \<le> int (length data) \<and> v = take (nat n) data \<and> d = dec_at (pre @ take (nat n) data) (drop (nat n) data)"
  by (auto simp: Dec_Raw_def Dec_remaining_def dec_at_def slice_def)

lemma Dec_ints_at [wire_simps]:
  "Dec_Uint8 (dec_at pre (b # post)) = Inr (b, dec_at (pre @ [b]) post)"
  "Dec_Uint16 (dec_at pre (le16 h @ post)) = Inr (h, dec_at (pre @ le16 h) post)"
  "Dec_Uint32 (dec_at pre (le32 w @ post)) = Inr (w, dec_at (pre @ le32 w) post)"
  "Dec_Uint64 (dec_at pre (le64 v @ post)) = Inr (v, dec_at (pre @ le64 v) post)"
  using Dec_Raw_at [of "[b]" 1 pre post]
  by (simp_all add: Dec_Uint8_def Dec_Uint16_def Dec_Uint32_def Dec_Uint64_def Dec_Raw_at)

lemma sint_word_of_int64: "in_int64 x \<Longrightarrow> sint (word_of_int x :: 64 word) = x"
  by (simp add: sint_word_ariths signed_of_int signed_take_bit_int_eq_self in_int64_def maxInt64_def)

lemma Dec_Int64_at [wire_simps]:
  "in_int64 x \<Longrightarrow> Dec_Int64 (dec_at pre (le64 (word_of_int x) @ post)) = Inr (x, dec_at (pre @ le64 (word_of_int x)) post)"
  by (simp add: Dec_Int64_def wire_simps sint_word_of_int64)

text \<open>A byte field is accepted when its length fits the limit (\<open>0\<close> for none) and 32 bits.\<close>

definition fits_limit :: "nat \<Rightarrow> int \<Rightarrow> bool" where
  "fits_limit n limit \<longleftrightarrow> n < 4294967296 \<and> 0 \<le> limit \<and> limit < 4294967296 \<and> (limit > 0 \<longrightarrow> int n \<le> limit)"

lemma Dec_Bytes_at [wire_simps]:
  assumes "fits_limit (length v) limit"
  shows "Dec_Bytes limit (dec_at pre (le32 (of_nat (length v)) @ v @ post)) =
    Inr (v, dec_at (pre @ le32 (of_nat (length v)) @ v) post)"
proof -
  have len: "unat (of_nat (length v) :: uint32) = length v"
    using assms by (simp add: fits_limit_def unsigned_of_nat take_bit_nat_eq_self)
  have "\<not> word_of_int limit < (of_nat (length v) :: uint32)" if "limit > 0"
  proof -
    have "unat (word_of_int limit :: uint32) = nat limit"
      using assms that by (simp add: fits_limit_def unsigned_of_int take_bit_int_eq_self)
    then show ?thesis
      using len assms that unfolding fits_limit_def word_less_nat_alt by linarith
  qed
  then show ?thesis
    using len arg_cong [OF len, of int] assms by (auto simp: Dec_Bytes_def wire_simps Dec_Raw_at maxInt64_def fits_limit_def)
qed

lemma Dec_String_at [wire_simps]:
  "fits_limit (length s) limit \<Longrightarrow> Dec_String limit (dec_at pre (le32 (of_nat (length s)) @ go_bytes s @ post)) =
   Inr (s, dec_at (pre @ le32 (of_nat (length s)) @ go_bytes s) post)"
  using Dec_Bytes_at [of "go_bytes s" limit pre post] by (simp add: Dec_String_def)

text \<open>What a time is after a round trip: the Unix epoch itself is the zero time afterwards.\<close>

definition wire_time :: "instant \<Rightarrow> instant" where
  "wire_time t = (if unix t = 0 \<and> nanosecond t = 0 then zero_time else t)"

definition time_ok :: "instant \<Rightarrow> bool" where
  "time_ok t \<longleftrightarrow> in_int64 (unix t) \<and> nanosecond t < 1000000000"

definition time_bytes :: "instant \<Rightarrow> bytes" where
  "time_bytes t = Enc_Time t []"

lemma Enc_Time_bytes: "Enc_Time t e = e @ time_bytes t"
  by (simp add: time_bytes_def Enc_Time_def Enc_Uint32_def Enc_Int64_def Enc_Uint64_def)

lemma Dec_Time_at [wire_simps]:
  assumes "time_ok t"
  shows "Dec_Time (dec_at pre (time_bytes t @ post)) = Inr (wire_time t, dec_at (pre @ time_bytes t) post)"
proof -
  have n: "unat (of_nat (nanosecond t) :: uint32) = nanosecond t"
    using assms by (simp add: time_ok_def unsigned_of_nat take_bit_nat_eq_self)
  then have small: "\<not> 1000000000 \<le> (of_nat (nanosecond t) :: uint32)"
    using assms by (simp add: word_le_nat_alt time_ok_def)
  have zero: "of_nat (nanosecond t) = (0 :: uint32) \<longleftrightarrow> nanosecond t = 0"
    using n by (auto simp: unat_eq_zero [symmetric] simp del: unat_eq_zero)
  have ok: "in_int64 0" "in_int64 (unix t)"
    using assms by (simp_all add: in_int64_def maxInt64_def time_ok_def)
  show ?thesis
    using Dec_Int64_at [OF ok(1), of pre "le32 0 @ post"] Dec_Int64_at [OF ok(2), of pre "le32 (of_nat (nanosecond t)) @ post"] n small zero
    by (auto simp: time_bytes_def Enc_Time_def Enc_Uint32_def Enc_Int64_def Enc_Uint64_def Dec_Time_def wire_simps wire_time_def zero_time_def)
qed


section \<open>Whole values are read back\<close>

lemmas Enc_simps = Enc_Raw_def Enc_Uint8_def Enc_Uint16_def Enc_Uint32_def Enc_Uint64_def Enc_Bytes_def Enc_String_def Enc_Time_bytes

definition entry_ok :: "entry \<Rightarrow> bool" where
  "entry_ok v \<longleftrightarrow> length (EPath v) \<le> 1048576 \<and> length (EName v) \<le> 4096 \<and>
     time_ok (EModTime v) \<and> time_ok (ChangeTime v) \<and> time_ok (AccessTime v)"

definition wire_entry :: "bool \<Rightarrow> entry \<Rightarrow> entry" where
  "wire_entry includeContentGeneration v =
     v\<lparr>EModTime := wire_time (EModTime v), ChangeTime := wire_time (ChangeTime v), AccessTime := wire_time (AccessTime v),
       ContentGeneration := (if includeContentGeneration then ContentGeneration v else 0)\<rparr>"

lemma Dec_entry_at:
  assumes "entry_ok v"
  shows "Dec_entry b (dec_at pre (Enc_entry v b [] @ post)) = Inr (wire_entry b v, dec_at (pre @ Enc_entry v b []) post)"
proof -
  have fits: "fits_limit (length (EPath v)) 1048576" "fits_limit (length (EName v)) 4096"
    using assms by (simp_all add: entry_ok_def fits_limit_def)
  have times: "time_ok (EModTime v)" "time_ok (ChangeTime v)" "time_ok (AccessTime v)"
    using assms by (simp_all add: entry_ok_def)
  show ?thesis
    using fits times
    by (cases b) (simp_all add: Dec_entry_def Enc_entry_def Let_def Enc_simps wire_simps wire_entry_def push_bit_eq_mult)
qed

lemma Dec_StatFS_at:
  "Dec_StatFS (dec_at pre (Enc_StatFS s [] @ post)) = Inr (s, dec_at (pre @ Enc_StatFS s []) post)"
  by (simp add: Dec_StatFS_def Enc_StatFS_def Let_def Enc_simps wire_simps)


lemma writeAll_outcome:
  "writeAll data w = (r, w') \<Longrightarrow> \<exists>n. written w' = written w @ take n data \<and> (r = Inr () \<longrightarrow> n = length data) \<and>
     (r \<noteq> Inr () \<longrightarrow> n < length data)"
proof (induction data w arbitrary: r w' rule: writeAll.induct)
  case (1 data w)
  show ?case
  proof (cases "data = []")
    case True
    then show ?thesis
      using "1.prems" by (simp add: writeAll.simps [of "[]" w])
  next
    case False
    obtain a w1 where call: "Write_call data w = (a, w1)"
      by fastforce
    have done1: "case a of None \<Rightarrow> written w1 = written w | Some n \<Rightarrow> n \<le> length data \<and> written w1 = written w @ take n data"
      using call by (auto simp: Write_call_def min_def split: list.splits option.splits if_splits)
    show ?thesis
    proof (cases "a = None \<or> a = Some 0")
      case True
      then have "r \<noteq> Inr () \<and> w' = w1"
        using "1.prems" False call by (auto simp: writeAll.simps [of data w])
      then show ?thesis
        using done1 False True by (intro exI [of _ 0]) auto
    next
      case more: False
      then obtain n where n: "a = Some n" "n \<noteq> 0"
        by auto
      then have "writeAll (drop n data) w1 = (r, w')"
        using "1.prems" False call by (simp add: writeAll.simps [of data w])
      with "1.IH" [OF False call [symmetric] n] obtain k where
        k: "written w' = written w1 @ take k (drop n data)" "r = Inr () \<longrightarrow> k = length (drop n data)"
           "r \<noteq> Inr () \<longrightarrow> k < length (drop n data)"
        by blast
      have "take n data @ take k (drop n data) = take (n + k) data"
        by (simp add: take_add)
      then show ?thesis
        using k done1 n(1) by (intro exI [of _ "n + k"]) auto
    qed
  qed
qed

lemma length_frame_header [simp]: "length (frame_header f n) = HeaderSize"
  by (simp add: frame_header_def frameMagic_def HeaderSize_def)

lemma frame_header_fields:
  "take 4 (frame_header f n) = frameMagic" "of_le16 (slice 4 6 (frame_header f n)) = WireVersion"
  "frame_header f n ! 6 = FKind f" "frame_header f n ! 7 = FOp f"
  "of_le32 (slice 8 12 (frame_header f n)) = FFlags f" "of_le64 (slice 12 20 (frame_header f n)) = FRequestID f"
  "of_le64 (slice 20 28 (frame_header f n)) = FGeneration f" "of_le32 (slice 28 32 (frame_header f n)) = FStatus f"
  "of_le32 (slice 32 36 (frame_header f n)) = of_nat n"
  by (simp_all add: frame_header_def slice_def frameMagic_def go_bytes_def nth_append)

lemma ReadFrame_frame:
  assumes "length (FPayload f) \<le> unat (if maxPayload = 0 then DefaultMaxPayload else maxPayload)"
  shows "ReadFrame (frame_header f (length (FPayload f)) @ FPayload f @ post) maxPayload = Inr (f, post)"
proof -
  let ?m = "if maxPayload = 0 then DefaultMaxPayload else maxPayload"
  have "length (FPayload f) < 4294967296"
    using assms unsigned_less [of ?m, where ?'a = nat] by simp
  then have len: "unat (of_nat (length (FPayload f)) :: uint32) = length (FPayload f)"
    by (simp add: unsigned_of_nat take_bit_nat_eq_self)
  then have "\<not> ?m < of_nat (length (FPayload f))"
    using assms by (simp add: word_less_nat_alt)
  then show ?thesis
    using len by (simp add: ReadFrame_def ReadFull_def frame_header_fields Let_def)
qed

text \<open>C14: However the transport splits the writes, a frame that was written is read back exactly, with whatever
  follows it left for the next read; a write that fails has sent a proper prefix of the frame.\<close>

theorem WriteFrame_ReadFrame:
  assumes "WriteFrame f maxPayload w = (r, w')"
  shows "\<exists>sent. written w' = written w @ sent \<and>
    (r = Inr () \<longrightarrow> (\<forall>post. ReadFrame (sent @ post) maxPayload = Inr (f, post))) \<and>
    (r \<noteq> Inr () \<longrightarrow> (\<exists>unsent. unsent \<noteq> [] \<and> sent @ unsent = frame_header f (length (FPayload f)) @ FPayload f))"
proof -
  let ?h = "frame_header f (length (FPayload f))"
  let ?m = "if maxPayload = 0 then DefaultMaxPayload else maxPayload"
  obtain r1 w1 where hd: "WriteFrameHeader f (int (length (FPayload f))) maxPayload w = (r1, w1)"
    by fastforce
  have empty: "?h \<noteq> []"
    using length_frame_header [of f "length (FPayload f)"] by (auto simp: HeaderSize_def simp del: length_frame_header)
  show ?thesis
  proof (cases "length (FPayload f) \<le> unat ?m")
    case False
    then have "int (unat ?m) < int (length (FPayload f))"
      by linarith
    then have "r \<noteq> Inr () \<and> w' = w"
      using assms by (auto simp: WriteFrame_def WriteFrameHeader_def Let_def)
    then show ?thesis
      using empty by auto
  next
    case fits: True
    then have "\<not> int (unat ?m) < int (length (FPayload f))"
      by linarith
    then have run: "writeAll ?h w = (r1, w1)"
      using hd by (auto simp: WriteFrameHeader_def Let_def split: if_splits)
    obtain n where n: "written w1 = written w @ take n ?h" "r1 = Inr () \<longrightarrow> n = length ?h" "r1 \<noteq> Inr () \<longrightarrow> n < length ?h"
      using writeAll_outcome [OF run] by blast
    show ?thesis
    proof (cases r1)
      case (Inl e)
      then have "r = r1 \<and> w' = w1"
        using assms hd by (simp add: WriteFrame_def)
      then show ?thesis
        using n Inl by (intro exI [of _ "take n ?h"]) (auto intro!: exI [of _ "drop n ?h @ FPayload f"])
    next
      case (Inr u)
      then have "writeAll (FPayload f) w1 = (r, w')"
        using assms hd by (simp add: WriteFrame_def WriteFramePayload_def)
      then obtain k where k: "written w' = written w1 @ take k (FPayload f)" "r = Inr () \<longrightarrow> k = length (FPayload f)"
          "r \<noteq> Inr () \<longrightarrow> k < length (FPayload f)"
        using writeAll_outcome by blast
      have "\<exists>unsent. unsent \<noteq> [] \<and> (?h @ take k (FPayload f)) @ unsent = ?h @ FPayload f" if "r \<noteq> Inr ()"
        using that k(3) by (intro exI [of _ "drop k (FPayload f)"]) auto
      then show ?thesis
        using k n Inr ReadFrame_frame [OF fits] by (intro exI [of _ "?h @ take k (FPayload f)"]) auto
    qed
  qed
qed


definition example_frame :: frame where
  "example_frame = \<lparr>FKind = 1, FOp = 2, FFlags = 3, FRequestID = 4, FGeneration = 5, FStatus = 6, FPayload = [7, 8]\<rparr>"

lemma writeAll_open: "accepts w = [] \<Longrightarrow> writeAll data w = (Inr (), w\<lparr>written := written w @ data\<rparr>)"
  by (simp add: writeAll.simps [of data] writeAll.simps [of "[]"] Write_call_def)

lemma example_write: "\<exists>w'. WriteFrame example_frame 2 \<lparr>written = [], accepts = []\<rparr> = (Inr (), w')"
  by (simp add: WriteFrame_def WriteFrameHeader_def Let_def example_frame_def WriteFramePayload_def writeAll_open)

theorem WriteFrame_ReadFrame_witness:
  "\<exists>sent. \<forall>post. ReadFrame (sent @ post) 2 = Inr (example_frame, post)"
  using example_write WriteFrame_ReadFrame [of example_frame 2 "\<lparr>written = [], accepts = []\<rparr>" "Inr ()"] by blast

text \<open>A frame that is read never carries a payload over the limit, and reading it consumes exactly the header and
  the payload: the rest of the stream is untouched.\<close>

theorem ReadFrame_bounded:
  assumes "ReadFrame reader maxPayload = Inr (f, post)"
  shows "length (FPayload f) \<le> unat (if maxPayload = 0 then DefaultMaxPayload else maxPayload) \<and>
    drop HeaderSize reader = FPayload f @ post \<and> HeaderSize \<le> length reader \<and> take 4 reader = frameMagic"
proof -
  obtain n where n: "n = of_le32 (slice 32 36 (take HeaderSize reader))"
      "\<not> n > (if maxPayload = 0 then DefaultMaxPayload else maxPayload)" "HeaderSize \<le> length reader"
      "take 4 (take HeaderSize reader) = frameMagic"
      "unat n \<le> length (drop HeaderSize reader)" "FPayload f = take (unat n) (drop HeaderSize reader)"
      "post = drop (unat n) (drop HeaderSize reader)"
    using assms by (auto simp: ReadFrame_def ReadFull_def Let_def result_simps split: if_splits)
  have "drop HeaderSize reader = FPayload f @ post"
    unfolding n(6,7) by (simp only: append_take_drop_id)
  then show ?thesis
    using n(2-6) by (simp add: word_less_nat_alt HeaderSize_def)
qed

theorem ReadFrame_bounded_witness:
  "ReadFrame (frame_header example_frame 2 @ [7, 8, 9]) 2 = Inr (example_frame, [9]) \<and> length (FPayload example_frame) \<le> 2"
proof -
  have p: "length (FPayload example_frame) = 2" "FPayload example_frame = [7, 8]"
    by (simp_all add: example_frame_def)
  have "ReadFrame (frame_header example_frame 2 @ [7, 8, 9]) 2 = Inr (example_frame, [9])"
    using ReadFrame_frame [of example_frame 2 "[9]", unfolded p(1)] by (simp add: p(2))
  then show ?thesis
    using ReadFrame_bounded [of "frame_header example_frame 2 @ [7, 8, 9]" 2 example_frame "[9]"] by simp
qed

text \<open>C34: A directory entry survives the wire: what is decoded is what was encoded, except that the Unix epoch itself
  becomes the zero time and that the content generation travels only with the capability for it.\<close>

theorem Entry_roundtrip:
  assumes "entry_ok v"
  shows "rbind (Dec_EntryForCapabilities c (Dec_New (Enc_EntryForCapabilities v c []))) (\<lambda>(v, d). rbind (Dec_Done d) (\<lambda>_. Inr v)) =
    Inr (wire_entry (c AND CapabilityContentGeneration \<noteq> 0) v)"
  using Dec_entry_at [OF assms, of "c AND CapabilityContentGeneration \<noteq> 0" "[]" "[]"]
  by (simp add: Dec_EntryForCapabilities_def Enc_EntryForCapabilities_def Dec_New_at Dec_Done_def Dec_remaining_def dec_at_def)

definition example_entry :: entry where
  "example_entry = \<lparr>EPath = ''/a'', EName = ''a'', NodeID = 1, ParentID = 2, EType = 1, EMode = 420, UID = 0, GID = 0, ESize = 9,
     AllocSize = 16, EModTime = \<lparr>unix = 0, nanosecond = 0\<rparr>, ChangeTime = zero_time, AccessTime = \<lparr>unix = 5, nanosecond = 6\<rparr>,
     NamespaceID = 3, ContentGeneration = 4\<rparr>"

theorem Entry_roundtrip_witness:
  "rbind (Dec_EntryForCapabilities 0 (Dec_New (Enc_EntryForCapabilities example_entry 0 []))) (\<lambda>(v, d). rbind (Dec_Done d) (\<lambda>_. Inr v)) =
     Inr (example_entry\<lparr>EModTime := zero_time, ContentGeneration := 0\<rparr>)"
proof -
  have "entry_ok example_entry"
    by (simp add: entry_ok_def example_entry_def time_ok_def in_int64_def maxInt64_def zero_time_def)
  from Entry_roundtrip [OF this, of 0] show ?thesis
    by (simp add: wire_entry_def example_entry_def wire_time_def zero_time_def)
qed

text \<open>File-system statistics survive the wire.\<close>

theorem StatFS_roundtrip:
  "rbind (Dec_StatFS (Dec_New (Enc_StatFS s []))) (\<lambda>(s, d). rbind (Dec_Done d) (\<lambda>_. Inr s)) = Inr s"
  using Dec_StatFS_at [of "[]" s "[]"] by (simp add: Dec_New_at Dec_Done_def Dec_remaining_def dec_at_def)

lemma epoch_lost:
  "rbind (Dec_Time (Dec_New (Enc_Time \<lparr>unix = 0, nanosecond = 0\<rparr> []))) (\<lambda>(t, d). Inr t) = Inr zero_time \<and>
   zero_time \<noteq> \<lparr>unix = 0, nanosecond = 0\<rparr>"
  using Dec_Time_at [of "\<lparr>unix = 0, nanosecond = 0\<rparr>" "[]" "[]"]
  by (simp add: Dec_New_at time_ok_def in_int64_def maxInt64_def wire_time_def time_bytes_def zero_time_def)


section \<open>The descriptor file\<close>

lemma be_nat_snoc: "be_nat (bs @ [b]) = 256 * be_nat bs + unat b"
  by simp

lemma be_nat_less: "be_nat bs < 256 ^ length bs"
proof (induction bs rule: rev_induct)
  case Nil
  show ?case by simp
next
  case (snoc b bs)
  have step: "256 * y + x < 256 * (y + 1)" if "x < 256" for x y :: nat
    using that by simp
  have "256 * be_nat bs + unat b < 256 * (be_nat bs + 1)"
    by (rule step [OF unat_byte_less])
  also have "\<dots> \<le> 256 ^ length (bs @ [b])"
    using snoc by (simp del: be_nat.simps add: Suc_le_eq)
  finally show ?case
    unfolding be_nat_snoc .
qed

lemma be_nat_inject: "length as = length bs \<Longrightarrow> be_nat as = be_nat bs \<Longrightarrow> as = bs"
proof (induction as arbitrary: bs rule: rev_induct)
  case Nil
  then show ?case by simp
next
  case (snoc a as)
  then obtain b cs where bs: "bs = cs @ [b]"
    by (metis length_0_conv length_append_singleton nat.distinct(1) rev_exhaust)
  have "256 * be_nat as + unat a = 256 * be_nat cs + unat b"
    using snoc.prems(2) unfolding bs be_nat_snoc .
  moreover have digits: "x = x' \<and> y = y'" if "256 * y + x = 256 * y' + x'" "x < 256" "x' < 256" for x x' y y' :: nat
  proof -
    have "(256 * y + x) mod 256 = x" "(256 * y + x) div 256 = y" "(256 * y' + x') mod 256 = x'" "(256 * y' + x') div 256 = y'"
      using that(2,3) by simp_all
    then show ?thesis
      using that(1) by metis
  qed
  ultimately have "unat a = unat b" and "be_nat as = be_nat cs"
    using digits [OF _ unat_byte_less unat_byte_less] by blast+
  then show ?case
    using snoc.IH [of cs] snoc.prems(1) bs by (simp del: be_nat.simps add: word_unat_eq_iff)
qed

lemma le_of_le:
  "length bs = 4 \<Longrightarrow> le32 (of_le32 bs) = bs" "length bs = 8 \<Longrightarrow> le64 (of_le64 bs) = bs"
proof -
  assume "length bs = 4"
  then have "be_nat (be32 (of_le32 bs)) = be_nat (rev bs)"
    using be_nat_less [of "rev bs"]
    by (simp del: be_nat.simps add: be_nat_be32 of_le32_def of_be32_def unsigned_of_nat take_bit_nat_eq_self)
  then have "be32 (of_le32 bs) = rev bs"
    using \<open>length bs = 4\<close> by (intro be_nat_inject) simp_all
  then show "le32 (of_le32 bs) = bs"
    by (simp add: le32_def)
next
  assume "length bs = 8"
  then have "be_nat (be64 (of_le64 bs)) = be_nat (rev bs)"
    using be_nat_less [of "rev bs"]
    by (simp del: be_nat.simps add: be_nat_be64 of_le64_def of_be64_def unsigned_of_nat take_bit_nat_eq_self)
  then have "be64 (of_le64 bs) = rev bs"
    using \<open>length bs = 8\<close> by (intro be_nat_inject) simp_all
  then show "le64 (of_le64 bs) = bs"
    by (simp add: le64_def)
qed

lemma le16_of_le16: "length bs = 2 \<Longrightarrow> le16 (of_le16 bs) = bs"
proof -
  assume len: "length bs = 2"
  have small: "be_nat (rev bs) < 65536"
    using be_nat_less [of "rev bs"] len by (simp del: be_nat.simps)
  define h where "h = of_le16 bs"
  have h: "unat h = be_nat (rev bs)"
    using small by (simp del: be_nat.simps add: h_def of_le16_def unsigned_of_nat take_bit_nat_eq_self)
  have "be_nat (rev (le16 h)) = unat h"
    using small digit_step [of "unat h" 1] unfolding h [symmetric]
    by (simp add: le16_def unat_ucast_drop_bit8 unat_ucast8 [of h] less_mult_imp_div_less)
  then have "rev (le16 h) = rev bs"
    using len by (intro be_nat_inject) (simp_all del: be_nat.simps add: h)
  then show "le16 (of_le16 bs) = bs"
    by (simp add: h_def)
qed

text \<open>What a successful read says about the bytes that were there.\<close>

lemma Dec_Uint16_Inr:
  assumes "Dec_Uint16 (dec_at pre data) = Inr (v, d)"
  shows "\<exists>post. data = le16 v @ post \<and> d = dec_at (pre @ le16 v) post"
proof -
  have *: "2 \<le> length data" "v = of_le16 (take 2 data)" "d = dec_at (pre @ take 2 data) (drop 2 data)"
    using assms by (auto simp: Dec_Uint16_def Dec_Raw_Inr result_simps)
  then have "le16 v = take 2 data"
    by (simp add: le16_of_le16)
  then show ?thesis
    using *(3) by (metis append_take_drop_id)
qed

lemma Dec_Uint64_Inr:
  assumes "Dec_Uint64 (dec_at pre data) = Inr (v, d)"
  shows "\<exists>post. data = le64 v @ post \<and> d = dec_at (pre @ le64 v) post"
proof -
  have *: "8 \<le> length data" "v = of_le64 (take 8 data)" "d = dec_at (pre @ take 8 data) (drop 8 data)"
    using assms by (auto simp: Dec_Uint64_def Dec_Raw_Inr result_simps)
  then have "le64 v = take 8 data"
    by (simp add: le_of_le)
  then show ?thesis
    using *(3) by (metis append_take_drop_id)
qed

lemma Dec_Bytes_Inr:
  assumes "Dec_Bytes limit (dec_at pre data) = Inr (v, d)" and "0 < limit" and "limit < 4294967296"
  shows "\<exists>post. data = le32 (of_nat (length v)) @ v @ post \<and> d = dec_at (pre @ le32 (of_nat (length v)) @ v) post \<and> int (length v) \<le> limit"
proof -
  define n where "n = of_le32 (take 4 data)"
  have *: "4 \<le> length data" "\<not> n > word_of_int limit" "int (unat n) \<le> int (length data) - 4" "v = take (unat n) (drop 4 data)"
      "d = dec_at ((pre @ take 4 data) @ take (unat n) (drop 4 data)) (drop (unat n) (drop 4 data))"
    using assms(1,2) by (auto simp: Dec_Bytes_def Dec_Uint32_def Dec_Raw_Inr result_simps n_def split: if_splits)
  have len: "length v = unat n"
    using *(1,3) unfolding *(4) length_take length_drop by linarith
  have le: "le32 (of_nat (length v)) = take 4 data"
    using *(1) le_of_le(1) [of "take 4 data"] by (simp add: len n_def)
  have "unat (word_of_int limit :: uint32) = nat limit"
    using assms(2,3) by (simp add: unsigned_of_int take_bit_int_eq_self)
  then have "int (length v) \<le> limit"
    using *(2) assms(2) unfolding word_less_nat_alt len by linarith
  moreover have "data = le32 (of_nat (length v)) @ v @ drop (unat n) (drop 4 data)"
    unfolding le unfolding *(4) by (simp only: append_take_drop_id)
  ultimately show ?thesis
    using *(4,5) le by auto
qed


lemma case_sum_Inr: "(case r of Inl a \<Rightarrow> Inl (e a) | Inr p \<Rightarrow> f p) = Inr y \<longleftrightarrow> (\<exists>p. r = Inr p \<and> f p = Inr y)"
  by (cases r) auto

lemma if_Inl_Inr: "(if b then Inl e else m) = Inr y \<longleftrightarrow> \<not> b \<and> m = Inr y"
  by simp

definition descriptor_bytes :: "bytes \<Rightarrow> uint64 \<Rightarrow> string \<Rightarrow> bytes \<Rightarrow> bytes" where
  "descriptor_bytes reserved generation socket token =
     descriptorMagic @ le16 WireVersion @ reserved @ le64 generation @
     (le32 (of_nat (length socket)) @ go_bytes socket) @ le32 (of_nat (length token)) @ token"

lemma EncodeDescriptor_Inr:
  "EncodeDescriptor d = Inr bs \<longleftrightarrow> DGeneration d \<noteq> 0 \<and> SocketPath d \<noteq> '''' \<and> length (SocketPath d) \<le> 4096 \<and>
     16 \<le> length (DToken d) \<and> length (DToken d) \<le> 256 \<and>
     bs = descriptor_bytes (le16 0) (DGeneration d) (SocketPath d) (DToken d)"
  by (auto simp: EncodeDescriptor_def Enc_simps Let_def descriptor_bytes_def)

lemma descriptorMagic_length [simp]: "length descriptorMagic = 4"
  by (simp add: descriptorMagic_def)

lemma Dec_Uint16_reserved: "length r = 2 \<Longrightarrow> Dec_Uint16 (dec_at pre (r @ post)) = Inr (of_le16 r, dec_at (pre @ r) post)"
  by (simp add: Dec_Uint16_def Dec_Raw_at)

lemma DecodeDescriptor_bytes:
  assumes "length r = 2" and "g \<noteq> 0" and "s \<noteq> ''''" and "length s \<le> 4096" and "16 \<le> length t" and "length t \<le> 256"
  shows "DecodeDescriptor (descriptor_bytes r g s t) = Inr \<lparr>DGeneration = g, SocketPath = s, DToken = t\<rparr>"
proof -
  have fits: "fits_limit (length s) 4096" "fits_limit (length t) 256"
    using assms by (simp_all add: fits_limit_def)
  show ?thesis
    using assms fits Dec_Bytes_at [OF fits(2), of _ "[]"]
    by (simp add: DecodeDescriptor_def descriptor_bytes_def Dec_New_at Dec_Raw_at Dec_Uint16_reserved wire_simps)
      (simp add: Dec_Done_def Dec_remaining_def dec_at_def)
qed

text \<open>C33: The resource descriptor is decoded exactly: what \<open>EncodeDescriptor\<close> accepts is decoded to itself, and
  conversely a descriptor that decodes encodes to the same bytes up to the two reserved ones, so that nothing but those two bytes
  is ignored by the reader.\<close>

theorem DecodeDescriptor_exact:
  "DecodeDescriptor data = Inr d \<longleftrightarrow>
     (\<exists>reserved bs. length reserved = 2 \<and> EncodeDescriptor d = Inr bs \<and> data = take 6 bs @ reserved @ drop 8 bs)"
  (is "?decoded \<longleftrightarrow> ?encoded")
proof
  assume ?encoded
  then obtain r where r: "length r = 2" and d: "DGeneration d \<noteq> 0" "SocketPath d \<noteq> ''''" "length (SocketPath d) \<le> 4096"
      "16 \<le> length (DToken d)" "length (DToken d) \<le> 256"
    and data: "data = take 6 (descriptor_bytes (le16 0) (DGeneration d) (SocketPath d) (DToken d)) @ r @
        drop 8 (descriptor_bytes (le16 0) (DGeneration d) (SocketPath d) (DToken d))"
    by (auto simp: EncodeDescriptor_Inr)
  then have "data = descriptor_bytes r (DGeneration d) (SocketPath d) (DToken d)"
    by (simp add: descriptor_bytes_def)
  then show ?decoded
    using DecodeDescriptor_bytes [OF r d] by simp
next
  assume ?decoded
  then obtain d1 d2 d3 d4 d5 r where
      magic: "4 \<le> length data" "take 4 data = descriptorMagic" "d1 = dec_at descriptorMagic (drop 4 data)"
    and version: "Dec_Uint16 d1 = Inr (WireVersion, d2)" and res: "Dec_Uint16 d2 = Inr (r, d3)"
    and gen: "Dec_Uint64 d3 = Inr (DGeneration d, d4)" "DGeneration d \<noteq> 0"
    and sock: "Dec_Bytes 4096 d4 = Inr (go_bytes (SocketPath d), d5)" "SocketPath d \<noteq> ''''"
    and tok: "\<exists>d6. Dec_Bytes 256 d5 = Inr (DToken d, d6) \<and> Dec_remaining d6 = 0" "16 \<le> length (DToken d)"
    by (auto simp: DecodeDescriptor_def Dec_New_at Dec_Raw_Inr Dec_String_def Dec_Done_def result_simps
        case_sum_Inr if_Inl_Inr)
  obtain p1 where p1: "drop 4 data = le16 WireVersion @ p1" "d2 = dec_at (descriptorMagic @ le16 WireVersion) p1"
    using Dec_Uint16_Inr [OF version [unfolded magic(3)]] by blast
  obtain p2 where p2: "p1 = le16 r @ p2" "d3 = dec_at ((descriptorMagic @ le16 WireVersion) @ le16 r) p2"
    using Dec_Uint16_Inr [OF res [unfolded p1(2)]] by blast
  obtain p3 where p3: "p2 = le64 (DGeneration d) @ p3"
      "d4 = dec_at (((descriptorMagic @ le16 WireVersion) @ le16 r) @ le64 (DGeneration d)) p3"
    using Dec_Uint64_Inr [OF gen(1) [unfolded p2(2)]] by blast
  obtain p4 where p4: "p3 = le32 (of_nat (length (SocketPath d))) @ go_bytes (SocketPath d) @ p4" "length (SocketPath d) \<le> 4096"
      "\<exists>pre. d5 = dec_at pre p4"
    using Dec_Bytes_Inr [OF sock(1) [unfolded p3(2)]] by auto
  obtain p5 where p5: "p4 = le32 (of_nat (length (DToken d))) @ DToken d @ p5" "length (DToken d) \<le> 256" "p5 = []"
    using p4(3) tok(1) by (fastforce dest!: Dec_Bytes_Inr simp: Dec_remaining_def dec_at_def)
  have "data = descriptorMagic @ drop 4 data"
    using magic(2) by (metis append_take_drop_id)
  then have "data = descriptor_bytes (le16 r) (DGeneration d) (SocketPath d) (DToken d)"
    using p1(1) p2(1) p3(1) p4(1) p5(1,3) by (simp add: descriptor_bytes_def)
  then have "data = take 6 (descriptor_bytes (le16 0) (DGeneration d) (SocketPath d) (DToken d)) @ le16 r @
      drop 8 (descriptor_bytes (le16 0) (DGeneration d) (SocketPath d) (DToken d))"
    by (simp add: descriptor_bytes_def)
  moreover have "EncodeDescriptor d = Inr (descriptor_bytes (le16 0) (DGeneration d) (SocketPath d) (DToken d))"
    using gen(2) sock(2) tok(2) p4(2) p5(2) by (simp add: EncodeDescriptor_Inr)
  ultimately show ?encoded
    using length_wire(3) by blast
qed

end
