(* ===== verification/Contain.thy ===== *)
theory Contain
  imports Bufio Fs Go_Json Sha256 "HOL-Library.Sublist"
begin

text \<open>
  Exact containment of one rollout in another, \<open>src/internal/contain/contain.go\<close>: the rollouts are cut into
  records (lines), the records of the contained one are searched among those of the container by the
  fingerprints (digest and size) with the algorithm of Knuth, Morris and Pratt, and every hit is compared byte by
  byte.
\<close>

section \<open>Data\<close>

record record_fingerprint =
  digest :: bytes
  fsize :: int64

record record_info =
  index :: int64
  rstart :: int64
  rend :: int64
  fingerprint :: record_fingerprint

record contain_input =
  CID :: string
  CPath :: string

record contain_result =
  ContainedID :: string
  ContainerID :: string
  ContainedPath :: string
  ContainerPath :: string
  IgnoredSessionMeta :: bool
  Contained :: bool
  VerifiedExact :: bool
  ContainedRecords :: int64
  ContainedBytes :: int64
  ContainerStartRecord :: int64
  ContainerEndRecord :: int64
  ContainerStartByte :: int64
  ContainerEndByte :: int64

datatype contain_error =
    PathsRequired | ScanContained | NoComparableRecords | ScanContainer

definition firstRecordCaptureLimit :: nat where
  "firstRecordCaptureLimit = 8 * 1024 * 1024"

section \<open>Records\<close>

definition trim_newline :: "bytes \<Rightarrow> bytes" where
  "trim_newline bs = (if bs \<noteq> [] \<and> last bs = 10 then butlast bs else bs)"

definition type_field :: "bytes \<Rightarrow> jval \<Rightarrow> string \<Rightarrow> string option" where
  "type_field k v old = (if field_is k ''type'' then dec_string v old else Some old)"

definition isSessionMeta :: "bytes \<Rightarrow> bool" where
  "isSessionMeta r =
     (case Option.bind (parse_json (trim_newline r)) (\<lambda>v. dec_struct type_field v '''') of
        None \<Rightarrow> False
      | Some t \<Rightarrow> t = ''session_meta'')"

text \<open>The inner loop: the bytes of one record (\<open>hasher\<close> and \<open>size\<close> run over them), the capture of the first record as
  long as it fits, whether the end of the file was reached, and the rest of the input.\<close>

function read_record :: "nat \<Rightarrow> bool \<Rightarrow> bytes \<Rightarrow> bytes \<Rightarrow> bytes option \<Rightarrow> bytes \<times> bytes option \<times> bool \<times> bytes" where
  "read_record n first input bs capture =
     (case ReadSlice (Suc n) input of (fragment, how, input') \<Rightarrow>
        let bs = bs @ fragment;
            capture = (if fragment \<noteq> [] \<and> first then
                         (case capture of
                            None \<Rightarrow> None
                          | Some c \<Rightarrow> if length c + length fragment \<le> firstRecordCaptureLimit then Some (c @ fragment) else None)
                       else capture)
        in case how of
             Delimited \<Rightarrow> (bs, capture, False, input')
           | BufferFull \<Rightarrow> read_record n first input' bs capture
           | SliceEOF \<Rightarrow> (bs, capture, True, input'))"
  by pat_completeness auto
termination
  by (relation "measure (\<lambda>(_, _, input, _, _). length input)") (auto dest!: ReadSlice_consumes [OF sym])

declare read_record.simps [simp del]

lemma read_record_split:
  "read_record n first input bs capture = (r, c, eof, input') \<Longrightarrow>
   bs @ input = r @ input' \<and> (\<not> eof \<longrightarrow> length input' < length input) \<and> (eof \<longrightarrow> input' = [])"
proof (induction n first input bs capture rule: read_record.induct)
  case (1 n first input bs capture)
  obtain fragment how rest1 where rs: "ReadSlice (Suc n) input = (fragment, how, rest1)"
    by (metis prod_cases3)
  note unfolded = "1.prems" [unfolded read_record.simps [of n first input bs capture] rs prod.case Let_def]
  show ?case
  proof (cases how)
    case BufferFull
    then show ?thesis
      using "1.IH" [OF rs [symmetric] refl refl refl BufferFull] unfolded ReadSlice_split [OF rs] ReadSlice_consumes [OF rs]
      by fastforce
  qed (use unfolded ReadSlice_split [OF rs] ReadSlice_consumes [OF rs] in auto)
qed

text \<open>The outer loop, with a visitor that may stop it.\<close>

function scan_loop :: "nat \<Rightarrow> bool \<Rightarrow> (record_info \<Rightarrow> 's \<Rightarrow> 'e + 's) \<Rightarrow> int64 \<Rightarrow> int64 \<Rightarrow> bytes \<Rightarrow> 's \<Rightarrow> 'e + 's" where
  "scan_loop n ignoreSessionMeta visit offset recordIndex input s =
     (case read_record n (recordIndex = 0) input [] (Some []) of (r, capture, reachedEOF, input') \<Rightarrow>
        if r = [] then Inr s
        else let skip = ignoreSessionMeta \<and> recordIndex = 0 \<and> (case capture of Some c \<Rightarrow> isSessionMeta c | None \<Rightarrow> False);
                 info = \<lparr>index = recordIndex, rstart = offset, rend = offset + int (length r),
                         fingerprint = \<lparr>digest = sha256 r, fsize = int (length r)\<rparr>\<rparr>
             in rbind (if skip then Inr s else visit info s) (\<lambda>s.
                  if reachedEOF then Inr s
                  else scan_loop n ignoreSessionMeta visit (offset + int (length r)) (recordIndex + 1) input' s))"
  by pat_completeness auto
termination
  by (relation "measure (\<lambda>(_, _, _, _, _, input, _). length input)") (auto dest!: read_record_split [OF sym])

declare scan_loop.simps [simp del]

definition scanRecords :: "fs \<Rightarrow> string \<Rightarrow> bool \<Rightarrow> (record_info \<Rightarrow> 's \<Rightarrow> 'e + 's) \<Rightarrow> 'e \<Rightarrow> 's \<Rightarrow> 'e + 's" where
  "scanRecords w path ignoreSessionMeta visit open_error s =
     (case ReadFile w path of
        None \<Rightarrow> Inl open_error
      | Some input \<Rightarrow> scan_loop (read_buffer - 1) ignoreSessionMeta visit 0 0 input s)"

section \<open>Matching\<close>

definition sameFingerprint :: "record_fingerprint \<Rightarrow> record_fingerprint \<Rightarrow> bool" where
  "sameFingerprint left right \<longleftrightarrow> fsize left = fsize right \<and> digest left = digest right"

text \<open>The loop \<open>for matched > 0 && !same(needle[matched], x) { matched = prefix[matched-1] }\<close>. Every entry of the table is
  below its place, so that \<open>matched\<close> rounds are enough.\<close>

primrec fall_back :: "nat \<Rightarrow> record_fingerprint list \<Rightarrow> nat list \<Rightarrow> record_fingerprint \<Rightarrow> nat \<Rightarrow> nat" where
  "fall_back 0 needle table x matched = matched"
| "fall_back (Suc k) needle table x matched =
     (if matched > 0 \<and> \<not> sameFingerprint (needle ! matched) x
      then fall_back k needle table x (table ! (matched - 1))
      else matched)"

definition advance :: "record_fingerprint list \<Rightarrow> nat list \<Rightarrow> record_fingerprint \<Rightarrow> nat \<Rightarrow> nat" where
  "advance needle table x matched =
     (let matched = fall_back matched needle table x matched
      in if sameFingerprint (needle ! matched) x then matched + 1 else matched)"

text \<open>The table is filled from left to right; \<open>table\<close> holds the entries computed so far.\<close>

primrec prefix_loop :: "record_fingerprint list \<Rightarrow> record_fingerprint list \<Rightarrow> nat list \<Rightarrow> nat \<Rightarrow> nat list" where
  "prefix_loop records [] table matched = table"
| "prefix_loop records (x # xs) table matched =
     (let matched = advance records table x matched
      in prefix_loop records xs (table @ [matched]) matched)"

definition buildPrefixTable :: "record_fingerprint list \<Rightarrow> nat list" where
  "buildPrefixTable records = (if records = [] then [] else prefix_loop records (tl records) [0] 0)"

section \<open>Comparing ranges\<close>

text \<open>\<open>io.ReadFull\<close> on a section of a file, in chunks.\<close>

function equal_loop :: "nat \<Rightarrow> bytes \<Rightarrow> bytes \<Rightarrow> nat \<Rightarrow> bool option" where
  "equal_loop n left right remaining =
     (if remaining = 0 then Some True
      else let chunk = min (Suc n) remaining
           in if length left < chunk \<or> length right < chunk then None
              else if take chunk left \<noteq> take chunk right then Some False
              else equal_loop n (drop chunk left) (drop chunk right) (remaining - chunk))"
  by pat_completeness auto
termination
  by (relation "measure (\<lambda>(_, _, _, remaining). remaining)") auto

declare equal_loop.simps [simp del]

definition section_of :: "bytes \<Rightarrow> int64 \<Rightarrow> int64 \<Rightarrow> bytes" where
  "section_of data off sz = (if off < 0 then [] else take (nat sz) (drop (nat off) data))"

definition equalFileRanges :: "fs \<Rightarrow> string \<Rightarrow> int64 \<Rightarrow> string \<Rightarrow> int64 \<Rightarrow> int64 \<Rightarrow> bool option" where
  "equalFileRanges w leftPath leftOffset rightPath rightOffset sz =
     (case (ReadFile w leftPath, ReadFile w rightPath) of
        (Some left, Some right) \<Rightarrow>
          equal_loop (read_buffer - 1) (section_of left leftOffset sz) (section_of right rightOffset sz) (nat sz)
      | _ \<Rightarrow> None)"

section \<open>Check\<close>

record needle_state =
  needle :: "record_fingerprint list"
  needleStart :: int64
  needleEnd :: int64

definition collect :: "record_info \<Rightarrow> needle_state \<Rightarrow> contain_error + needle_state" where
  "collect r s =
     Inr (let s = (if needleStart s < 0 then s\<lparr>needleStart := rstart r\<rparr> else s)
          in s\<lparr>needleEnd := rend r, needle := needle s @ [fingerprint r]\<rparr>)"

datatype stop = Found contain_result | Failed contain_error

definition search ::
    "fs \<Rightarrow> needle_state \<Rightarrow> nat list \<Rightarrow> record_info \<Rightarrow> contain_result \<times> nat \<Rightarrow> stop + (contain_result \<times> nat)" where
  "search w ns table r rm =
     (case rm of (result, matched) \<Rightarrow>
        let matched = advance (needle ns) table (fingerprint r) matched
        in if matched \<noteq> length (needle ns) then Inr (result, matched)
           else let startByte = rend r - ContainedBytes result
             in case equalFileRanges w (ContainedPath result) (needleStart ns) (ContainerPath result) startByte (ContainedBytes result) of
                  None \<Rightarrow> Inl (Failed ScanContainer)
                | Some True \<Rightarrow>
                    Inl (Found (result\<lparr>Contained := True, VerifiedExact := True,
                      ContainerStartRecord := index r - int (length (needle ns)) + 1, ContainerEndRecord := index r,
                      ContainerStartByte := startByte, ContainerEndByte := rend r\<rparr>))
                | Some False \<Rightarrow> Inr (result, table ! (matched - 1)))"

definition new_result :: "contain_input \<Rightarrow> contain_input \<Rightarrow> bool \<Rightarrow> contain_result" where
  "new_result inner outer ignore =
     \<lparr>ContainedID = CID inner, ContainerID = CID outer, ContainedPath = CPath inner,
      ContainerPath = CPath outer, IgnoredSessionMeta = ignore, Contained = False, VerifiedExact = False,
      ContainedRecords = 0, ContainedBytes = 0, ContainerStartRecord = 0, ContainerEndRecord = 0,
      ContainerStartByte = 0, ContainerEndByte = 0\<rparr>"

definition Check :: "fs \<Rightarrow> contain_input \<Rightarrow> contain_input \<Rightarrow> bool \<Rightarrow> contain_error + contain_result" where
  "Check w inner outer ignoreSessionMeta =
     (if CPath inner = '''' \<or> CPath outer = '''' then Inl PathsRequired
      else rbind (scanRecords w (CPath inner) ignoreSessionMeta collect ScanContained
                    \<lparr>needle = [], needleStart = -1, needleEnd = 0\<rparr>) (\<lambda>ns.
        if needle ns = [] then Inl NoComparableRecords
        else let result = (new_result inner outer ignoreSessionMeta)\<lparr>ContainedRecords := int (length (needle ns)),
                   ContainedBytes := needleEnd ns - needleStart ns\<rparr>;
                 table = buildPrefixTable (needle ns)
             in case scanRecords w (CPath outer) ignoreSessionMeta (search w ns table) (Failed ScanContainer) (result, 0) of
                  Inl (Found r) \<Rightarrow> Inr r
                | Inl (Failed e) \<Rightarrow> Inl e
                | Inr (result, _) \<Rightarrow> Inr result))"

section \<open>The matcher finds the longest match\<close>

lemma sameFingerprint_eq [simp]: "sameFingerprint a b \<longleftrightarrow> a = b"
  by (auto simp: sameFingerprint_def)

text \<open>A prefix of \<open>p\<close> of length \<open>k\<close> ends the text \<open>t\<close>; the longest such below a bound.\<close>

definition is_match :: "'a list \<Rightarrow> 'a list \<Rightarrow> nat \<Rightarrow> bool" where
  "is_match p t k \<longleftrightarrow> k \<le> length p \<and> suffix (take k p) t"

definition longest :: "'a list \<Rightarrow> 'a list \<Rightarrow> nat \<Rightarrow> nat \<Rightarrow> bool" where
  "longest p t b k \<longleftrightarrow> is_match p t k \<and> k < b \<and> (\<forall>j. is_match p t j \<longrightarrow> j < b \<longrightarrow> j \<le> k)"

lemma is_match_0 [simp]: "is_match p t 0"
  by (simp add: is_match_def)

lemma is_match_Suc: "is_match p (t @ [x]) (Suc k) \<longleftrightarrow> is_match p t k \<and> k < length p \<and> p ! k = x"
  by (auto simp: is_match_def take_Suc_conv_app_nth suffix_def)

lemma is_match_below:
  assumes "is_match p t m" and "k \<le> m"
  shows "is_match p t k \<longleftrightarrow> is_match p (take m p) k"
proof -
  have m: "m \<le> length p" "suffix (take m p) t"
    using assms(1) by (auto simp: is_match_def)
  have "suffix (take k p) t \<longleftrightarrow> suffix (take k p) (take m p)"
    using m(2) suffix_length_suffix [of "take k p" t "take m p"] assms(2) by (auto intro: suffix_order.trans)
  then show ?thesis
    using assms(2) m(1) by (auto simp: is_match_def)
qed

definition table_ok :: "record_fingerprint list \<Rightarrow> nat list \<Rightarrow> bool" where
  "table_ok p table \<longleftrightarrow> length table \<le> length p \<and> (\<forall>j<length table. longest p (take (Suc j) p) (Suc j) (table ! j))"

lemma table_next:
  assumes "table_ok p table" and "is_match p t m" and "0 < m" and "m \<le> length table"
  shows "longest p t m (table ! (m - 1))"
proof -
  have "longest p (take m p) m (table ! (m - 1))"
    using assms(1,3,4) by (auto simp: table_ok_def dest: spec [of _ "m - 1"])
  then show ?thesis
    using is_match_below [OF assms(2)] by (auto simp: longest_def)
qed

lemma fall_back_longest:
  assumes "table_ok p table" and "is_match p t m" and "m \<le> fuel" and "m \<le> length table"
    and "\<And>k. is_match p t k \<Longrightarrow> k < b \<Longrightarrow> p ! k = x \<Longrightarrow> k \<le> m"
  shows "is_match p t (fall_back fuel p table x m) \<and> fall_back fuel p table x m \<le> m \<and>
    (fall_back fuel p table x m = 0 \<or> p ! fall_back fuel p table x m = x) \<and>
    (\<forall>k. is_match p t k \<longrightarrow> k < b \<longrightarrow> p ! k = x \<longrightarrow> k \<le> fall_back fuel p table x m)"
  using assms(2-5)
proof (induction fuel arbitrary: m)
  case 0
  then show ?case by simp
next
  case (Suc fuel)
  show ?case
  proof (cases "m > 0 \<and> p ! m \<noteq> x")
    case True
    define m' where "m' = table ! (m - 1)"
    have m': "longest p t m m'"
      using table_next [OF assms(1)] Suc.prems True by (simp add: m'_def)
    have below: "k \<le> m'" if "is_match p t k" "k < b" "p ! k = x" for k
      using Suc.prems(4) [OF that] True that m' by (auto simp: longest_def order.order_iff_strict)
    have "is_match p t (fall_back fuel p table x m') \<and> fall_back fuel p table x m' \<le> m' \<and>
      (fall_back fuel p table x m' = 0 \<or> p ! fall_back fuel p table x m' = x) \<and>
      (\<forall>k. is_match p t k \<longrightarrow> k < b \<longrightarrow> p ! k = x \<longrightarrow> k \<le> fall_back fuel p table x m')"
      using m' Suc.prems(2,3) below by (intro Suc.IH) (auto simp: longest_def)
    then show ?thesis
      using True m' by (auto simp: m'_def longest_def)
  next
    case False
    then show ?thesis
      using Suc.prems by auto
  qed
qed

lemma advance_longest:
  assumes "table_ok p table" and "longest p t b m" and "m \<le> length table" and "0 < b" and "b \<le> length p"
  shows "longest p (t @ [x]) (Suc b) (advance p table x m)"
proof -
  define f where "f = fall_back m p table x m"
  have f: "is_match p t f" "f \<le> m" "f = 0 \<or> p ! f = x" "\<And>k. is_match p t k \<Longrightarrow> k < b \<Longrightarrow> p ! k = x \<Longrightarrow> k \<le> f"
    using fall_back_longest [OF assms(1), of t m m b x] assms(2,3) by (auto simp: f_def longest_def)
  have fb: "f < b" "f < length p"
    using f(2) assms(2,5) by (auto simp: longest_def)
  have only: "j = 0 \<or> (\<exists>k. j = Suc k \<and> is_match p t k \<and> k < length p \<and> p ! k = x)" if "is_match p (t @ [x]) j" for j
    using that by (cases j) (auto simp: is_match_Suc)
  show ?thesis
  proof (cases "p ! f = x")
    case True
    have "advance p table x m = Suc f"
      using True by (simp add: advance_def f_def [symmetric] Let_def)
    moreover have "j \<le> Suc f" if "is_match p (t @ [x]) j" "j < Suc b" for j
      using only [OF that(1)] f(4) that(2) by auto
    ultimately show ?thesis
      using True f(1) fb by (simp add: longest_def is_match_Suc)
  next
    case False
    then have "advance p table x m = 0"
      using f(3) by (auto simp: advance_def f_def [symmetric] Let_def)
    moreover have "j = 0" if "is_match p (t @ [x]) j" "j < Suc b" for j
      using only [OF that(1)] f(3,4) that(2) False by force
    ultimately show ?thesis
      by (simp add: longest_def)
  qed
qed

lemma prefix_loop_ok:
  "table_ok p table \<Longrightarrow> table \<noteq> [] \<Longrightarrow> last table = m \<Longrightarrow> drop (length table) p = xs \<Longrightarrow>
   table_ok p (prefix_loop p xs table m) \<and> length (prefix_loop p xs table m) = length table + length xs"
proof (induction xs arbitrary: table m)
  case Nil
  then show ?case by simp
next
  case (Cons x xs)
  define i where "i = length table"
  have i: "0 < i" "i < length p" "p ! i = x" "drop (Suc i) p = xs"
    using Cons.prems(2,4) by (auto simp: i_def) (metis drop_eq_Nil list.distinct(1) not_le, metis nth_via_drop, metis drop_Suc list.sel(3) tl_drop)
  have "longest p (take i p) i m"
    using Cons.prems(1-3) i(1) by (auto simp: table_ok_def i_def last_conv_nth dest: spec [of _ "length table - 1"])
  moreover have "m \<le> length table"
    using calculation by (auto simp: longest_def i_def)
  ultimately have "longest p (take i p @ [x]) (Suc i) (advance p table x m)"
    using advance_longest [OF Cons.prems(1), of "take i p" i m x] i by simp
  then have "longest p (take (Suc i) p) (Suc i) (advance p table x m)"
    using i by (simp add: take_Suc_conv_app_nth)
  then have "table_ok p (table @ [advance p table x m])"
    using Cons.prems(1) i(2) by (auto simp: table_ok_def i_def nth_append less_Suc_eq)
  then have "table_ok p (prefix_loop p xs (table @ [advance p table x m]) (advance p table x m)) \<and>
    length (prefix_loop p xs (table @ [advance p table x m]) (advance p table x m)) = Suc (length table) + length xs"
    using Cons.IH [of "table @ [advance p table x m]" "advance p table x m"] i(4) by (simp add: i_def)
  then show ?case
    by (simp add: Let_def)
qed

lemma buildPrefixTable_ok: "p \<noteq> [] \<Longrightarrow> table_ok p (buildPrefixTable p) \<and> length (buildPrefixTable p) = length p"
proof -
  assume p: "p \<noteq> []"
  have "table_ok p [0]"
    using p by (auto simp: table_ok_def longest_def Suc_le_eq)
  then show ?thesis
    using prefix_loop_ok [of p "[0]" 0 "tl p"] p by (simp add: buildPrefixTable_def drop_Suc)
qed


section \<open>The records of a rollout\<close>

text \<open>The lines of a text, each with its end, whatever the size of the buffer.\<close>

fun lines_of :: "bytes \<Rightarrow> bytes list" where
  "lines_of [] = []"
| "lines_of (b # bs) =
     (if b = 10 then [b] # lines_of bs
      else case lines_of bs of [] \<Rightarrow> [[b]] | l # ls \<Rightarrow> (b # l) # ls)"

lemma concat_lines [simp]: "concat (lines_of bs) = bs"
  by (induction bs) (auto split: list.splits)

lemma lines_nonempty: "[] \<notin> set (lines_of bs)"
  by (induction bs) (auto split: list.splits)

lemma lines_of_open: "10 \<notin> set l \<Longrightarrow> lines_of l = (if l = [] then [] else [l])"
  by (induction l) (auto split: list.splits)

lemma lines_of_line: "10 \<notin> set l \<Longrightarrow> lines_of (l @ 10 # bs) = (l @ [10]) # lines_of bs"
  by (induction l) auto

lemma index_byte_Some: "index_byte c bs = Some i \<Longrightarrow> c \<notin> set (take i bs) \<and> bs ! i = c \<and> i < length bs"
proof (induction bs arbitrary: i)
  case Nil
  then show ?case by simp
next
  case (Cons b bs)
  then show ?case by (cases i) (auto split: if_splits)
qed

lemma index_byte_None: "index_byte c bs = None \<Longrightarrow> c \<notin> set bs"
  by (induction bs) (auto split: if_splits)

lemma ReadSlice_line:
  assumes "ReadSlice n input = (fragment, how, input')"
  shows "case how of Delimited \<Rightarrow> \<exists>l. fragment = l @ [10] \<and> 10 \<notin> set l | _ \<Rightarrow> 10 \<notin> set fragment"
proof (cases "index_byte 10 (take n input)")
  case None
  then show ?thesis
    using assms index_byte_None [OF None] by (auto simp: ReadSlice_def split: if_splits)
next
  case (Some i)
  have i: "10 \<notin> set (take i (take n input))" "take n input ! i = 10" "i < length (take n input)"
    using index_byte_Some [OF Some] by auto
  then have "take (i + 1) input = take i input @ [10]" "10 \<notin> set (take i input)"
    by (auto simp: take_Suc_conv_app_nth min_def split: if_splits)
  then show ?thesis
    using assms Some by (simp add: ReadSlice_def) metis
qed

text \<open>What one round of the reader takes: a line, or the rest without a line end.\<close>

definition one_line :: "bytes \<Rightarrow> bool \<Rightarrow> bool" where
  "one_line l eof \<longleftrightarrow> (if eof then 10 \<notin> set l else \<exists>k. l = k @ [10] \<and> 10 \<notin> set k)"

lemma read_record_line:
  "read_record n first input bs capture = (r, c, eof, input') \<Longrightarrow>
   (first \<longrightarrow> capture = (if length bs \<le> firstRecordCaptureLimit then Some bs else None)) \<Longrightarrow>
   \<exists>l. r = bs @ l \<and> input = l @ input' \<and> one_line l eof \<and> (eof \<longrightarrow> input' = []) \<and>
     (first \<longrightarrow> c = (if length r \<le> firstRecordCaptureLimit then Some r else None))"
proof (induction n first input bs capture rule: read_record.induct)
  case (1 n first input bs capture)
  obtain fragment how rest1 where rs: "ReadSlice (Suc n) input = (fragment, how, rest1)"
    by (metis prod_cases3)
  define capture' where "capture' = (if fragment \<noteq> [] \<and> first then
       (case capture of
          None \<Rightarrow> None
        | Some c \<Rightarrow> if length c + length fragment \<le> firstRecordCaptureLimit then Some (c @ fragment) else None)
     else capture)"
  have cap: "first \<longrightarrow> capture' = (if length (bs @ fragment) \<le> firstRecordCaptureLimit then Some (bs @ fragment) else None)"
    using "1.prems"(2) by (auto simp: capture'_def)
  have unfolded: "(case how of
       Delimited \<Rightarrow> (bs @ fragment, capture', False, rest1)
     | BufferFull \<Rightarrow> read_record n first rest1 (bs @ fragment) capture'
     | SliceEOF \<Rightarrow> (bs @ fragment, capture', True, rest1)) = (r, c, eof, input')"
    using "1.prems"(1) unfolding read_record.simps [of n first input bs capture] rs prod.case Let_def capture'_def .
  show ?case
  proof (cases how)
    case BufferFull
    have "read_record n first rest1 (bs @ fragment) capture' = (r, c, eof, input')"
      using unfolded BufferFull by simp
    with "1.IH" [OF rs [symmetric] refl refl capture'_def BufferFull] cap obtain l where
      l: "r = (bs @ fragment) @ l" "rest1 = l @ input'" "one_line l eof" "eof \<longrightarrow> input' = []"
         "first \<longrightarrow> c = (if length r \<le> firstRecordCaptureLimit then Some r else None)"
      by blast
    moreover have "one_line (fragment @ l) eof"
      using l(3) ReadSlice_line [OF rs] BufferFull by (auto simp: one_line_def split: if_splits)
    ultimately show ?thesis
      using ReadSlice_split [OF rs] by (intro exI [of _ "fragment @ l"]) auto
  qed (use unfolded ReadSlice_split [OF rs] ReadSlice_line [OF rs] cap in \<open>auto simp: one_line_def\<close>)
qed

lemma lines_of_one_line:
  "one_line l eof \<Longrightarrow> eof \<longrightarrow> post = [] \<Longrightarrow> lines_of (l @ post) = (if l = [] then [] else l # lines_of post)"
  using lines_of_line by (auto simp: one_line_def lines_of_open split: if_splits)

text \<open>What the visitor is called with.\<close>

fun infos :: "int64 \<Rightarrow> int64 \<Rightarrow> bytes list \<Rightarrow> record_info list" where
  "infos offset idx [] = []"
| "infos offset idx (r # rs) =
     \<lparr>index = idx, rstart = offset, rend = offset + int (length r), fingerprint = \<lparr>digest = sha256 r, fsize = int (length r)\<rparr>\<rparr> #
     infos (offset + int (length r)) (idx + 1) rs"

primrec visit_all :: "(record_info \<Rightarrow> 's \<Rightarrow> 'e + 's) \<Rightarrow> record_info list \<Rightarrow> 's \<Rightarrow> 'e + 's" where
  "visit_all visit [] s = Inr s"
| "visit_all visit (r # rs) s = rbind (visit r s) (visit_all visit rs)"

definition skips_first :: "bool \<Rightarrow> bytes list \<Rightarrow> bool" where
  "skips_first ignore ls \<longleftrightarrow> ignore \<and> ls \<noteq> [] \<and> length (hd ls) \<le> firstRecordCaptureLimit \<and> isSessionMeta (hd ls)"

lemma scan_loop_later:
  "0 < idx \<Longrightarrow> scan_loop n ignore visit offset idx input s = visit_all visit (infos offset idx (lines_of input)) s"
proof (induction n ignore visit offset idx input s rule: scan_loop.induct)
  case (1 n ignore visit offset idx input s)
  obtain r c eof input' where rr: "read_record n (idx = 0) input [] (Some []) = (r, c, eof, input')"
    by (metis prod_cases4)
  obtain l where l: "r = l" "input = l @ input'" "one_line l eof" "eof \<longrightarrow> input' = []"
    using read_record_line [OF rr] "1.prems" by auto
  have ls: "lines_of input = (if r = [] then [] else r # lines_of input')"
    using lines_of_one_line [OF l(3,4)] l(1,2) by simp
  show ?case
  proof (cases "r = []")
    case True
    then show ?thesis
      using rr ls by (simp add: scan_loop.simps [of n ignore visit offset idx input s])
  next
    case False
    let ?info = "\<lparr>index = idx, rstart = offset, rend = offset + int (length r),
      fingerprint = \<lparr>digest = sha256 r, fsize = int (length r)\<rparr>\<rparr>"
    have skip: "\<not> (ignore \<and> idx = 0 \<and> (case c of Some c \<Rightarrow> isSessionMeta c | None \<Rightarrow> False))"
      using "1.prems" by simp
    have IH: "scan_loop n ignore visit (offset + int (length r)) (idx + 1) input' s' =
        visit_all visit (infos (offset + int (length r)) (idx + 1) (lines_of input')) s'" if "visit ?info s = Inr s'" "\<not> eof" for s'
      using "1.IH" [OF rr [symmetric] refl refl False refl refl, of s'] that skip "1.prems" by simp
    have "scan_loop n ignore visit offset idx input s =
        rbind (visit ?info s) (\<lambda>s. if eof then Inr s else scan_loop n ignore visit (offset + int (length r)) (idx + 1) input' s)"
      using False rr "1.prems" by (simp add: scan_loop.simps [of n ignore visit offset idx input s] Let_def)
    also have "\<dots> = rbind (visit ?info s) (visit_all visit (infos (offset + int (length r)) (idx + 1) (lines_of input')))"
      using IH l(4) by (intro rbind_cong) auto
    finally show ?thesis
      using False ls by simp
  qed
qed


text \<open>The records that are compared, with the bytes in front of them.\<close>

definition skipped :: "bool \<Rightarrow> bytes \<Rightarrow> bytes" where
  "skipped ignore input = (if skips_first ignore (lines_of input) then hd (lines_of input) else [])"

definition comparable :: "bool \<Rightarrow> bytes \<Rightarrow> bytes list" where
  "comparable ignore input = (if skips_first ignore (lines_of input) then tl (lines_of input) else lines_of input)"

lemma comparable_concat: "skipped ignore input @ concat (comparable ignore input) = input"
  by (metis comparable_def skipped_def skips_first_def append_Nil concat.simps(2) concat_lines list.collapse)

lemma comparable_nonempty: "[] \<notin> set (comparable ignore input)"
  using lines_nonempty [of input] by (cases "lines_of input") (auto simp: comparable_def)

definition first_index :: "bool \<Rightarrow> bytes \<Rightarrow> int64" where
  "first_index ignore input = (if skips_first ignore (lines_of input) then 1 else 0)"

lemma scan_loop_lines:
  "scan_loop n ignore visit 0 0 input s =
   visit_all visit (infos (int (length (skipped ignore input))) (first_index ignore input) (comparable ignore input)) s"
proof -
  obtain r c eof input' where rr: "read_record n True input [] (Some []) = (r, c, eof, input')"
    by (metis prod_cases4)
  obtain l where l: "r = l" "input = l @ input'" "one_line l eof" "eof \<longrightarrow> input' = []"
      "c = (if length r \<le> firstRecordCaptureLimit then Some r else None)"
    using read_record_line [OF rr] by (auto simp: firstRecordCaptureLimit_def)
  have ls: "lines_of input = (if r = [] then [] else r # lines_of input')"
    using lines_of_one_line [OF l(3,4)] l(1,2) by simp
  show ?thesis
  proof (cases "r = []")
    case True
    then show ?thesis
      using rr ls by (simp add: scan_loop.simps [of n ignore visit 0 0 input s] comparable_def skips_first_def)
  next
    case False
    let ?info = "\<lparr>index = 0, rstart = 0, rend = int (length r), fingerprint = \<lparr>digest = sha256 r, fsize = int (length r)\<rparr>\<rparr>"
    let ?skip = "skips_first ignore (lines_of input)"
    have skip: "?skip \<longleftrightarrow> ignore \<and> (case c of Some c \<Rightarrow> isSessionMeta c | None \<Rightarrow> False)"
      using ls False l(5) by (auto simp: skips_first_def)
    have "scan_loop n ignore visit 0 0 input s = rbind (if ?skip then Inr s else visit ?info s) (\<lambda>s.
        if eof then Inr s else scan_loop n ignore visit (int (length r)) 1 input' s)"
      unfolding skip using False rr by (simp add: scan_loop.simps [of n ignore visit 0 0 input s] Let_def)
    also have "\<dots> = rbind (if ?skip then Inr s else visit ?info s) (visit_all visit (infos (int (length r)) 1 (lines_of input')))"
      using l(4) by (intro rbind_cong) (auto simp: scan_loop_later)
    finally show ?thesis
      using ls False by (simp add: comparable_def skipped_def first_index_def)
  qed
qed

section \<open>Comparing two ranges\<close>

lemma equal_loop_eq:
  "remaining \<le> length left \<Longrightarrow> remaining \<le> length right \<Longrightarrow>
   equal_loop n left right remaining = Some (take remaining left = take remaining right)"
proof (induction n left right remaining rule: equal_loop.induct)
  case (1 n left right remaining)
  show ?case
  proof (cases "remaining = 0")
    case True
    then show ?thesis by (simp add: equal_loop.simps)
  next
    case False
    define chunk where "chunk = min (Suc n) remaining"
    have split: "take remaining xs = take chunk xs @ take (remaining - chunk) (drop chunk xs)" for xs :: bytes
      using take_add [of chunk "remaining - chunk" xs] by (simp add: chunk_def)
    have same: "take remaining left = take remaining right \<longleftrightarrow>
        take chunk left = take chunk right \<and> take (remaining - chunk) (drop chunk left) = take (remaining - chunk) (drop chunk right)"
      unfolding split [of left] split [of right] using "1.prems" by (intro append_eq_append_conv) (simp add: chunk_def)
    show ?thesis
    proof (cases "take chunk left = take chunk right")
      case True
      then have "equal_loop n left right remaining = equal_loop n (drop chunk left) (drop chunk right) (remaining - chunk)"
        using False "1.prems" by (simp add: equal_loop.simps [of n left right remaining] Let_def chunk_def)
      then show ?thesis
        using "1.IH" [OF False chunk_def _ _] True "1.prems" same by (simp add: chunk_def)
    next
      case differ: False
      then show ?thesis
        using False "1.prems" same by (simp add: equal_loop.simps [of n left right remaining] Let_def chunk_def)
    qed
  qed
qed


section \<open>The search\<close>

definition fp :: "bytes \<Rightarrow> record_fingerprint" where
  "fp r = \<lparr>digest = sha256 r, fsize = int (length r)\<rparr>"

lemma concat_same_lengths: "map length xs = map length ys \<Longrightarrow> concat xs = concat ys \<Longrightarrow> xs = ys"
proof (induction xs arbitrary: ys)
  case Nil
  then show ?case by simp
next
  case (Cons x xs)
  then show ?case by (cases ys) auto
qed

lemma fp_lengths: "map fp xs = map fp ys \<Longrightarrow> map length xs = map length ys"
proof -
  assume "map fp xs = map fp ys"
  then have "map (\<lambda>f. nat (fsize f)) (map fp xs) = map (\<lambda>f. nat (fsize f)) (map fp ys)"
    by (rule arg_cong)
  then show ?thesis
    by (simp add: fp_def comp_def)
qed

lemma collect_more:
  "0 \<le> needleStart s \<Longrightarrow> visit_all collect (infos offset idx rs) s =
   Inr (s\<lparr>needle := needle s @ map fp rs, needleEnd := (if rs = [] then needleEnd s else offset + int (length (concat rs)))\<rparr>)"
  by (induction rs arbitrary: offset idx s) (auto simp: collect_def fp_def Let_def)

lemma collect_all:
  "0 \<le> offset \<Longrightarrow> rs \<noteq> [] \<Longrightarrow> visit_all collect (infos offset idx rs) \<lparr>needle = [], needleStart = -1, needleEnd = 0\<rparr> =
   Inr \<lparr>needle = map fp rs, needleStart = offset, needleEnd = offset + int (length (concat rs))\<rparr>"
  by (cases rs) (auto simp: collect_def collect_more fp_def)

lemma longest_strict: "longest p t (Suc n) k \<Longrightarrow> k \<noteq> n \<Longrightarrow> longest p t n k"
  by (auto simp: longest_def less_Suc_eq)

text \<open>The two rollouts of one search.\<close>

record search_setup =
  inner_front :: bytes
  inner_records :: "bytes list"
  outer_front :: bytes
  outer_records :: "bytes list"

definition setup_ok :: "fs \<Rightarrow> needle_state \<Rightarrow> contain_result \<Rightarrow> search_setup \<Rightarrow> bool" where
  "setup_ok w ns result c \<longleftrightarrow>
     ReadFile w (ContainedPath result) = Some (inner_front c @ concat (inner_records c)) \<and>
     ReadFile w (ContainerPath result) = Some (outer_front c @ concat (outer_records c)) \<and>
     inner_records c \<noteq> [] \<and> needle ns = map fp (inner_records c) \<and> needleStart ns = int (length (inner_front c)) \<and>
     ContainedBytes result = int (length (concat (inner_records c)))"

lemma ranges_equal:
  assumes "setup_ok w ns result c" and "outer_records c = pre @ mid @ post" and "map fp mid = map fp (inner_records c)"
  shows "equalFileRanges w (ContainedPath result) (needleStart ns) (ContainerPath result)
      (int (length (outer_front c) + length (concat pre))) (ContainedBytes result) = Some (mid = inner_records c)"
proof -
  have lens: "map length mid = map length (inner_records c)"
    using assms(3) by (rule fp_lengths)
  then have len: "length (concat mid) = length (concat (inner_records c))"
    by (simp add: length_concat)
  have "section_of (outer_front c @ concat (outer_records c)) (int (length (outer_front c) + length (concat pre))) (int (length (concat mid))) = concat mid"
    using assms(2) by (simp add: section_of_def)
  moreover have "section_of (inner_front c @ concat (inner_records c)) (int (length (inner_front c))) (int (length (concat mid))) =
      concat (inner_records c)"
    using len by (simp add: section_of_def)
  ultimately have "equalFileRanges w (ContainedPath result) (needleStart ns) (ContainerPath result)
      (int (length (outer_front c) + length (concat pre))) (ContainedBytes result) = Some (concat (inner_records c) = concat mid)"
    using assms(1) len by (simp add: equalFileRanges_def setup_ok_def equal_loop_eq)
  then show ?thesis
    using concat_same_lengths [OF lens] by auto
qed

definition occurs_after :: "search_setup \<Rightarrow> nat \<Rightarrow> bool" where
  "occurs_after c k \<longleftrightarrow> (\<exists>pre post. outer_records c = pre @ inner_records c @ post \<and> k < length pre + length (inner_records c))"

definition found_at :: "search_setup \<Rightarrow> int64 \<Rightarrow> contain_result \<Rightarrow> bool" where
  "found_at c first res \<longleftrightarrow> Contained res \<and> VerifiedExact res \<and>
     (\<exists>pre post. outer_records c = pre @ inner_records c @ post \<and>
        ContainerStartRecord res = first + int (length pre) \<and>
        ContainerEndRecord res = first + int (length pre + length (inner_records c)) - 1 \<and>
        ContainerStartByte res = int (length (outer_front c) + length (concat pre)) \<and>
        ContainerEndByte res = int (length (outer_front c) + length (concat (pre @ inner_records c))))"

lemma match_here:
  "is_match (map fp N) (map fp T) (length N) \<longleftrightarrow> (\<exists>pre mid. T = pre @ mid \<and> map fp mid = map fp N)"
  by (auto simp: is_match_def suffix_def) (metis append_eq_map_conv map_eq_append_conv)+

lemma search_hit:
  assumes ok: "setup_ok w ns result c" and outer: "outer_records c = T @ r # rest1"
    and info: "info = \<lparr>index = first + int (length T), rstart = int (length (outer_front c) + length (concat T)),
       rend = int (length (outer_front c) + length (concat T)) + int (length r), fingerprint = fp r\<rparr>"
    and hit: "advance (needle ns) table (fp r) m = length (needle ns)"
    and mid: "T @ [r] = pre @ mid" "map fp mid = map fp (inner_records c)"
  shows "if mid = inner_records c
    then \<exists>res. search w ns table info (result, m) = Inl (Found res) \<and> found_at c first res
    else search w ns table info (result, m) = Inr (result, table ! (length (needle ns) - 1))"
proof -
  define N where "N = inner_records c"
  have p: "needle ns = map fp N"
    using ok by (simp add: setup_ok_def N_def)
  have all: "outer_records c = pre @ mid @ rest1"
    using mid(1) outer by (metis append.assoc append_Cons append_Nil)
  have lens: "length (concat mid) = length (concat N)" "length mid = length N"
    using fp_lengths [OF mid(2)] by (simp_all add: length_concat N_def) (metis length_map)
  have "length (concat T) + length r = length (concat pre) + length (concat mid)"
    using arg_cong [OF mid(1), of "\<lambda>x. length (concat x)"] by simp
  then have start: "rend info - ContainedBytes result = int (length (outer_front c) + length (concat pre))"
    using ok lens(1) by (simp add: info setup_ok_def N_def)
  have eq: "equalFileRanges w (ContainedPath result) (needleStart ns) (ContainerPath result)
      (rend info - ContainedBytes result) (ContainedBytes result) = Some (mid = N)"
    unfolding start N_def using ranges_equal [OF ok all mid(2)] by simp
  have count: "length T + 1 = length pre + length N"
    using arg_cong [OF mid(1), of length] lens(2) by simp
  show ?thesis
  proof (cases "mid = N")
    case found: True
    have "\<exists>res. search w ns table info (result, m) = Inl (Found res) \<and> Contained res \<and> VerifiedExact res \<and>
        ContainerStartRecord res = index info - int (length N) + 1 \<and> ContainerEndRecord res = index info \<and>
        ContainerStartByte res = rend info - ContainedBytes result \<and> ContainerEndByte res = rend info"
      using hit eq found by (simp add: search_def Let_def info p)
    moreover have "rend info = int (length (outer_front c) + length (concat (pre @ N)))"
      using start ok by (simp add: setup_ok_def N_def)
    moreover have "index info = first + int (length pre + length N) - 1"
      using count by (simp add: info)
    ultimately show ?thesis
      using all found unfolding start found_at_def N_def [symmetric] by auto
  next
    case False
    then show ?thesis
      using hit eq by (simp add: search_def Let_def info N_def)
  qed
qed

definition ends_here :: "search_setup \<Rightarrow> nat \<Rightarrow> bool" where
  "ends_here c k \<longleftrightarrow> (\<exists>pre post. outer_records c = pre @ inner_records c @ post \<and> length pre + length (inner_records c) = k)"

lemma ends_here_iff:
  assumes "outer_records c = T @ r # rest1"
  shows "ends_here c (Suc (length T)) \<longleftrightarrow> (\<exists>pre. T @ [r] = pre @ inner_records c)"
proof
  assume "ends_here c (Suc (length T))"
  then obtain pre post where *: "outer_records c = pre @ inner_records c @ post" "length pre + length (inner_records c) = Suc (length T)"
    by (auto simp: ends_here_def)
  then have "take (Suc (length T)) (outer_records c) = pre @ inner_records c"
    by simp
  then show "\<exists>pre. T @ [r] = pre @ inner_records c"
    using assms by simp
next
  assume "\<exists>pre. T @ [r] = pre @ inner_records c"
  then obtain pre where pre: "T @ [r] = pre @ inner_records c" ..
  then have "outer_records c = pre @ inner_records c @ rest1"
    using assms by (metis append.assoc append_Cons append_Nil)
  then show "ends_here c (Suc (length T))"
    using arg_cong [OF pre, of length] by (auto simp: ends_here_def)
qed

lemma search_step:
  assumes ok: "setup_ok w ns result c" and outer: "outer_records c = T @ r # rest1"
    and tab: "table_ok (needle ns) table" "length table = length (needle ns)"
    and m: "longest (needle ns) (map fp T) (length (needle ns)) m"
    and info: "info = \<lparr>index = first + int (length T), rstart = int (length (outer_front c) + length (concat T)),
       rend = int (length (outer_front c) + length (concat T)) + int (length r), fingerprint = fp r\<rparr>"
  shows "(\<exists>res. search w ns table info (result, m) = Inl (Found res) \<and> found_at c first res) \<or>
    (\<exists>m'. search w ns table info (result, m) = Inr (result, m') \<and>
       longest (needle ns) (map fp (T @ [r])) (length (needle ns)) m' \<and> \<not> ends_here c (Suc (length T)))"
proof -
  define N where "N = inner_records c"
  have p: "needle ns = map fp N" "N \<noteq> []" "length (needle ns) = length N"
    using ok by (simp_all add: setup_ok_def N_def)
  define a where "a = advance (needle ns) table (fp r) m"
  have a: "longest (map fp N) (map fp (T @ [r])) (Suc (length N)) a"
    using advance_longest [OF tab(1) m, of "fp r"] m tab(2) p by (simp add: a_def longest_def)
  show ?thesis
  proof (cases "a = length N")
    case False
    then have "\<not> is_match (map fp N) (map fp (T @ [r])) (length N)"
      using a by (auto simp: longest_def)
    then have "\<not> ends_here c (Suc (length T))"
      using ends_here_iff [OF outer] match_here [of N "T @ [r]"] by (auto simp: N_def)
    moreover have "search w ns table info (result, m) = Inr (result, a)"
      using False by (simp add: search_def info a_def [symmetric] Let_def p(3))
    ultimately show ?thesis
      using longest_strict [OF a False] p by auto
  next
    case True
    then have hit: "is_match (map fp N) (map fp (T @ [r])) (length N)"
      using a by (simp add: longest_def)
    then obtain pre mid where mid: "T @ [r] = pre @ mid" "map fp mid = map fp N"
      using match_here [of N "T @ [r]"] by blast
    have out: "if mid = inner_records c
      then \<exists>res. search w ns table info (result, m) = Inl (Found res) \<and> found_at c first res
      else search w ns table info (result, m) = Inr (result, table ! (length (needle ns) - 1))"
      using search_hit [OF ok outer info _ mid(1)] mid(2) True by (simp add: a_def p(3) N_def)
    have "longest (needle ns) (map fp (T @ [r])) (length (needle ns)) (table ! (length (needle ns) - 1))"
      using table_next [OF tab(1), of "map fp (T @ [r])" "length (needle ns)"] hit p tab(2) by simp
    moreover have "\<not> ends_here c (Suc (length T))" if "mid \<noteq> N"
      using that ends_here_iff [OF outer] mid fp_lengths [OF mid(2)] by (auto simp: N_def dest: arg_cong [of _ _ length])
    ultimately show ?thesis
      using out by (auto simp: N_def split: if_splits)
  qed
qed


lemma search_all:
  assumes ok: "setup_ok w ns result c" and tab: "table_ok (needle ns) table" "length table = length (needle ns)"
  shows "outer_records c = T @ rs \<Longrightarrow> longest (needle ns) (map fp T) (length (needle ns)) m \<Longrightarrow>
    (\<exists>res. visit_all (search w ns table) (infos (int (length (outer_front c) + length (concat T))) (first + int (length T)) rs) (result, m) =
        Inl (Found res) \<and> found_at c first res) \<or>
    (\<exists>m'. visit_all (search w ns table) (infos (int (length (outer_front c) + length (concat T))) (first + int (length T)) rs) (result, m) =
        Inr (result, m') \<and> (\<forall>k. length T < k \<longrightarrow> \<not> ends_here c k))"
proof (induction rs arbitrary: T m)
  case Nil
  then show ?case
    by (auto simp: ends_here_def)
next
  case (Cons r rs)
  let ?info = "\<lparr>index = first + int (length T), rstart = int (length (outer_front c) + length (concat T)),
       rend = int (length (outer_front c) + length (concat T)) + int (length r), fingerprint = fp r\<rparr>"
  have unfold: "visit_all (search w ns table) (infos (int (length (outer_front c) + length (concat T))) (first + int (length T)) (r # rs)) (result, m) =
      rbind (search w ns table ?info (result, m)) (visit_all (search w ns table)
        (infos (int (length (outer_front c) + length (concat (T @ [r])))) (first + int (length (T @ [r]))) rs))"
    by (simp add: fp_def algebra_simps)
  from search_step [OF ok Cons.prems(1) tab Cons.prems(2) refl, of first] show ?case
  proof
    assume "\<exists>res. search w ns table ?info (result, m) = Inl (Found res) \<and> found_at c first res"
    then show ?thesis
      unfolding unfold by auto
  next
    assume "\<exists>m'. search w ns table ?info (result, m) = Inr (result, m') \<and>
       longest (needle ns) (map fp (T @ [r])) (length (needle ns)) m' \<and> \<not> ends_here c (Suc (length T))"
    then obtain m' where m': "search w ns table ?info (result, m) = Inr (result, m')"
      "longest (needle ns) (map fp (T @ [r])) (length (needle ns)) m'" "\<not> ends_here c (Suc (length T))"
      by blast
    have "outer_records c = (T @ [r]) @ rs"
      using Cons.prems(1) by simp
    from Cons.IH [OF this m'(2)] m'(3) show ?thesis
      unfolding unfold m'(1) rbind_simps by (auto simp: less_Suc_eq_le dest: le_neq_implies_less) (metis Suc_lessI)+
  qed
qed

definition setup_of :: "bool \<Rightarrow> bytes \<Rightarrow> bytes \<Rightarrow> search_setup" where
  "setup_of ignore inner outer = \<lparr>inner_front = skipped ignore inner, inner_records = comparable ignore inner,
     outer_front = skipped ignore outer, outer_records = comparable ignore outer\<rparr>"

definition needle_of :: "search_setup \<Rightarrow> needle_state" where
  "needle_of c = \<lparr>needle = map fp (inner_records c), needleStart = int (length (inner_front c)),
     needleEnd = int (length (inner_front c)) + int (length (concat (inner_records c)))\<rparr>"

definition start_result :: "contain_input \<Rightarrow> contain_input \<Rightarrow> bool \<Rightarrow> needle_state \<Rightarrow> contain_result" where
  "start_result a b ignore ns = (new_result a b ignore)\<lparr>ContainedRecords := int (length (needle ns)),
     ContainedBytes := needleEnd ns - needleStart ns\<rparr>"

lemma Check_search:
  fixes a b :: contain_input and ignore :: bool and inner outer :: bytes
  defines "c \<equiv> setup_of ignore inner outer" and "ns \<equiv> needle_of (setup_of ignore inner outer)"
  defines "result \<equiv> start_result a b ignore ns"
  assumes "ReadFile w (CPath a) = Some inner" and "ReadFile w (CPath b) = Some outer" and "CPath a \<noteq> ''''" and "CPath b \<noteq> ''''"
    and "comparable ignore inner \<noteq> []"
  shows "(\<exists>res. Check w a b ignore = Inr res \<and> found_at c (first_index ignore outer) res) \<or>
    (Check w a b ignore = Inr result \<and> (\<forall>k>0. \<not> ends_here c k))"
proof -
  let ?table = "buildPrefixTable (needle ns)"
  let ?all = "visit_all (search w ns ?table) (infos (int (length (outer_front c) + length (concat ([] :: bytes list))))
    (first_index ignore outer + int (length ([] :: bytes list))) (outer_records c)) (result, 0)"
  note defs = c_def ns_def needle_of_def setup_of_def result_def start_result_def
  have scan1: "scanRecords w (CPath a) ignore collect ScanContained \<lparr>needle = [], needleStart = -1, needleEnd = 0\<rparr> = Inr ns"
    using assms by (simp add: scanRecords_def scan_loop_lines collect_all defs)
  have ok: "setup_ok w ns result c"
    using assms comparable_concat by (simp add: setup_ok_def defs new_result_def)
  have tab: "table_ok (needle ns) ?table" "length ?table = length (needle ns)"
    using buildPrefixTable_ok [of "needle ns"] assms by (simp_all add: defs)
  have zero: "longest (needle ns) (map fp []) (length (needle ns)) 0"
    using assms by (auto simp: longest_def is_match_def defs)
  have scan2: "scanRecords w (CPath b) ignore (search w ns ?table) (Failed ScanContainer) (result, 0) = ?all"
    using assms by (simp add: scanRecords_def scan_loop_lines defs)
  have "needle ns \<noteq> []"
    using assms by (simp add: defs)
  then have check: "Check w a b ignore = (case ?all of Inl (Found r) \<Rightarrow> Inr r | Inl (Failed e) \<Rightarrow> Inl e | Inr (result, _) \<Rightarrow> Inr result)"
    using assms(6,7) scan2 by (simp add: Check_def scan1 Let_def result_def start_result_def)
  show ?thesis
    using search_all [OF ok tab, of "[]" "outer_records c" 0 "first_index ignore outer", OF _ zero] unfolding check by auto
qed

text \<open>C4: The containment check is exact. For two readable rollouts it always answers, and it answers yes exactly when
  the compared records of the first occur as consecutive records of the second, byte for byte; no assumption on SHA-256 is
  needed, since every match of the fingerprints is verified and the search goes on after a false one. The range it reports holds
  the bytes of those records.\<close>

theorem Check_exact:
  assumes "ReadFile w (CPath a) = Some inner" and "ReadFile w (CPath b) = Some outer" and "CPath a \<noteq> ''''" and "CPath b \<noteq> ''''"
    and "comparable ignore inner \<noteq> []"
  shows "\<exists>res. Check w a b ignore = Inr res \<and>
    (Contained res \<longleftrightarrow> (\<exists>pre post. comparable ignore outer = pre @ comparable ignore inner @ post)) \<and>
    (Contained res \<longrightarrow> VerifiedExact res \<and> 0 \<le> ContainerStartByte res \<and>
       take (nat (ContainerEndByte res - ContainerStartByte res)) (drop (nat (ContainerStartByte res)) outer) =
         concat (comparable ignore inner))"
  using Check_search [OF assms]
proof (elim disjE exE conjE)
  fix res
  assume run: "Check w a b ignore = Inr res" and "found_at (setup_of ignore inner outer) (first_index ignore outer) res"
  then obtain pre post where res: "Contained res" "VerifiedExact res"
      "comparable ignore outer = pre @ comparable ignore inner @ post"
      "ContainerStartByte res = int (length (skipped ignore outer) + length (concat pre))"
      "ContainerEndByte res = int (length (skipped ignore outer) + length (concat (pre @ comparable ignore inner)))"
    by (auto simp: found_at_def setup_of_def)
  have "drop (length (skipped ignore outer) + length (concat pre)) (skipped ignore outer @ concat (comparable ignore outer)) =
      concat (comparable ignore inner) @ concat post"
    unfolding res(3) by simp
  then have "drop (nat (ContainerStartByte res)) outer = concat (comparable ignore inner) @ concat post"
    unfolding comparable_concat res(4) nat_int .
  then show ?thesis
    using run res by auto
next
  assume "Check w a b ignore = Inr (start_result a b ignore (needle_of (setup_of ignore inner outer)))"
    and none: "\<forall>k>0. \<not> ends_here (setup_of ignore inner outer) k"
  moreover have "\<not> (\<exists>pre post. comparable ignore outer = pre @ comparable ignore inner @ post)"
  proof (intro notI, elim exE)
    fix pre post
    assume "comparable ignore outer = pre @ comparable ignore inner @ post"
    then have "ends_here (setup_of ignore inner outer) (length pre + length (comparable ignore inner))"
      by (auto simp: ends_here_def setup_of_def)
    then show False
      using none assms(5) by simp
  qed
  ultimately show ?thesis
    by (simp add: start_result_def new_result_def)
qed


definition two_rollouts :: fs where
  "two_rollouts = install_file ''/b'' [66, 10, 65, 10] (install_file ''/a'' [65, 10] empty_fs)"

theorem Check_exact_witness:
  "\<exists>res. Check two_rollouts \<lparr>CID = ''a'', CPath = ''/a''\<rparr> \<lparr>CID = ''b'', CPath = ''/b''\<rparr> False = Inr res \<and> Contained res"
proof -
  have lines: "comparable False [65, 10] = [[65, 10]]" "comparable False [66, 10, 65, 10] = [[66, 10]] @ [[65, 10]] @ []"
    by (simp_all add: comparable_def skips_first_def)
  have files: "ReadFile two_rollouts (CPath \<lparr>CID = ''a'', CPath = ''/a''\<rparr>) = Some [65, 10]"
    "ReadFile two_rollouts (CPath \<lparr>CID = ''b'', CPath = ''/b''\<rparr>) = Some [66, 10, 65, 10]"
    by (simp_all add: two_rollouts_def)
  have nonempty: "comparable False [65, 10] \<noteq> []"
    using lines(1) by simp
  obtain res where res: "Check two_rollouts \<lparr>CID = ''a'', CPath = ''/a''\<rparr> \<lparr>CID = ''b'', CPath = ''/b''\<rparr> False = Inr res"
      "Contained res \<longleftrightarrow> (\<exists>pre post. comparable False [66, 10, 65, 10] = pre @ comparable False [65, 10] @ post)"
    using Check_exact [OF files _ _ nonempty] by auto
  have "\<exists>pre post. comparable False [66, 10, 65, 10] = pre @ comparable False [65, 10] @ post"
    unfolding lines by blast
  then show ?thesis
    using res by blast
qed

text \<open>C35: The records a rollout is cut into do not depend on the reader's buffer: the visitor is called for exactly the
  lines of the text in order, each with its offsets, digest and size, after a first session-meta line that is to be ignored.\<close>

theorem scan_loop_records:
  "scan_loop n ignore visit 0 0 input s =
   visit_all visit (infos (int (length (skipped ignore input))) (first_index ignore input) (comparable ignore input)) s"
  by (rule scan_loop_lines)


end
