(* ===== verification/Sort_Search.thy ===== *)
theory Sort_Search
  imports Main
begin

text \<open>
  \<open>sort.Search\<close> of Go's standard library: binary search for the smallest index at which a monotone
  predicate holds.
\<close>

function search_loop :: "(nat \<Rightarrow> bool) \<Rightarrow> nat \<Rightarrow> nat \<Rightarrow> nat" where
  "search_loop f i j =
     (if i < j then
        (let h = (i + j) div 2
         in if \<not> f h then search_loop f (h + 1) j else search_loop f i h)
      else i)"
  by pat_completeness auto
termination
  by (relation "measure (\<lambda>(f, i, j). j - i)") auto

declare search_loop.simps [simp del]

definition sort_Search :: "nat \<Rightarrow> (nat \<Rightarrow> bool) \<Rightarrow> nat" where
  "sort_Search n f = search_loop f 0 n"

definition monotone_upto :: "nat \<Rightarrow> (nat \<Rightarrow> bool) \<Rightarrow> bool" where
  "monotone_upto n f \<longleftrightarrow> (\<forall>a b. a \<le> b \<longrightarrow> b < n \<longrightarrow> f a \<longrightarrow> f b)"

text \<open>\<open>k\<close> separates the indices below \<open>n\<close> where \<open>f\<close> fails from those where it holds.\<close>

definition boundary :: "nat \<Rightarrow> (nat \<Rightarrow> bool) \<Rightarrow> nat \<Rightarrow> bool" where
  "boundary n f k \<longleftrightarrow> k \<le> n \<and> (\<forall>m<k. \<not> f m) \<and> (\<forall>m. k \<le> m \<longrightarrow> m < n \<longrightarrow> f m)"

lemma search_loop_least:
  assumes "i \<le> j" and "j \<le> n" and "monotone_upto n f" and "\<forall>m<i. \<not> f m" and "\<forall>m. j \<le> m \<longrightarrow> m < n \<longrightarrow> f m"
  shows "boundary n f (search_loop f i j)"
  using assms
proof (induction f i j rule: search_loop.induct)
  case (1 f i j)
  show ?case
  proof (cases "i < j")
    case False
    then have "search_loop f i j = i"
      by (subst search_loop.simps) simp
    then show ?thesis
      using False "1.prems" by (simp add: boundary_def)
  next
    case True
    define h where "h = (i + j) div 2"
    have h: "i \<le> h" "h < j" "h < n"
      using True \<open>j \<le> n\<close> by (auto simp: h_def)
    have step: "search_loop f i j = (if f h then search_loop f i h else search_loop f (h + 1) j)"
      using True by (subst search_loop.simps) (simp add: Let_def h_def)
    show ?thesis
    proof (cases "f h")
      case fh: True
      then have "\<forall>m. h \<le> m \<longrightarrow> m < n \<longrightarrow> f m"
        using "1.prems"(3) unfolding monotone_upto_def by blast
      then have "boundary n f (search_loop f i h)"
        using "1.IH"(2) [OF True h_def _ h(1) less_imp_le [OF h(3)] "1.prems"(3,4)] fh by blast
      then show ?thesis
        using fh step by simp
    next
      case nfh: False
      have "\<not> f m" if "m < h + 1" for m
        using nfh h(3) that "1.prems"(3) unfolding monotone_upto_def
        by (metis Suc_eq_plus1 less_Suc_eq_le)
      then have "boundary n f (search_loop f (h + 1) j)"
        using "1.IH"(1) [OF True h_def nfh _ "1.prems"(2,3) _ "1.prems"(5)] h(2) by simp
      then show ?thesis
        using nfh step by simp
    qed
  qed
qed

text \<open>The result is the boundary of a monotone predicate.\<close>

lemma sort_Search_boundary: "monotone_upto n f \<Longrightarrow> boundary n f (sort_Search n f)"
  unfolding sort_Search_def by (rule search_loop_least) simp_all

lemma boundary_unique: "boundary n f a \<Longrightarrow> boundary n f b \<Longrightarrow> a = b"
  unfolding boundary_def by (metis le_less_linear less_le_trans nat_neq_iff order.refl)

lemma search_loop_le: "i \<le> j \<Longrightarrow> search_loop f i j \<le> j"
proof (induction f i j rule: search_loop.induct)
  case (1 f i j)
  show ?case
  proof (cases "i < j")
    case False
    then show ?thesis
      using "1.prems" by (subst search_loop.simps) simp
  next
    case True
    define h where "h = (i + j) div 2"
    have h: "i \<le> h" "h < j"
      using True by (simp_all add: h_def)
    have "search_loop f i j = (if f h then search_loop f i h else search_loop f (h + 1) j)"
      using True by (subst search_loop.simps) (simp add: Let_def h_def)
    then show ?thesis
      using "1.IH"(1) [OF True h_def] "1.IH"(2) [OF True h_def] h by (cases "f h") simp_all
  qed
qed

lemma sort_Search_le: "sort_Search n f \<le> n"
  by (simp add: sort_Search_def search_loop_le)

lemma sort_Search_eq: "monotone_upto n f \<Longrightarrow> boundary n f k \<Longrightarrow> sort_Search n f = k"
  using boundary_unique sort_Search_boundary by blast

end
