(* ===== verification/Pack_Index.thy ===== *)
theory Pack_Index
  imports Object_Store Sort_Search "HOL-Library.List_Lexorder"
begin

text \<open>
  The indexes of a pack generation: the JSON index of versions 1 and 2 with its validation,
  \<open>src/internal/pack/format.go\<close>, and the binary index of version 3, \<open>src/internal/pack/index_v3.go\<close>.
\<close>

section \<open>Objects and blocks\<close>

record block =
  Pack :: string
  PackOffset :: int64
  BlockStoredBytes :: int64
  RawOffset :: int64
  BlockRawBytes :: int64
  BlockSHA256 :: string
  Encoding :: string

record packed_object =
  PackedSHA256 :: string
  PackedRawBytes :: int64
  Blocks :: "block list"

record index =
  IndexVersion :: int
  IndexKind :: string
  Generation :: string
  IndexCreatedAt :: string
  BlockBytes :: int64
  Objects :: "packed_object list"

definition EncodingZstd :: string where "EncodingZstd = ''zstd''"
definition EncodingRaw :: string where "EncodingRaw = ''raw''"

datatype pack_error =
    UnsupportedIndex
  | InvalidIndexHeader
  | InvalidPackObject nat
  | DuplicatePackObject string
  | InvalidBlock nat string
  | InvalidEncoding string
  | BlockTotal string int64 int64
  | GenerationMismatch
  | UnsafePackName string
  | DuplicatePackName string
  | IndexSizeMismatch
  | IndexUndecodable
  | InvalidObjectRecord
  | InvalidDigest string
  | IndexEOF
  | IndexShortRead
  | MissingIndexFile string
  | UnopenedPack string
  | BlockExceedsPack string nat
  | NotSorted
  | ObjectNotPacked string
  | RawSizeMismatch string int64 int64
  | NoBlockForOffset string int64
  | NegativeReadOffset
  | PackNotOpen string
  | PackReadFailed string nat
  | BlockUndecodable string nat
  | BlockSizeMismatch string nat
  | BlockDigestMismatch string nat
  | StreamBlockOffset
  | StreamUnexpectedEOF
  | StreamClosed
  | SliceOutOfRange
  | ReadNeverReturns
  | VerificationFailed string

section \<open>Validation of the JSON index\<close>

definition safeGeneration :: "string \<Rightarrow> bool" where
  "safeGeneration generation \<longleftrightarrow>
     generation \<noteq> '''' \<and> generation \<noteq> ''.'' \<and> generation \<noteq> ''..'' \<and> path_base generation = generation"

definition current_format :: "index \<Rightarrow> bool" where
  "current_format idx \<longleftrightarrow> IndexVersion idx = 2 \<and> IndexKind idx = ''pack-v2''"

definition legacy_format :: "index \<Rightarrow> bool" where
  "legacy_format idx \<longleftrightarrow> IndexVersion idx = 1 \<and> IndexKind idx = ''pack-v1''"

text \<open>The loop over the blocks of an object; the sum of the raw lengths wraps around, as in the source.\<close>

fun validateBlocks :: "bool \<Rightarrow> packed_object \<Rightarrow> nat \<Rightarrow> int64 \<Rightarrow> block list \<Rightarrow> pack_error + unit" where
  "validateBlocks current obj n expectedOffset [] =
     (if expectedOffset \<noteq> PackedRawBytes obj then Inl (BlockTotal (PackedSHA256 obj) expectedOffset (PackedRawBytes obj)) else Inr ())"
| "validateBlocks current obj n expectedOffset (b # bs) =
     (if path_base (Pack b) \<noteq> Pack b \<or> Pack b = ''.'' \<or> Pack b = ''..'' \<or> PackOffset b < 0 \<or> BlockStoredBytes b \<le> 0 \<or>
         BlockStoredBytes b > maxInt64 \<or> BlockRawBytes b \<le> 0 \<or> RawOffset b \<noteq> expectedOffset \<or> length (BlockSHA256 b) \<noteq> 64
      then Inl (InvalidBlock n (PackedSHA256 obj))
      else if Encoding b \<noteq> EncodingZstd \<and> (\<not> current \<or> Encoding b \<noteq> EncodingRaw)
      then Inl (InvalidEncoding (Encoding b))
      else validateBlocks current obj (n + 1) (wrap64 (expectedOffset + BlockRawBytes b)) bs)"

fun validateObjects :: "bool \<Rightarrow> nat \<Rightarrow> string list \<Rightarrow> packed_object list \<Rightarrow> pack_error + unit" where
  "validateObjects current n seen [] = Inr ()"
| "validateObjects current n seen (obj # objs) =
     (if length (PackedSHA256 obj) \<noteq> 64 \<or> PackedRawBytes obj < 0 then Inl (InvalidPackObject n)
      else if PackedSHA256 obj \<in> set seen then Inl (DuplicatePackObject (PackedSHA256 obj))
      else rbind (validateBlocks current obj 0 0 (Blocks obj))
        (\<lambda>_. validateObjects current (n + 1) (PackedSHA256 obj # seen) objs))"

definition validateIndex :: "index \<Rightarrow> pack_error + unit" where
  "validateIndex idx =
     (if \<not> current_format idx \<and> \<not> legacy_format idx then Inl UnsupportedIndex
      else if \<not> safeGeneration (Generation idx) \<or> BlockBytes idx \<le> 0 then Inl InvalidIndexHeader
      else validateObjects (current_format idx) 0 [] (Objects idx))"

definition normalizeLegacyIndex :: "index \<Rightarrow> index" where
  "normalizeLegacyIndex idx =
     (if \<not> legacy_format idx then idx
      else idx\<lparr>Objects := map (\<lambda>obj. obj\<lparr>Blocks := map (\<lambda>b.
             if Encoding b = '''' then b\<lparr>Encoding := EncodingZstd\<rparr> else b) (Blocks obj)\<rparr>) (Objects idx)\<rparr>)"

definition block_field :: "bytes \<Rightarrow> jval \<Rightarrow> block \<Rightarrow> block option" where
  "block_field k v b =
     (if field_is k ''pack'' then map_option (\<lambda>x. b\<lparr>Pack := x\<rparr>) (dec_string v (Pack b))
      else if field_is k ''pack_offset'' then map_option (\<lambda>x. b\<lparr>PackOffset := x\<rparr>) (dec_int v (PackOffset b))
      else if field_is k ''stored_bytes'' then map_option (\<lambda>x. b\<lparr>BlockStoredBytes := x\<rparr>) (dec_int v (BlockStoredBytes b))
      else if field_is k ''raw_offset'' then map_option (\<lambda>x. b\<lparr>RawOffset := x\<rparr>) (dec_int v (RawOffset b))
      else if field_is k ''raw_bytes'' then map_option (\<lambda>x. b\<lparr>BlockRawBytes := x\<rparr>) (dec_int v (BlockRawBytes b))
      else if field_is k ''sha256'' then map_option (\<lambda>x. b\<lparr>BlockSHA256 := x\<rparr>) (dec_string v (BlockSHA256 b))
      else if field_is k ''encoding'' then map_option (\<lambda>x. b\<lparr>Encoding := x\<rparr>) (dec_string v (Encoding b))
      else Some b)"

definition zero_block :: block where
  "zero_block = \<lparr>Pack = '''', PackOffset = 0, BlockStoredBytes = 0, RawOffset = 0, BlockRawBytes = 0, BlockSHA256 = '''',
     Encoding = ''''\<rparr>"

definition object_field :: "bytes \<Rightarrow> jval \<Rightarrow> packed_object \<Rightarrow> packed_object option" where
  "object_field k v obj =
     (if field_is k ''sha256'' then map_option (\<lambda>x. obj\<lparr>PackedSHA256 := x\<rparr>) (dec_string v (PackedSHA256 obj))
      else if field_is k ''raw_bytes'' then map_option (\<lambda>x. obj\<lparr>PackedRawBytes := x\<rparr>) (dec_int v (PackedRawBytes obj))
      else if field_is k ''blocks'' then map_option (\<lambda>x. obj\<lparr>Blocks := x\<rparr>) (dec_slice (dec_struct block_field) zero_block v)
      else Some obj)"

definition index_field :: "bytes \<Rightarrow> jval \<Rightarrow> index \<Rightarrow> index option" where
  "index_field k v idx =
     (if field_is k ''version'' then map_option (\<lambda>x. idx\<lparr>IndexVersion := x\<rparr>) (dec_int v (IndexVersion idx))
      else if field_is k ''kind'' then map_option (\<lambda>x. idx\<lparr>IndexKind := x\<rparr>) (dec_string v (IndexKind idx))
      else if field_is k ''generation'' then map_option (\<lambda>x. idx\<lparr>Generation := x\<rparr>) (dec_string v (Generation idx))
      else if field_is k ''created_at'' then map_option (\<lambda>x. idx\<lparr>IndexCreatedAt := x\<rparr>) (dec_string v (IndexCreatedAt idx))
      else if field_is k ''block_bytes'' then map_option (\<lambda>x. idx\<lparr>BlockBytes := x\<rparr>) (dec_int v (BlockBytes idx))
      else if field_is k ''objects''
      then map_option (\<lambda>x. idx\<lparr>Objects := x\<rparr>)
        (dec_slice (dec_struct object_field) \<lparr>PackedSHA256 = '''', PackedRawBytes = 0, Blocks = []\<rparr> v)
      else Some idx)"

definition zero_index :: index where
  "zero_index = \<lparr>IndexVersion = 0, IndexKind = '''', Generation = '''', IndexCreatedAt = '''', BlockBytes = 0, Objects = []\<rparr>"

section \<open>The binary index\<close>

record index_v3_meta =
  V3Version :: int
  V3Kind :: string
  V3Generation :: string
  V3CreatedAt :: string
  V3BlockBytes :: int64
  V3ObjectCount :: int64
  V3BlockCount :: int64
  Packs :: "string list"

record object_v3 =
  Digest :: bytes
  ObjectRawBytes :: int64
  FirstBlock :: int64
  BlockCount :: uint32

record block_v3 =
  PackIndex :: uint32
  PackOffset3 :: int64
  StoredBytes3 :: int64
  RawOffset3 :: int64
  RawBytes3 :: int64
  Digest3 :: bytes
  Encoding3 :: byte

record index_v3 =
  meta :: index_v3_meta
  objects_file :: bytes
  blocks_file :: bytes

definition objectV3RecordBytes :: nat where "objectV3RecordBytes = 52"
definition blockV3RecordBytes :: nat where "blockV3RecordBytes = 69"

text \<open>Go's conversions between \<open>int64\<close> and \<open>uint64\<close>.\<close>

definition to_uint64 :: "int64 \<Rightarrow> uint64" where "to_uint64 i = word_of_int i"
definition to_int64 :: "uint64 \<Rightarrow> int64" where "to_int64 u = sint u"

definition encodeObjectV3 :: "object_v3 \<Rightarrow> bytes" where
  "encodeObjectV3 r = Digest r @ be64 (to_uint64 (ObjectRawBytes r)) @ be64 (to_uint64 (FirstBlock r)) @ be32 (BlockCount r)"

definition encodeBlockV3 :: "block_v3 \<Rightarrow> bytes" where
  "encodeBlockV3 r = be32 (PackIndex r) @ be64 (to_uint64 (PackOffset3 r)) @ be64 (to_uint64 (StoredBytes3 r)) @
     be64 (to_uint64 (RawOffset3 r)) @ be64 (to_uint64 (RawBytes3 r)) @ Digest3 r @ [Encoding3 r]"

text \<open>\<open>File.ReadAt\<close> into a buffer of \<open>k\<close> bytes: all of them, or an error.\<close>

definition file_ReadAt :: "bytes \<Rightarrow> nat \<Rightarrow> int64 \<Rightarrow> bytes option" where
  "file_ReadAt data k off =
     (if off < 0 then None
      else if k = 0 then Some []
      else if nat off + k > length data then None
      else Some (slice (nat off) (nat off + k) data))"

definition decodeObjectV3 :: "bytes \<Rightarrow> object_v3" where
  "decodeObjectV3 d = \<lparr>Digest = slice 0 32 d, ObjectRawBytes = to_int64 (of_be64 (slice 32 40 d)),
     FirstBlock = to_int64 (of_be64 (slice 40 48 d)), BlockCount = of_be32 (slice 48 52 d)\<rparr>"

definition readObjectRecord :: "index_v3 \<Rightarrow> int64 \<Rightarrow> pack_error + object_v3" where
  "readObjectRecord i position =
     (if position < 0 \<or> position \<ge> V3ObjectCount (meta i) then Inl IndexEOF
      else case file_ReadAt (objects_file i) objectV3RecordBytes (wrap64 (position * int objectV3RecordBytes)) of
        None \<Rightarrow> Inl IndexShortRead
      | Some d \<Rightarrow> Inr (decodeObjectV3 d))"

definition decodeBlockV3 :: "bytes \<Rightarrow> block_v3" where
  "decodeBlockV3 d = \<lparr>PackIndex = of_be32 (slice 0 4 d), PackOffset3 = to_int64 (of_be64 (slice 4 12 d)),
     StoredBytes3 = to_int64 (of_be64 (slice 12 20 d)), RawOffset3 = to_int64 (of_be64 (slice 20 28 d)),
     RawBytes3 = to_int64 (of_be64 (slice 28 36 d)), Digest3 = slice 36 68 d, Encoding3 = d ! 68\<rparr>"

definition readBlockRecord :: "index_v3 \<Rightarrow> int64 \<Rightarrow> pack_error + block_v3" where
  "readBlockRecord i position =
     (if position < 0 \<or> position \<ge> V3BlockCount (meta i) then Inl IndexEOF
      else case file_ReadAt (blocks_file i) blockV3RecordBytes (wrap64 (position * int blockV3RecordBytes)) of
        None \<Rightarrow> Inl IndexShortRead
      | Some d \<Rightarrow> Inr (decodeBlockV3 d))"

text \<open>The checks on one block record, and the block it stands for.\<close>

definition expandBlock :: "index_v3 \<Rightarrow> string \<Rightarrow> nat \<Rightarrow> int64 \<Rightarrow> block_v3 \<Rightarrow> pack_error + block" where
  "expandBlock i digest n expectedOffset b =
     (if unat (PackIndex b) \<ge> length (Packs (meta i)) \<or> PackOffset3 b < 0 \<or> StoredBytes3 b \<le> 0 \<or> RawBytes3 b \<le> 0 \<or>
         RawOffset3 b \<noteq> expectedOffset
      then Inl (InvalidBlock n digest)
      else if Encoding3 b \<noteq> 1 \<and> Encoding3 b \<noteq> 0 then Inl (InvalidEncoding [char_of (unat (Encoding3 b))])
      else Inr \<lparr>Pack = Packs (meta i) ! unat (PackIndex b), PackOffset = PackOffset3 b, BlockStoredBytes = StoredBytes3 b,
             RawOffset = RawOffset3 b, BlockRawBytes = RawBytes3 b, BlockSHA256 = hex_encode (Digest3 b),
             Encoding = (if Encoding3 b = 1 then EncodingRaw else EncodingZstd)\<rparr>)"

text \<open>The loop of \<open>expandObject\<close>: \<open>left\<close> blocks to read from position \<open>first + n\<close> on.\<close>

fun expandBlocks :: "index_v3 \<Rightarrow> string \<Rightarrow> int64 \<Rightarrow> nat \<Rightarrow> nat \<Rightarrow> int64 \<Rightarrow> pack_error + (block list \<times> int64)" where
  "expandBlocks i digest first n 0 expectedOffset = Inr ([], expectedOffset)"
| "expandBlocks i digest first n (Suc left) expectedOffset =
     rbind (readBlockRecord i (wrap64 (first + int n))) (\<lambda>r.
     rbind (expandBlock i digest n expectedOffset r) (\<lambda>b.
     rbind (expandBlocks i digest first (n + 1) left (wrap64 (expectedOffset + RawBytes3 r))) (\<lambda>(bs, end).
     Inr (b # bs, end))))"

definition expandObject :: "index_v3 \<Rightarrow> object_v3 \<Rightarrow> pack_error + packed_object" where
  "expandObject i r =
     (if ObjectRawBytes r < 0 \<or> FirstBlock r < 0 \<or> uint (BlockCount r) > V3BlockCount (meta i) - FirstBlock r
      then Inl InvalidObjectRecord
      else rbind (expandBlocks i (hex_encode (Digest r)) (FirstBlock r) 0 (unat (BlockCount r)) 0) (\<lambda>(bs, end).
        if end \<noteq> ObjectRawBytes r then Inl (BlockTotal (hex_encode (Digest r)) end (ObjectRawBytes r))
        else Inr \<lparr>PackedSHA256 = hex_encode (Digest r), PackedRawBytes = ObjectRawBytes r, Blocks = bs\<rparr>))"

definition objectAt_v3 :: "index_v3 \<Rightarrow> int64 \<Rightarrow> pack_error + packed_object" where
  "objectAt_v3 i position = rbind (readObjectRecord i position) (expandObject i)"

definition decodeDigest :: "string \<Rightarrow> pack_error + bytes" where
  "decodeDigest s =
     (case hex_decode s of
        None \<Rightarrow> Inl (InvalidDigest s)
      | Some d \<Rightarrow> if length d \<noteq> 32 then Inl (InvalidDigest s) else Inr d)"

text \<open>The binary search of \<open>lookup\<close>; its range shrinks in every round.\<close>

function lookup_loop :: "index_v3 \<Rightarrow> bytes \<Rightarrow> int64 \<Rightarrow> int64 \<Rightarrow> pack_error + int64" where
  "lookup_loop i want left right =
     (if left < right then
        (let middle = left + (right - left) div 2
         in rbind (readObjectRecord i middle) (\<lambda>r.
              if Digest r < want then lookup_loop i want (middle + 1) right else lookup_loop i want left middle))
      else Inr left)"
  by pat_completeness auto
termination
  by (relation "measure (\<lambda>(i, want, left, right). nat (right - left))") auto

declare lookup_loop.simps [simp del]

definition lookup_v3 :: "index_v3 \<Rightarrow> string \<Rightarrow> pack_error + packed_object option" where
  "lookup_v3 i digest =
     rbind (decodeDigest digest) (\<lambda>want.
     rbind (lookup_loop i want 0 (V3ObjectCount (meta i))) (\<lambda>left.
     if left \<ge> V3ObjectCount (meta i) then Inr None
     else rbind (readObjectRecord i left) (\<lambda>r.
       if Digest r \<noteq> want then Inr None else rbind (expandObject i r) (\<lambda>obj. Inr (Some obj)))))"

fun check_pack_names :: "string list \<Rightarrow> string list \<Rightarrow> pack_error + unit" where
  "check_pack_names seen [] = Inr ()"
| "check_pack_names seen (name # names) =
     (if path_base name \<noteq> name \<or> name = ''.'' \<or> name = ''..'' then Inl (UnsafePackName name)
      else if name \<in> set seen then Inl (DuplicatePackName name)
      else check_pack_names (name # seen) names)"

definition validateIndexV3Meta :: "index_v3_meta \<Rightarrow> string \<Rightarrow> pack_error + unit" where
  "validateIndexV3Meta m directoryName =
     (if V3Version m \<noteq> 3 \<or> V3Kind m \<noteq> ''pack-v3'' then Inl UnsupportedIndex
      else if \<not> safeGeneration (V3Generation m) \<or> V3BlockBytes m \<le> 0 \<or> V3ObjectCount m < 0 \<or> V3BlockCount m < 0
      then Inl InvalidIndexHeader
      else if directoryName \<noteq> V3Generation m \<and> \<not> has_prefix ''.generation-'' directoryName then Inl GenerationMismatch
      else check_pack_names [] (Packs m))"

definition validateSizes :: "index_v3 \<Rightarrow> pack_error + unit" where
  "validateSizes i =
     (if V3ObjectCount (meta i) > maxInt64 div int objectV3RecordBytes \<or>
         int (length (objects_file i)) \<noteq> V3ObjectCount (meta i) * int objectV3RecordBytes
      then Inl IndexSizeMismatch
      else if V3BlockCount (meta i) > maxInt64 div int blockV3RecordBytes \<or>
         int (length (blocks_file i)) \<noteq> V3BlockCount (meta i) * int blockV3RecordBytes
      then Inl IndexSizeMismatch
      else Inr ())"

definition meta_json :: "index_v3_meta \<Rightarrow> jval" where
  "meta_json m = JObj (member ''version'' (enc_int (V3Version m)) @ member ''kind'' (enc_string (V3Kind m)) @
     member ''generation'' (enc_string (V3Generation m)) @ member ''created_at'' (enc_string (V3CreatedAt m)) @
     member ''block_bytes'' (enc_int (V3BlockBytes m)) @ member ''object_count'' (enc_int (V3ObjectCount m)) @
     member ''block_count'' (enc_int (V3BlockCount m)) @ member ''packs'' (JArr (map enc_string (Packs m))))"

definition meta_field :: "bytes \<Rightarrow> jval \<Rightarrow> index_v3_meta \<Rightarrow> index_v3_meta option" where
  "meta_field k v m =
     (if field_is k ''version'' then map_option (\<lambda>x. m\<lparr>V3Version := x\<rparr>) (dec_int v (V3Version m))
      else if field_is k ''kind'' then map_option (\<lambda>x. m\<lparr>V3Kind := x\<rparr>) (dec_string v (V3Kind m))
      else if field_is k ''generation'' then map_option (\<lambda>x. m\<lparr>V3Generation := x\<rparr>) (dec_string v (V3Generation m))
      else if field_is k ''created_at'' then map_option (\<lambda>x. m\<lparr>V3CreatedAt := x\<rparr>) (dec_string v (V3CreatedAt m))
      else if field_is k ''block_bytes'' then map_option (\<lambda>x. m\<lparr>V3BlockBytes := x\<rparr>) (dec_int v (V3BlockBytes m))
      else if field_is k ''object_count'' then map_option (\<lambda>x. m\<lparr>V3ObjectCount := x\<rparr>) (dec_int v (V3ObjectCount m))
      else if field_is k ''block_count'' then map_option (\<lambda>x. m\<lparr>V3BlockCount := x\<rparr>) (dec_int v (V3BlockCount m))
      else if field_is k ''packs'' then map_option (\<lambda>x. m\<lparr>Packs := x\<rparr>) (dec_slice dec_string '''' v)
      else Some m)"

definition zero_meta :: index_v3_meta where
  "zero_meta = \<lparr>V3Version = 0, V3Kind = '''', V3Generation = '''', V3CreatedAt = '''', V3BlockBytes = 0, V3ObjectCount = 0,
     V3BlockCount = 0, Packs = []\<rparr>"

text \<open>The files of one generation directory by name.\<close>

type_synonym generation_dir = "string \<Rightarrow> bytes option"

definition generation_file :: "generation_dir \<Rightarrow> string \<Rightarrow> pack_error + bytes" where
  "generation_file dir name = (case dir name of None \<Rightarrow> Inl (MissingIndexFile name) | Some d \<Rightarrow> Inr d)"

definition writeIndexV3Meta :: "index_v3_meta \<Rightarrow> bytes" where
  "writeIndexV3Meta m = Marshal (meta_json m) @ [10]"

definition decodeIndexV3Meta :: "bytes \<Rightarrow> pack_error + index_v3_meta" where
  "decodeIndexV3Meta data =
     (case Option.bind (parse_json data) (\<lambda>v. dec_struct meta_field v zero_meta) of
        None \<Rightarrow> Inl IndexUndecodable
      | Some m \<Rightarrow> Inr m)"

definition openIndexV3 :: "string \<Rightarrow> generation_dir \<Rightarrow> pack_error + index_v3" where
  "openIndexV3 directoryName dir =
     rbind (generation_file dir ''index.meta.json'') (\<lambda>data.
     rbind (decodeIndexV3Meta data) (\<lambda>m.
     rbind (validateIndexV3Meta m directoryName) (\<lambda>_.
     rbind (generation_file dir ''objects.idx'') (\<lambda>objs.
     rbind (generation_file dir ''blocks.idx'') (\<lambda>blks.
     let i = \<lparr>meta = m, objects_file = objs, blocks_file = blks\<rparr>
     in rbind (validateSizes i) (\<lambda>_. Inr i))))))"

section \<open>Records are read back\<close>

lemma to_int64_uint64 [simp]: "in_int64 i \<Longrightarrow> to_int64 (to_uint64 i) = i"
proof -
  assume "in_int64 i"
  then have "signed_take_bit 63 i = i"
    by (intro signed_take_bit_int_eq_self) (simp_all add: in_int64_def maxInt64_def)
  then show ?thesis
    by (simp add: to_int64_def to_uint64_def signed_of_int)
qed

definition object_v3_ok :: "object_v3 \<Rightarrow> bool" where
  "object_v3_ok r \<longleftrightarrow> length (Digest r) = 32 \<and> in_int64 (ObjectRawBytes r) \<and> in_int64 (FirstBlock r)"

definition block_v3_ok :: "block_v3 \<Rightarrow> bool" where
  "block_v3_ok r \<longleftrightarrow> length (Digest3 r) = 32 \<and> in_int64 (PackOffset3 r) \<and> in_int64 (StoredBytes3 r) \<and>
     in_int64 (RawOffset3 r) \<and> in_int64 (RawBytes3 r)"

lemma length_encodeObjectV3: "object_v3_ok r \<Longrightarrow> length (encodeObjectV3 r) = objectV3RecordBytes"
  by (simp add: encodeObjectV3_def object_v3_ok_def objectV3RecordBytes_def)

lemma length_encodeBlockV3: "block_v3_ok r \<Longrightarrow> length (encodeBlockV3 r) = blockV3RecordBytes"
  by (simp add: encodeBlockV3_def block_v3_ok_def blockV3RecordBytes_def)

text \<open>A field of a record that is a concatenation.\<close>

lemma slice_field: "length a = i \<Longrightarrow> i + length b = j \<Longrightarrow> slice i j (a @ b @ c) = b"
  by (auto simp: slice_def)

lemma slice_last: "length a = i \<Longrightarrow> i + length b = j \<Longrightarrow> slice i j (a @ b) = b"
  by (auto simp: slice_def)

lemma decodeObjectV3_encode: "object_v3_ok r \<Longrightarrow> decodeObjectV3 (encodeObjectV3 r) = r"
proof -
  assume ok: "object_v3_ok r"
  define d x y z where "d = Digest r" "x = be64 (to_uint64 (ObjectRawBytes r))" "y = be64 (to_uint64 (FirstBlock r))"
    "z = be32 (BlockCount r)"
  have len: "length d = 32" "length x = 8" "length y = 8" "length z = 4"
    using ok by (simp_all add: object_v3_ok_def d_x_y_z_def)
  have "slice 0 32 (d @ x @ y @ z) = d" "slice 32 40 (d @ x @ y @ z) = x"
    using len slice_field [of "[]" 0 d 32] slice_field [of d 32 x 40] by simp_all
  moreover have "slice 40 48 (d @ x @ y @ z) = y" "slice 48 52 (d @ x @ y @ z) = z"
    using len slice_field [of "d @ x" 40 y 48 z] slice_last [of "d @ x @ y" 48 z 52] by simp_all
  ultimately show ?thesis
    using ok unfolding decodeObjectV3_def encodeObjectV3_def d_x_y_z_def
    by (simp add: object_v3_ok_def)
qed

lemma decodeBlockV3_encode: "block_v3_ok r \<Longrightarrow> decodeBlockV3 (encodeBlockV3 r) = r"
proof -
  assume ok: "block_v3_ok r"
  define p a b c e d where "p = be32 (PackIndex r)" "a = be64 (to_uint64 (PackOffset3 r))"
    "b = be64 (to_uint64 (StoredBytes3 r))" "c = be64 (to_uint64 (RawOffset3 r))" "e = be64 (to_uint64 (RawBytes3 r))"
    "d = Digest3 r"
  note defs = p_a_b_c_e_d_def
  have len: "length p = 4" "length a = 8" "length b = 8" "length c = 8" "length e = 8" "length d = 32"
    using ok by (simp_all add: block_v3_ok_def defs)
  let ?w = "p @ a @ b @ c @ e @ d @ [Encoding3 r]"
  have "slice 0 4 ?w = p" "slice 4 12 ?w = a" "slice 12 20 ?w = b"
    using len slice_field [of "[]" 0 p 4] slice_field [of p 4 a 12] slice_field [of "p @ a" 12 b 20] by simp_all
  moreover have "slice 20 28 ?w = c" "slice 28 36 ?w = e" "slice 36 68 ?w = d"
    using len slice_field [of "p @ a @ b" 20 c 28] slice_field [of "p @ a @ b @ c" 28 e 36]
      slice_field [of "p @ a @ b @ c @ e" 36 d 68] by simp_all
  moreover have "?w ! 68 = Encoding3 r"
    using len by (simp add: nth_append)
  ultimately show ?thesis
    using ok unfolding decodeBlockV3_def encodeBlockV3_def defs
    by (simp add: block_v3_ok_def)
qed

text \<open>The \<open>k\<close>-th of a sequence of records of equal size.\<close>

lemma slice_concat:
  assumes "\<And>x. x \<in> set xs \<Longrightarrow> length x = n" and "k < length xs"
  shows "slice (k * n) (k * n + n) (concat xs) = xs ! k"
  using assms
proof (induction xs arbitrary: k)
  case Nil
  then show ?case by simp
next
  case (Cons x xs)
  show ?case
  proof (cases k)
    case 0
    then show ?thesis
      using Cons.prems by (simp add: slice_def)
  next
    case (Suc j)
    then have "slice (j * n) (j * n + n) (concat xs) = xs ! j"
      using Cons.prems by (intro Cons.IH) simp_all
    then show ?thesis
      using Cons.prems(1) Suc slice_append_right [of x "k * n" "k * n + n" "concat xs"] by (simp add: add.commute)
  qed
qed

lemma length_concat_equal: "(\<And>x. x \<in> set xs \<Longrightarrow> length x = n) \<Longrightarrow> length (concat xs) = length xs * n"
  by (induction xs) simp_all

lemma file_ReadAt_nat:
  "file_ReadAt data k (int p) = (if k = 0 then Some [] else if p + k > length data then None else Some (slice p (p + k) data))"
  by (simp add: file_ReadAt_def)

lemma file_ReadAt_record:
  assumes "\<And>x. x \<in> set xs \<Longrightarrow> length x = n" and "k < length xs" and "0 < n" and "int (length xs) * int n \<le> maxInt64"
  shows "file_ReadAt (concat xs) n (wrap64 (int k * int n)) = Some (xs ! k)"
proof -
  have "(k + 1) * n \<le> length xs * n"
    using assms(2) by (intro mult_le_mono1) simp
  then have len: "k * n + n \<le> length (concat xs)" and "k * n \<le> length xs * n"
    using assms(2) by (simp_all add: length_concat_equal [OF assms(1)])
  then have "int (k * n) \<le> maxInt64"
    using assms(4) by (metis of_nat_mono of_nat_mult order.trans)
  then have "wrap64 (int k * int n) = int (k * n)"
    by (simp add: in_int64_nonneg)
  then have "file_ReadAt (concat xs) n (wrap64 (int k * int n)) = Some (slice (k * n) (k * n + n) (concat xs))"
    using len assms(3) file_ReadAt_nat [of "concat xs" n "k * n"] by simp
  then show ?thesis
    using slice_concat [of xs n k] assms(1,2) by simp
qed

text \<open>An index whose files hold the given records.\<close>

definition index_holds :: "index_v3 \<Rightarrow> object_v3 list \<Rightarrow> block_v3 list \<Rightarrow> bool" where
  "index_holds i ors brs \<longleftrightarrow> (\<forall>r\<in>set ors. object_v3_ok r) \<and> (\<forall>r\<in>set brs. block_v3_ok r) \<and>
     objects_file i = concat (map encodeObjectV3 ors) \<and> blocks_file i = concat (map encodeBlockV3 brs) \<and>
     V3ObjectCount (meta i) = int (length ors) \<and> V3BlockCount (meta i) = int (length brs) \<and>
     int (length ors) * 52 \<le> maxInt64 \<and> int (length brs) * 69 \<le> maxInt64"

lemma readObjectRecord_holds:
  assumes "index_holds i ors brs" and "k < length ors"
  shows "readObjectRecord i (int k) = Inr (ors ! k)"
proof -
  have "file_ReadAt (concat (map encodeObjectV3 ors)) objectV3RecordBytes (wrap64 (int k * int objectV3RecordBytes))
    = Some (map encodeObjectV3 ors ! k)"
    using assms by (intro file_ReadAt_record) (auto simp: index_holds_def length_encodeObjectV3 objectV3RecordBytes_def)
  moreover have "object_v3_ok (ors ! k)"
    using assms by (simp add: index_holds_def)
  ultimately show ?thesis
    using assms by (simp add: readObjectRecord_def index_holds_def decodeObjectV3_encode)
qed

lemma readBlockRecord_holds:
  assumes "index_holds i ors brs" and "k < length brs"
  shows "readBlockRecord i (int k) = Inr (brs ! k)"
proof -
  have "file_ReadAt (concat (map encodeBlockV3 brs)) blockV3RecordBytes (wrap64 (int k * int blockV3RecordBytes))
    = Some (map encodeBlockV3 brs ! k)"
    using assms by (intro file_ReadAt_record) (auto simp: index_holds_def length_encodeBlockV3 blockV3RecordBytes_def)
  moreover have "block_v3_ok (brs ! k)"
    using assms by (simp add: index_holds_def)
  ultimately show ?thesis
    using assms by (simp add: readBlockRecord_def index_holds_def decodeBlockV3_encode)
qed

lemma validateSizes_holds: "index_holds i ors brs \<Longrightarrow> validateSizes i = Inr ()"
proof -
  assume h: "index_holds i ors brs"
  have "length (concat (map encodeObjectV3 ors)) = length ors * 52" "length (concat (map encodeBlockV3 brs)) = length brs * 69"
    using h by (auto simp: index_holds_def length_encodeObjectV3 length_encodeBlockV3 objectV3RecordBytes_def
        blockV3RecordBytes_def intro!: trans [OF length_concat_equal])
  then show ?thesis
    using h by (simp add: validateSizes_def index_holds_def objectV3RecordBytes_def blockV3RecordBytes_def maxInt64_def)
qed

section \<open>The layout of an object\<close>

text \<open>Blocks that follow one another without gap or overlap from an offset on, none of them empty.\<close>

fun laid_out :: "int64 \<Rightarrow> block list \<Rightarrow> bool" where
  "laid_out off [] \<longleftrightarrow> True"
| "laid_out off (b # bs) \<longleftrightarrow> RawOffset b = off \<and> 0 < BlockRawBytes b \<and> laid_out (off + BlockRawBytes b) bs"

definition raw_total :: "block list \<Rightarrow> int" where
  "raw_total bs = sum_list (map BlockRawBytes bs)"

definition object_wf :: "packed_object \<Rightarrow> bool" where
  "object_wf obj \<longleftrightarrow> laid_out 0 (Blocks obj) \<and> raw_total (Blocks obj) = PackedRawBytes obj"

lemma raw_total_simps [simp]: "raw_total [] = 0" "raw_total (b # bs) = BlockRawBytes b + raw_total bs"
  by (simp_all add: raw_total_def)

lemma raw_total_append [simp]: "raw_total (xs @ ys) = raw_total xs + raw_total ys"
  by (simp add: raw_total_def)

lemma laid_out_total: "laid_out off bs \<Longrightarrow> 0 \<le> raw_total bs"
  by (induction off bs rule: laid_out.induct) auto

lemma laid_out_nth:
  "laid_out off bs \<Longrightarrow> k < length bs \<Longrightarrow> RawOffset (bs ! k) = off + raw_total (take k bs) \<and> 0 < BlockRawBytes (bs ! k)"
  by (induction off bs arbitrary: k rule: laid_out.induct) (auto simp: nth_Cons' take_Cons')

lemma validateBlocks_positive:
  "validateBlocks c obj n off bs = Inr () \<Longrightarrow> 0 \<le> raw_total bs"
  by (induction c obj n off bs rule: validateBlocks.induct) (auto split: if_splits)

lemma validateBlocks_layout:
  assumes "validateBlocks c obj n off bs = Inr ()" and "0 \<le> off" and "off + raw_total bs \<le> maxInt64"
  shows "laid_out off bs \<and> off + raw_total bs = PackedRawBytes obj"
  using assms
proof (induction c obj n off bs rule: validateBlocks.induct)
  case (1 c obj n off)
  then show ?case by (simp split: if_splits)
next
  case (2 c obj n off b bs)
  have step: "validateBlocks c obj (n + 1) (wrap64 (off + BlockRawBytes b)) bs = Inr ()" "0 < BlockRawBytes b" "RawOffset b = off"
    using "2.prems"(1) by (auto split: if_splits)
  then have "0 \<le> raw_total bs"
    by (blast dest: validateBlocks_positive)
  then have w: "wrap64 (off + BlockRawBytes b) = off + BlockRawBytes b"
    using step(2) "2.prems"(2,3) by (intro wrap64_id in_int64_nonneg) simp_all
  have "laid_out (off + BlockRawBytes b) bs \<and> off + BlockRawBytes b + raw_total bs = PackedRawBytes obj"
    using "2.IH" "2.prems" step(1) unfolding w by (auto split: if_splits)
  then show ?case
    using step by auto
qed

lemma validateObjects_mem:
  "validateObjects c n seen objs = Inr () \<Longrightarrow> obj \<in> set objs \<Longrightarrow> validateBlocks c obj 0 0 (Blocks obj) = Inr ()"
  by (induction c n seen objs rule: validateObjects.induct) (auto simp: result_simps split: if_splits)

lemma validateObjects_distinct:
  "validateObjects c n seen objs = Inr () \<Longrightarrow> distinct (map PackedSHA256 objs) \<and> PackedSHA256 ` set objs \<inter> set seen = {}"
  by (induction c n seen objs rule: validateObjects.induct) (auto simp: result_simps split: if_splits)

lemma validateIndex_Inr:
  "validateIndex idx = Inr () \<Longrightarrow> \<exists>c. validateObjects c 0 [] (Objects idx) = Inr ()"
  by (auto simp: validateIndex_def split: if_splits)

lemma validateIndex_wf:
  assumes "validateIndex idx = Inr ()" and "obj \<in> set (Objects idx)" and "raw_total (Blocks obj) \<le> maxInt64"
  shows "object_wf obj"
proof -
  obtain c where "validateObjects c 0 [] (Objects idx) = Inr ()"
    using validateIndex_Inr [OF assms(1)] by blast
  then have "validateBlocks c obj 0 0 (Blocks obj) = Inr ()"
    using assms(2) by (rule validateObjects_mem)
  then show ?thesis
    using validateBlocks_layout [of c obj 0 0 "Blocks obj"] assms(3) by (simp add: object_wf_def)
qed

lemma expandBlocks_positive:
  "expandBlocks i d first n left off = Inr (bs, e) \<Longrightarrow> 0 \<le> raw_total bs"
  by (induction i d first n left off arbitrary: bs e rule: expandBlocks.induct)
    (fastforce simp: result_simps expandBlock_def split: if_splits prod.splits)+

lemma expandBlocks_layout:
  assumes "expandBlocks i d first n left off = Inr (bs, e)" and "0 \<le> off" and "off + raw_total bs \<le> maxInt64"
  shows "laid_out off bs \<and> e = off + raw_total bs \<and> length bs = left"
  using assms
proof (induction i d first n left off arbitrary: bs e rule: expandBlocks.induct)
  case (1 i d first n off)
  then show ?case by simp
next
  case (2 i d first n left off)
  obtain r b bs' where
    r: "readBlockRecord i (wrap64 (first + int n)) = Inr r" and
    b: "expandBlock i d n off r = Inr b" and
    bs': "expandBlocks i d first (n + 1) left (wrap64 (off + RawBytes3 r)) = Inr (bs', e)" and
    bs: "bs = b # bs'"
    using "2.prems"(1) by (auto simp: result_simps split: prod.splits)
  have bb: "RawOffset b = off" "0 < BlockRawBytes b" "RawBytes3 r = BlockRawBytes b"
    using b by (auto simp: expandBlock_def split: if_splits)
  have "0 \<le> raw_total bs'"
    using bs' by (rule expandBlocks_positive)
  then have w: "wrap64 (off + RawBytes3 r) = off + BlockRawBytes b"
    using bb "2.prems"(2,3) unfolding bs by (intro trans [OF wrap64_id] in_int64_nonneg) simp_all
  have "laid_out (off + BlockRawBytes b) bs' \<and> e = off + BlockRawBytes b + raw_total bs' \<and> length bs' = left"
    using "2.IH" [OF r b] bs' "2.prems"(2,3) bb(2) unfolding w bs by simp
  then show ?case
    using bb by (simp add: bs)
qed

lemma expandObject_wf:
  assumes "expandObject i r = Inr obj" and "raw_total (Blocks obj) \<le> maxInt64"
  shows "object_wf obj"
  using assms expandBlocks_layout [of i "hex_encode (Digest r)" "FirstBlock r" 0 "unat (BlockCount r)" 0]
  by (fastforce simp: expandObject_def object_wf_def result_simps split: if_splits prod.splits)

section \<open>Lookup by binary search\<close>

lemma lookup_loop_search:
  assumes "\<And>k. k < n \<Longrightarrow> readObjectRecord i (int k) = Inr (ors ! k)" and "r \<le> n"
  shows "lookup_loop i want (int l) (int r) = Inr (int (search_loop (\<lambda>k. \<not> Digest (ors ! k) < want) l r))"
  using assms(2)
proof (induction "\<lambda>k. \<not> Digest (ors ! k) < want" l r rule: search_loop.induct)
  case (1 l r)
  show ?case
  proof (cases "l < r")
    case False
    then show ?thesis
      by (simp add: lookup_loop.simps search_loop.simps)
  next
    case True
    define h where "h = (l + r) div 2"
    have mid: "int l + (int r - int l) div 2 = int h"
      using True unfolding h_def by linarith
    have h: "h < n" "h \<le> n"
      using True \<open>r \<le> n\<close> by (simp_all add: h_def)
    show ?thesis
      using True mid h assms(1) [OF h(1)] "1.hyps"(1) [OF True h_def] "1.hyps"(2) [OF True h_def] "1.prems"
      by (simp add: lookup_loop.simps [of i want "int l"] search_loop.simps [of _ l r] Let_def add.commute flip: h_def)
  qed
qed

lemma lookup_v3_reads:
  assumes reads: "\<And>k. k < length ors \<Longrightarrow> readObjectRecord i (int k) = Inr (ors ! k)"
    and count: "V3ObjectCount (meta i) = int (length ors)"
    and sorted: "sorted_wrt (<) (map Digest ors)" and d: "length d = 32"
  shows "lookup_v3 i (hex_encode d) =
    (case find (\<lambda>r. Digest r = d) ors of
       None \<Rightarrow> Inr None
     | Some r \<Rightarrow> rbind (expandObject i r) (\<lambda>obj. Inr (Some obj)))"
proof -
  define f where "f = (\<lambda>k. \<not> Digest (ors ! k) < d)"
  define b where "b = search_loop f 0 (length ors)"
  have mono: "Digest (ors ! x) < Digest (ors ! y)" if "x < y" "y < length ors" for x y
    using sorted that by (simp add: sorted_wrt_map sorted_wrt_iff_nth_less)
  have "monotone_upto (length ors) f"
    unfolding monotone_upto_def f_def using mono by (metis leD leI le_neq_implies_less less_trans)
  then have bd: "boundary (length ors) f b"
    using sort_Search_boundary [of "length ors" f] by (simp add: b_def sort_Search_def)
  have loop: "lookup_loop i d 0 (V3ObjectCount (meta i)) = Inr (int b)"
    using lookup_loop_search [of "length ors" i ors "length ors" d 0] reads count by (simp add: b_def f_def)
  have dec: "decodeDigest (hex_encode d) = Inr d"
    using d by (simp add: decodeDigest_def)
  show ?thesis
  proof (cases "b < length ors \<and> Digest (ors ! b) = d")
    case True
    have "\<forall>j<b. Digest (ors ! j) \<noteq> d"
      using bd by (auto simp: boundary_def f_def)
    then have "find (\<lambda>r. Digest r = d) ors = Some (ors ! b)"
      using True unfolding find_Some_iff by blast
    then show ?thesis
      using True dec loop count reads [of b] by (simp add: lookup_v3_def)
  next
    case False
    have "Digest (ors ! k) \<noteq> d" if "k < length ors" for k
    proof
      assume k: "Digest (ors ! k) = d"
      then have "b \<le> k"
        using bd by (auto simp: boundary_def f_def not_less intro: leI)
      then have "\<not> Digest (ors ! b) < d"
        using bd that by (simp add: boundary_def f_def)
      then have "Digest (ors ! b) \<noteq> d \<longrightarrow> b < k"
        using k \<open>b \<le> k\<close> by (metis le_neq_implies_less)
      then show False
        using False k mono [of b k] that \<open>b \<le> k\<close> \<open>\<not> Digest (ors ! b) < d\<close> by auto
    qed
    then have "find (\<lambda>r. Digest r = d) ors = None"
      by (auto simp: find_None_iff in_set_conv_nth)
    then show ?thesis
      using False dec loop count reads [of b] by (simp add: lookup_v3_def)
  qed
qed

text \<open>C36: An index that validation accepts lists no object twice, and an object whose block lengths add up to an
  \<open>int64\<close> value consists of non-empty blocks that cover it from its first to its last byte without gap or overlap.\<close>

theorem validateIndex_layout:
  assumes "validateIndex idx = Inr ()"
  shows "distinct (map PackedSHA256 (Objects idx)) \<and>
    (\<forall>obj\<in>set (Objects idx). raw_total (Blocks obj) \<le> maxInt64 \<longrightarrow> object_wf obj)"
  using validateObjects_distinct validateIndex_Inr [OF assms] validateIndex_wf [OF assms] by blast

text \<open>An index with one object of one raw block, for the witnesses.\<close>

definition example_block :: block where
  "example_block = \<lparr>Pack = ''p'', PackOffset = 0, BlockStoredBytes = 3, RawOffset = 0, BlockRawBytes = 3,
     BlockSHA256 = replicate 64 CHR ''0'', Encoding = EncodingRaw\<rparr>"

definition example_index :: index where
  "example_index = \<lparr>IndexVersion = 2, IndexKind = ''pack-v2'', Generation = ''g'', IndexCreatedAt = '''', BlockBytes = 8,
     Objects = [\<lparr>PackedSHA256 = replicate 64 CHR ''a'', PackedRawBytes = 3, Blocks = [example_block]\<rparr>]\<rparr>"

lemma example_index_valid: "validateIndex example_index = Inr ()"
proof -
  have "path_base ''g'' = ''g''" "path_base ''p'' = ''p''"
    by code_simp+
  then show ?thesis
    by (simp add: validateIndex_def example_index_def example_block_def current_format_def safeGeneration_def
        EncodingZstd_def EncodingRaw_def maxInt64_def wrap64_def)
qed

theorem validateIndex_layout_witness:
  "distinct (map PackedSHA256 (Objects example_index)) \<and> object_wf (hd (Objects example_index))"
  using validateIndex_layout [OF example_index_valid]
  by (simp add: example_index_def example_block_def maxInt64_def)

text \<open>
  The sum of the block lengths is not guarded against overflow: an index is accepted whose object of no bytes
  consists of three blocks, the last at a negative offset.
\<close>

definition overflow_index :: index where
  "overflow_index = \<lparr>IndexVersion = 2, IndexKind = ''pack-v2'', Generation = ''g'', IndexCreatedAt = '''', BlockBytes = 8,
     Objects = [\<lparr>PackedSHA256 = replicate 64 CHR ''a'', PackedRawBytes = 0,
       Blocks = [example_block\<lparr>BlockRawBytes := maxInt64\<rparr>, example_block\<lparr>RawOffset := maxInt64, BlockRawBytes := maxInt64\<rparr>,
         example_block\<lparr>RawOffset := - 2, BlockRawBytes := 2\<rparr>]\<rparr>]\<rparr>"

lemma validateIndex_overflow:
  "validateIndex overflow_index = Inr () \<and> \<not> object_wf (hd (Objects overflow_index))"
proof -
  have "path_base ''g'' = ''g''" "path_base ''p'' = ''p''"
    by code_simp+
  then show ?thesis
    by (simp add: validateIndex_def overflow_index_def example_block_def current_format_def safeGeneration_def
        EncodingZstd_def EncodingRaw_def maxInt64_def wrap64_def object_wf_def)
qed

text \<open>C16: In a binary index whose object records are sorted by digest, a lookup finds exactly the record with the
  digest asked for and expands it, and reports an absent digest as absent.\<close>

theorem lookup_v3_exact:
  assumes "index_holds i ors brs" and "sorted_wrt (<) (map Digest ors)" and "length d = 32"
  shows "lookup_v3 i (hex_encode d) =
    (case find (\<lambda>r. Digest r = d) ors of
       None \<Rightarrow> Inr None
     | Some r \<Rightarrow> rbind (expandObject i r) (\<lambda>obj. Inr (Some obj)))"
  using lookup_v3_reads [of ors i d] readObjectRecord_holds [OF assms(1)] assms by (simp add: index_holds_def)

definition example_object_v3 :: "byte \<Rightarrow> object_v3" where
  "example_object_v3 b = \<lparr>Digest = replicate 32 b, ObjectRawBytes = 3, FirstBlock = 0, BlockCount = 1\<rparr>"

definition example_block_v3 :: block_v3 where
  "example_block_v3 = \<lparr>PackIndex = 0, PackOffset3 = 0, StoredBytes3 = 3, RawOffset3 = 0, RawBytes3 = 3,
     Digest3 = replicate 32 7, Encoding3 = 1\<rparr>"

definition example_index_v3 :: index_v3 where
  "example_index_v3 = \<lparr>meta = \<lparr>V3Version = 3, V3Kind = ''pack-v3'', V3Generation = ''g'', V3CreatedAt = '''', V3BlockBytes = 8,
       V3ObjectCount = 2, V3BlockCount = 1, Packs = [''p'']\<rparr>,
     objects_file = encodeObjectV3 (example_object_v3 1) @ encodeObjectV3 (example_object_v3 5),
     blocks_file = encodeBlockV3 example_block_v3\<rparr>"

lemma example_index_holds:
  "index_holds example_index_v3 [example_object_v3 1, example_object_v3 5] [example_block_v3]"
  by (simp add: index_holds_def example_index_v3_def example_object_v3_def example_block_v3_def object_v3_ok_def
      block_v3_ok_def in_int64_def maxInt64_def)

lemma example_index_sorted: "sorted_wrt (<) (map Digest [example_object_v3 1, example_object_v3 5])"
proof -
  have "replicate n a < replicate n b" if "a < b" "0 < n" for a b :: byte and n
    using that by (cases n) auto
  then show ?thesis
    by (simp add: example_object_v3_def)
qed

theorem lookup_v3_exact_witness:
  "lookup_v3 example_index_v3 (hex_encode (replicate 32 5)) =
     Inr (Some \<lparr>PackedSHA256 = hex_encode (replicate 32 5), PackedRawBytes = 3,
       Blocks = [\<lparr>Pack = ''p'', PackOffset = 0, BlockStoredBytes = 3, RawOffset = 0, BlockRawBytes = 3,
         BlockSHA256 = hex_encode (replicate 32 7), Encoding = ''raw''\<rparr>]\<rparr>) \<and>
   lookup_v3 example_index_v3 (hex_encode (replicate 32 4)) = Inr None"
proof -
  have block: "readBlockRecord example_index_v3 0 = Inr example_block_v3"
    using readBlockRecord_holds [OF example_index_holds, of 0] by simp
  have five: "find (\<lambda>r. Digest r = replicate 32 5) [example_object_v3 1, example_object_v3 5] = Some (example_object_v3 5)"
    by (simp add: example_object_v3_def)
  have four: "find (\<lambda>r. Digest r = replicate 32 4) [example_object_v3 1, example_object_v3 5] = None"
    by (simp add: example_object_v3_def)
  have "expandBlocks example_index_v3 d 0 0 (Suc 0) 0 =
    Inr ([\<lparr>Pack = ''p'', PackOffset = 0, BlockStoredBytes = 3, RawOffset = 0, BlockRawBytes = 3,
         BlockSHA256 = hex_encode (replicate 32 7), Encoding = ''raw''\<rparr>], 3)" for d
    using block
    by (simp add: expandBlock_def example_block_v3_def wrap64_def EncodingRaw_def) (simp add: example_index_v3_def)
  then have "expandObject example_index_v3 (example_object_v3 5) =
    Inr \<lparr>PackedSHA256 = hex_encode (replicate 32 5), PackedRawBytes = 3,
       Blocks = [\<lparr>Pack = ''p'', PackOffset = 0, BlockStoredBytes = 3, RawOffset = 0, BlockRawBytes = 3,
         BlockSHA256 = hex_encode (replicate 32 7), Encoding = ''raw''\<rparr>]\<rparr>"
    by (simp add: expandObject_def example_object_v3_def) (simp add: example_index_v3_def)
  then show ?thesis
    using lookup_v3_exact [OF example_index_holds example_index_sorted, of "replicate 32 5"]
      lookup_v3_exact [OF example_index_holds example_index_sorted, of "replicate 32 4"] five four
    by (simp del: find.simps)
qed

lemma readObjectRecord_digest: "readObjectRecord i p = Inr r \<Longrightarrow> length (Digest r) = 32"
  by (auto simp: readObjectRecord_def decodeObjectV3_def file_ReadAt_def objectV3RecordBytes_def split: if_splits option.splits)

lemma expandObject_digest: "expandObject i r = Inr obj \<Longrightarrow> PackedSHA256 obj = hex_encode (Digest r)"
  by (auto simp: expandObject_def result_simps split: if_splits prod.splits)

text \<open>An object that is found is found again under its own digest, and is the object at some position.\<close>

lemma lookup_v3_found:
  assumes "lookup_v3 i d = Inr (Some obj)"
  shows "lookup_v3 i (PackedSHA256 obj) = Inr (Some obj)"
    and "\<exists>k. k < V3ObjectCount (meta i) \<and> objectAt_v3 i k = Inr obj"
proof -
  obtain want k r where want: "decodeDigest d = Inr want" and k: "lookup_loop i want 0 (V3ObjectCount (meta i)) = Inr k"
    "k < V3ObjectCount (meta i)" and r: "readObjectRecord i k = Inr r" "Digest r = want" and obj: "expandObject i r = Inr obj"
    using assms by (auto simp: lookup_v3_def result_simps split: if_splits)
  have "length want = 32"
    using want by (auto simp: decodeDigest_def split: option.splits if_splits)
  then have "decodeDigest (PackedSHA256 obj) = Inr want"
    using expandObject_digest [OF obj] r(2) by (simp add: decodeDigest_def)
  then show "lookup_v3 i (PackedSHA256 obj) = Inr (Some obj)"
    using want assms by (simp add: lookup_v3_def)
  show "\<exists>k. k < V3ObjectCount (meta i) \<and> objectAt_v3 i k = Inr obj"
    using k r obj by (auto simp: objectAt_v3_def)
qed

section \<open>A generation directory is opened again\<close>

definition meta_ok :: "index_v3_meta \<Rightarrow> bool" where
  "meta_ok m \<longleftrightarrow> in_int64 (V3Version m) \<and> utf8_string (V3Kind m) \<and> utf8_string (V3Generation m) \<and> utf8_string (V3CreatedAt m) \<and>
     in_int64 (V3BlockBytes m) \<and> in_int64 (V3ObjectCount m) \<and> in_int64 (V3BlockCount m) \<and> (\<forall>p\<in>set (Packs m). utf8_string p)"

lemma decodeIndexV3Meta_write: "meta_ok m \<Longrightarrow> decodeIndexV3Meta (writeIndexV3Meta m) = Inr m"
proof -
  assume ok: "meta_ok m"
  have packs: "dec_slice dec_string '''' (JArr (map enc_string (Packs m))) = Some (Packs m)"
    by (simp add: dec_slice_def dec_elems_enc)
  have "wf_jval (Suc (Suc n)) (meta_json m)" for n
    using ok by (simp add: meta_json_def member_def meta_ok_def field_simps)
  from this [of 9998] have wf: "wf_jval 10000 (meta_json m)"
    by simp
  have "parse_json (writeIndexV3Meta m) = Some (meta_json m)"
    unfolding writeIndexV3Meta_def Marshal_def
    using wf by (rule parse_json_print) (simp_all add: spaces_def isSpace_def)
  moreover have "dec_struct meta_field (meta_json m) zero_meta = Some m"
    using ok packs
    by (simp add: dec_struct_def [of meta_field] meta_json_def meta_field_def zero_meta_def member_def meta_ok_def field_simps)
  ultimately show ?thesis
    by (simp add: decodeIndexV3Meta_def)
qed

lemma openIndexV3_written:
  assumes "meta_ok (meta i)" and "validateIndexV3Meta (meta i) name = Inr ()" and "validateSizes i = Inr ()"
    and "dir ''index.meta.json'' = Some (writeIndexV3Meta (meta i))" and "dir ''objects.idx'' = Some (objects_file i)"
    and "dir ''blocks.idx'' = Some (blocks_file i)"
  shows "openIndexV3 name dir = Inr i"
  using assms by (cases i) (simp add: openIndexV3_def generation_file_def decodeIndexV3Meta_write Let_def)

end
