(* ===== verification/Pack_Cache.thy ===== *)
theory Pack_Cache
  imports Prelude
begin

text \<open>
  The cache of decoded blocks, \<open>src/internal/pack/cache.go\<close>: a list of entries, the most recently used first,
  with the number of bytes it holds. The map from keys to list elements is the lookup in that list; the buffer
  that \<open>put\<close> copies when its capacity exceeds its length has the same bytes.
\<close>

record block_cache =
  budget :: int64
  used :: int64
  lru :: "(string \<times> bytes) list"

definition newBlockCache :: "int64 \<Rightarrow> block_cache" where
  "newBlockCache limit = \<lparr>budget = (if limit < 0 then 0 else limit), used = 0, lru = []\<rparr>"

definition MoveToFront :: "string \<Rightarrow> bytes \<Rightarrow> (string \<times> bytes) list \<Rightarrow> (string \<times> bytes) list" where
  "MoveToFront key data l = (key, data) # filter (\<lambda>e. fst e \<noteq> key) l"

definition block_get :: "string \<Rightarrow> block_cache \<Rightarrow> bytes option \<times> block_cache" where
  "block_get key c =
     (case map_of (lru c) key of
        None \<Rightarrow> (None, c)
      | Some data \<Rightarrow> (Some data, c\<lparr>lru := MoveToFront key data (lru c)\<rparr>))"

text \<open>The eviction loop drops entries from the back while the cache is over its budget; a cache without entries holds
  no bytes, so the loop never looks for the last entry of an empty list.\<close>

function evict :: "block_cache \<Rightarrow> block_cache" where
  "evict c =
     (if used c > budget c \<and> lru c \<noteq> []
      then evict (c\<lparr>used := used c - int (length (snd (last (lru c)))), lru := butlast (lru c)\<rparr>)
      else c)"
  by pat_completeness auto
termination
  by (relation "measure (\<lambda>c. length (lru c))") auto

declare evict.simps [simp del]

definition block_put :: "string \<Rightarrow> bytes \<Rightarrow> block_cache \<Rightarrow> block_cache" where
  "block_put key data c =
     (if int (length data) > budget c \<or> budget c = 0 then c
      else case map_of (lru c) key of
        Some old \<Rightarrow> c\<lparr>lru := MoveToFront key old (lru c)\<rparr>
      | None \<Rightarrow> evict (c\<lparr>lru := (key, data) # lru c, used := used c + int (length data)\<rparr>))"

section \<open>Invariant\<close>

definition held_bytes :: "(string \<times> bytes) list \<Rightarrow> int" where
  "held_bytes l = sum_list (map (\<lambda>e. int (length (snd e))) l)"

definition cache_ok :: "block_cache \<Rightarrow> bool" where
  "cache_ok c \<longleftrightarrow> distinct (map fst (lru c)) \<and> used c = held_bytes (lru c) \<and> used c \<le> budget c"

lemma held_bytes_simps [simp]: "held_bytes [] = 0" "held_bytes (e # l) = int (length (snd e)) + held_bytes l"
  by (simp_all add: held_bytes_def)

lemma held_bytes_append: "held_bytes (xs @ ys) = held_bytes xs + held_bytes ys"
  by (simp add: held_bytes_def)

lemma held_bytes_nonneg: "0 \<le> held_bytes l"
  by (induction l) auto

lemma held_bytes_filter:
  "distinct (map fst l) \<Longrightarrow> map_of l key = Some data \<Longrightarrow>
   held_bytes (filter (\<lambda>e. fst e \<noteq> key) l) = held_bytes l - int (length data)"
proof (induction l)
  case Nil
  then show ?case by simp
next
  case (Cons e l)
  show ?case
  proof (cases "fst e = key")
    case True
    then have "filter (\<lambda>e. fst e \<noteq> key) l = l"
      using Cons.prems by (auto simp: filter_id_conv rev_image_eqI)
    then show ?thesis
      using True Cons.prems by (cases e) auto
  next
    case False
    then show ?thesis
      using Cons by (cases e) auto
  qed
qed

lemma cache_ok_MoveToFront:
  assumes "cache_ok c" and "map_of (lru c) key = Some data"
  shows "cache_ok (c\<lparr>lru := MoveToFront key data (lru c)\<rparr>)"
proof -
  have "distinct (map fst (filter (\<lambda>e. fst e \<noteq> key) (lru c)))"
    using assms by (simp add: cache_ok_def distinct_map_filter)
  then show ?thesis
    using assms held_bytes_filter [of "lru c" key data] by (auto simp: cache_ok_def MoveToFront_def)
qed

text \<open>What eviction leaves: a front of the list that fits the budget, the whole list where it fitted.\<close>

lemma evict_front:
  assumes "distinct (map fst (lru c))" and "used c = held_bytes (lru c)" and "0 \<le> budget c"
  shows "cache_ok (evict c) \<and> budget (evict c) = budget c \<and> (\<exists>dropped. lru c = lru (evict c) @ dropped)"
  using assms
proof (induction c rule: evict.induct)
  case (1 c)
  show ?case
  proof (cases "used c > budget c \<and> lru c \<noteq> []")
    case False
    then have "evict c = c" "used c \<le> budget c"
      using "1.prems" by (auto simp: evict.simps [of c])
    then show ?thesis
      using "1.prems" by (simp add: cache_ok_def)
  next
    case True
    then obtain xs e where split: "lru c = xs @ [e]"
      by (metis rev_exhaust)
    define c' where "c' = c\<lparr>used := used c - int (length (snd e)), lru := xs\<rparr>"
    have c': "distinct (map fst (lru c'))" "used c' = held_bytes (lru c')" "budget c' = budget c"
      using "1.prems" by (simp_all add: split c'_def held_bytes_append)
    then have "cache_ok (evict c') \<and> budget (evict c') = budget c \<and> (\<exists>dropped. lru c' = lru (evict c') @ dropped)"
      using "1.IH" [OF True] "1.prems"(3) by (simp add: c'_def split)
    moreover have "evict c = evict c'" "lru c' = xs"
      using True by (simp_all add: c'_def split evict.simps [of c])
    ultimately obtain dropped where "cache_ok (evict c)" "budget (evict c) = budget c" and xs: "xs = lru (evict c) @ dropped"
      by metis
    have "lru c = lru (evict c) @ (dropped @ [e])"
      using split xs by simp
    then show ?thesis
      using \<open>cache_ok (evict c)\<close> \<open>budget (evict c) = budget c\<close> by blast
  qed
qed

lemma evict_nonempty:
  assumes "lru c = e # l" and "int (length (snd e)) \<le> budget c" and "used c = held_bytes (lru c)"
  shows "lru (evict c) \<noteq> []"
  using assms
proof (induction c arbitrary: l rule: evict.induct)
  case (1 c)
  show ?case
  proof (cases "used c > budget c \<and> lru c \<noteq> []")
    case False
    then show ?thesis
      using "1.prems" by (simp add: evict.simps [of c])
  next
    case True
    then obtain l' x where l: "l = l' @ [x]"
      using "1.prems" by (cases l rule: rev_cases) auto
    then show ?thesis
      using "1.IH" [OF True, of l'] True "1.prems" by (simp add: evict.simps [of c] held_bytes_append)
  qed
qed

lemma newBlockCache_ok: "cache_ok (newBlockCache limit)"
  by (simp add: cache_ok_def newBlockCache_def)

lemma block_get_ok: "cache_ok c \<Longrightarrow> cache_ok (snd (block_get key c))"
  by (auto simp: block_get_def intro: cache_ok_MoveToFront split: option.splits)

lemma block_put_evicts:
  assumes "cache_ok c" and "map_of (lru c) key = None" and "int (length data) \<le> budget c" and "budget c \<noteq> 0"
  shows "cache_ok (block_put key data c) \<and> (\<exists>dropped. (key, data) # lru c = lru (block_put key data c) @ dropped)"
proof -
  define c' where "c' = c\<lparr>lru := (key, data) # lru c, used := used c + int (length data)\<rparr>"
  have "0 \<le> budget c"
    using assms(1) held_bytes_nonneg [of "lru c"] by (simp add: cache_ok_def)
  then have "cache_ok (evict c') \<and> (\<exists>dropped. lru c' = lru (evict c') @ dropped)"
    using evict_front [of c'] assms(1,2) by (auto simp: c'_def cache_ok_def map_of_eq_None_iff)
  then show ?thesis
    using assms by (simp add: block_put_def c'_def)
qed

lemma block_put_ok: "cache_ok c \<Longrightarrow> cache_ok (block_put key data c)"
proof (cases "map_of (lru c) key")
  case None
  assume "cache_ok c"
  then show ?thesis
    using None block_put_evicts [of c key data] by (cases "int (length data) > budget c \<or> budget c = 0") (auto simp: block_put_def)
next
  case (Some old)
  assume "cache_ok c"
  then show ?thesis
    using Some cache_ok_MoveToFront by (simp add: block_put_def)
qed

section \<open>Refinement: the cache is a map that forgets\<close>

text \<open>The map a cache stands for.\<close>

definition cache_map :: "block_cache \<Rightarrow> string \<Rightarrow> bytes option" where
  "cache_map c = map_of (lru c)"

lemma map_of_MoveToFront: "map_of l key = Some data \<Longrightarrow> map_of (MoveToFront key data l) = map_of l"
proof
  fix k
  assume "map_of l key = Some data"
  moreover have "map_of (filter (\<lambda>e. fst e \<noteq> key) l) k = (if k = key then None else map_of l k)"
    by (induction l) auto
  ultimately show "map_of (MoveToFront key data l) k = map_of l k"
    by (simp add: MoveToFront_def)
qed

lemma block_get_map: "fst (block_get key c) = cache_map c key \<and> cache_map (snd (block_get key c)) = cache_map c"
  by (auto simp: block_get_def cache_map_def map_of_MoveToFront split: option.splits)

lemma map_of_append_le: "map_of (xs @ ys) = m \<Longrightarrow> distinct (map fst (xs @ ys)) \<Longrightarrow> map_of xs \<subseteq>\<^sub>m m"
  by (auto simp: map_le_def map_add_def map_of_append split: option.splits)

lemma block_put_map:
  assumes "cache_ok c"
  shows "cache_map (block_put key data c) \<subseteq>\<^sub>m
    (case cache_map c key of None \<Rightarrow> (cache_map c)(key \<mapsto> data) | Some _ \<Rightarrow> cache_map c)"
proof (cases "int (length data) > budget c \<or> budget c = 0")
  case True
  then show ?thesis
    by (auto simp: block_put_def map_le_def cache_map_def split: option.splits)
next
  case fits: False
  show ?thesis
  proof (cases "map_of (lru c) key")
    case (Some old)
    then show ?thesis
      using fits by (simp add: block_put_def cache_map_def map_of_MoveToFront)
  next
    case None
    then obtain dropped where "(key, data) # lru c = lru (block_put key data c) @ dropped"
      using block_put_evicts [OF assms None, of data] fits by (auto simp: not_less)
    moreover have "distinct (map fst ((key, data) # lru c))"
      using assms None by (auto simp: cache_ok_def map_of_eq_None_iff)
    ultimately have "map_of (lru (block_put key data c)) \<subseteq>\<^sub>m map_of ((key, data) # lru c)"
      by (intro map_of_append_le [of _ dropped]) simp_all
    then show ?thesis
      using None by (simp add: cache_map_def)
  qed
qed

text \<open>The entry that was put last is never the one that is evicted.\<close>

lemma block_put_present:
  assumes "cache_ok c" and "int (length data) \<le> budget c" and "budget c \<noteq> 0"
  shows "cache_map (block_put key data c) key = (case cache_map c key of None \<Rightarrow> Some data | Some old \<Rightarrow> Some old)"
proof (cases "map_of (lru c) key")
  case (Some old)
  then show ?thesis
    using assms by (simp add: block_put_def cache_map_def map_of_MoveToFront)
next
  case None
  define c' where "c' = c\<lparr>lru := (key, data) # lru c, used := used c + int (length data)\<rparr>"
  obtain dropped where dropped: "(key, data) # lru c = lru (block_put key data c) @ dropped" and ok: "cache_ok (block_put key data c)"
    using block_put_evicts [OF assms(1) None assms(2,3)] by blast
  have "lru (block_put key data c) \<noteq> []"
    using None assms evict_nonempty [of c' "(key, data)" "lru c"]
    by (simp add: block_put_def c'_def cache_ok_def add.commute)
  then have "hd (lru (block_put key data c)) = (key, data)"
    using dropped by (metis hd_append2 list.sel(1))
  then show ?thesis
    using \<open>lru (block_put key data c) \<noteq> []\<close> None by (cases "lru (block_put key data c)") (auto simp: cache_map_def)
qed



end
