(* ===== verification/Pack_Resolver.thy ===== *)
theory Pack_Resolver
  imports Pack_Index Pack_Cache Unfold
begin

text \<open>
  Reading objects out of a pack generation, \<open>src/internal/pack/resolver.go\<close>: loading a generation with its
  index and pack files, the bounds it checks, lookups, positioned reads, streams, and the reading of one block
  through the cache; and the verification of a generation, \<open>doctor.go\<close>.
\<close>

section \<open>Loading a generation\<close>

record resolver =
  r_index :: index
  r_objects :: "string \<Rightarrow> packed_object option"
  r_v3 :: "index_v3 option"
  r_generation :: string
  objectCount :: int64
  packs :: "string \<Rightarrow> bytes option"

definition readIndexJSON :: "string \<Rightarrow> generation_dir \<Rightarrow> pack_error + index" where
  "readIndexJSON directoryName dir =
     rbind (generation_file dir ''index.json'') (\<lambda>data.
     case Option.bind (parse_json data) (\<lambda>v. dec_struct index_field v zero_index) of
       None \<Rightarrow> Inl IndexUndecodable
     | Some decoded \<Rightarrow>
         (let idx = normalizeLegacyIndex decoded
          in if directoryName \<noteq> Generation idx \<and> \<not> has_prefix ''.generation-'' directoryName then Inl GenerationMismatch
             else rbind (validateIndex idx) (\<lambda>_. Inr idx)))"

definition open_index :: "string \<Rightarrow> generation_dir \<Rightarrow> pack_error + (index \<times> index_v3 option)" where
  "open_index directoryName dir =
     (if dir ''index.meta.json'' \<noteq> None
      then rbind (openIndexV3 directoryName dir) (\<lambda>i. Inr (zero_index, Some i))
      else rbind (readIndexJSON directoryName dir) (\<lambda>idx. Inr (idx, None)))"

fun open_packs :: "generation_dir \<Rightarrow> string list \<Rightarrow> (string \<Rightarrow> bytes option) \<Rightarrow> pack_error + (string \<Rightarrow> bytes option)" where
  "open_packs dir [] opened = Inr opened"
| "open_packs dir (name # names) opened =
     (if opened name \<noteq> None then open_packs dir names opened
      else if path_base name \<noteq> name \<or> name = ''.'' \<or> name = ''..'' then Inl (UnsafePackName name)
      else rbind (generation_file dir name) (\<lambda>data. open_packs dir names (opened(name \<mapsto> data))))"

fun validateObjectBlockBounds :: "string \<Rightarrow> nat \<Rightarrow> block list \<Rightarrow> (string \<Rightarrow> int64 option) \<Rightarrow> pack_error + unit" where
  "validateObjectBlockBounds digest n [] packSizes = Inr ()"
| "validateObjectBlockBounds digest n (b # bs) packSizes =
     (case packSizes (Pack b) of
        None \<Rightarrow> Inl (UnopenedPack (Pack b))
      | Some packSize \<Rightarrow>
          if PackOffset b > packSize \<or> BlockStoredBytes b > packSize - PackOffset b then Inl (BlockExceedsPack digest n)
          else validateObjectBlockBounds digest (n + 1) bs packSizes)"

fun validatePackedBlockBounds :: "packed_object list \<Rightarrow> (string \<Rightarrow> int64 option) \<Rightarrow> pack_error + unit" where
  "validatePackedBlockBounds [] packSizes = Inr ()"
| "validatePackedBlockBounds (obj # objs) packSizes =
     rbind (validateObjectBlockBounds (PackedSHA256 obj) 0 (Blocks obj) packSizes)
       (\<lambda>_. validatePackedBlockBounds objs packSizes)"

text \<open>The loop over the records of a binary index: \<open>left\<close> of them to go from position \<open>n\<close> on.\<close>

fun validateV3Records :: "index_v3 \<Rightarrow> (string \<Rightarrow> int64 option) \<Rightarrow> nat \<Rightarrow> nat \<Rightarrow> bytes \<Rightarrow> pack_error + unit" where
  "validateV3Records i packSizes n 0 previous = Inr ()"
| "validateV3Records i packSizes n (Suc left) previous =
     rbind (readObjectRecord i (int n)) (\<lambda>r.
     if n > 0 \<and> \<not> previous < Digest r then Inl NotSorted
     else rbind (objectAt_v3 i (int n)) (\<lambda>obj.
       rbind (validateObjectBlockBounds (PackedSHA256 obj) 0 (Blocks obj) packSizes) (\<lambda>_.
       validateV3Records i packSizes (n + 1) left (Digest r))))"

definition validateResolverBounds :: "resolver \<Rightarrow> (string \<Rightarrow> int64 option) \<Rightarrow> pack_error + unit" where
  "validateResolverBounds r packSizes =
     (case r_v3 r of
        None \<Rightarrow> validatePackedBlockBounds (Objects (r_index r)) packSizes
      | Some i \<Rightarrow> validateV3Records i packSizes 0 (nat (V3ObjectCount (meta i))) (replicate 32 0))"

definition resolverPackSizes :: "(string \<Rightarrow> bytes option) \<Rightarrow> string \<Rightarrow> int64 option" where
  "resolverPackSizes opened name = map_option (\<lambda>data. int (length data)) (opened name)"

definition index_objects :: "packed_object list \<Rightarrow> string \<Rightarrow> packed_object option" where
  "index_objects objs = fold (\<lambda>obj m. m(PackedSHA256 obj \<mapsto> obj)) objs (\<lambda>_. None)"

definition loadResolverResources :: "string \<Rightarrow> generation_dir \<Rightarrow> pack_error + resolver" where
  "loadResolverResources directoryName dir =
     rbind (open_index directoryName dir) (\<lambda>(idx, v3).
     let packNames = (case v3 of Some i \<Rightarrow> Packs (meta i) | None \<Rightarrow> []) @
           concat (map (\<lambda>obj. map Pack (Blocks obj)) (Objects idx))
     in rbind (open_packs dir packNames (\<lambda>_. None)) (\<lambda>opened.
        let r = \<lparr>r_index = idx, r_objects = index_objects (Objects idx), r_v3 = v3,
                 r_generation = (case v3 of Some i \<Rightarrow> V3Generation (meta i) | None \<Rightarrow> Generation idx),
                 objectCount = (case v3 of Some i \<Rightarrow> V3ObjectCount (meta i) | None \<Rightarrow> int (length (Objects idx))),
                 packs = opened\<rparr>
        in rbind (validateResolverBounds r (resolverPackSizes opened)) (\<lambda>_. Inr r)))"

section \<open>Lookup\<close>

definition lookupObject :: "resolver \<Rightarrow> string \<Rightarrow> pack_error + packed_object option" where
  "lookupObject r digest =
     (case r_v3 r of
        Some i \<Rightarrow> lookup_v3 i digest
      | None \<Rightarrow> Inr (r_objects r digest))"

definition objectAt :: "resolver \<Rightarrow> int64 \<Rightarrow> pack_error + packed_object" where
  "objectAt r position =
     (if position < 0 \<or> position \<ge> objectCount r then Inl IndexEOF
      else case r_v3 r of
        Some i \<Rightarrow> objectAt_v3 i position
      | None \<Rightarrow> Inr (Objects (r_index r) ! nat position))"

definition HasDigest :: "resolver \<Rightarrow> string \<Rightarrow> bool" where
  "HasDigest r digest = (case lookupObject r digest of Inr (Some _) \<Rightarrow> True | _ \<Rightarrow> False)"

definition HasPackedObject :: "resolver \<Rightarrow> object_ref \<Rightarrow> bool" where
  "HasPackedObject r ref =
     (case lookupObject r (SHA256 ref) of Inr (Some obj) \<Rightarrow> PackedRawBytes obj = RawBytes ref | _ \<Rightarrow> False)"

text \<open>The lookup, with the checks that \<open>ReadAt\<close> and \<open>OpenObject\<close> make on its result.\<close>

definition lookup_ref :: "resolver \<Rightarrow> object_ref \<Rightarrow> pack_error + packed_object" where
  "lookup_ref r ref =
     rbind (lookupObject r (SHA256 ref)) (\<lambda>found.
     case found of
       None \<Rightarrow> Inl (ObjectNotPacked (SHA256 ref))
     | Some obj \<Rightarrow>
         if PackedRawBytes obj \<noteq> RawBytes ref then Inl (RawSizeMismatch (SHA256 ref) (PackedRawBytes obj) (RawBytes ref))
         else Inr obj)"

section \<open>One block\<close>

definition block_key :: "string \<Rightarrow> nat \<Rightarrow> string" where
  "block_key digest n = digest @ '':'' @ itoa n"

text \<open>A block read from its pack, decoded and verified. The length passed to \<open>make\<close> is not negative in an index that
  was accepted; a negative one is a run-time panic.\<close>

definition decodeBlock :: "zstd \<Rightarrow> (string \<Rightarrow> bytes option) \<Rightarrow> string \<Rightarrow> nat \<Rightarrow> block \<Rightarrow> pack_error + bytes" where
  "decodeBlock z opened digest n b =
     (case opened (Pack b) of
        None \<Rightarrow> Inl (PackNotOpen (Pack b))
      | Some file \<Rightarrow>
          if BlockStoredBytes b < 0 then Inl SliceOutOfRange
          else case file_ReadAt file (nat (BlockStoredBytes b)) (PackOffset b) of
            None \<Rightarrow> Inl (PackReadFailed digest n)
          | Some stored \<Rightarrow>
              (case (if Encoding b = EncodingRaw then Some stored else DecodeAll z stored) of
                 None \<Rightarrow> Inl (BlockUndecodable digest n)
               | Some data \<Rightarrow>
                   if int (length data) \<noteq> BlockRawBytes b then Inl (BlockSizeMismatch digest n)
                   else if sha256_hex data \<noteq> BlockSHA256 b then Inl (BlockDigestMismatch digest n)
                   else Inr data))"

definition readBlock :: "zstd \<Rightarrow> resolver \<Rightarrow> string \<Rightarrow> nat \<Rightarrow> block \<Rightarrow> block_cache \<Rightarrow> (pack_error + bytes) \<times> block_cache" where
  "readBlock z r digest n b c =
     (case block_get (block_key digest n) c of
        (Some data, c') \<Rightarrow> (Inr data, c')
      | (None, c') \<Rightarrow>
          (case decodeBlock z (packs r) digest n b of
             Inl e \<Rightarrow> (Inl e, c')
           | Inr data \<Rightarrow> (Inr data, block_put (block_key digest n) data c')))"

section \<open>Positioned reads\<close>

text \<open>The error beside the bytes that a read has delivered.\<close>

datatype 'e at_status = AtNil | AtEOF | AtErr 'e

text \<open>
  The loop of \<open>ReadAt\<close> with \<open>need\<close> bytes of the destination left to fill: what is delivered, the error, the cache.
  A round that copies nothing leaves everything as it was, so the loop would not end: \<open>ReadNeverReturns\<close>.
\<close>

function readAt_loop :: "zstd \<Rightarrow> resolver \<Rightarrow> packed_object \<Rightarrow> nat \<Rightarrow> int64 \<Rightarrow> block_cache \<Rightarrow>
    bytes \<times> pack_error at_status \<times> block_cache" where
  "readAt_loop z r obj need offset c =
     (if \<not> (0 < need \<and> offset < PackedRawBytes obj) then ([], (if 0 < need then AtEOF else AtNil), c)
      else
        (let n = sort_Search (length (Blocks obj)) (\<lambda>k. wrap64 (RawOffset (Blocks obj ! k) + BlockRawBytes (Blocks obj ! k)) > offset)
         in if n = length (Blocks obj) then ([], AtErr (NoBlockForOffset (PackedSHA256 obj) offset), c)
            else case readBlock z r (PackedSHA256 obj) n (Blocks obj ! n) c of
              (Inl e, c') \<Rightarrow> ([], AtErr e, c')
            | (Inr data, c') \<Rightarrow>
                (let inside = wrap64 (offset - RawOffset (Blocks obj ! n))
                 in if inside < 0 \<or> inside > int (length data) then ([], AtErr SliceOutOfRange, c')
                    else
                      (let copied = min need (length data - nat inside)
                       in if copied = 0 then ([], AtErr ReadNeverReturns, c')
                          else case readAt_loop z r obj (need - copied) (wrap64 (offset + int copied)) c' of
                            (following, status, c'') \<Rightarrow> (slice (nat inside) (nat inside + copied) data @ following, status, c'')))))"
  by pat_completeness auto
termination
  by (relation "measure (\<lambda>(z, r, obj, need, offset, c). need)") auto

declare readAt_loop.simps [simp del]

definition Resolver_ReadAt :: "zstd \<Rightarrow> resolver \<Rightarrow> object_ref \<Rightarrow> nat \<Rightarrow> int64 \<Rightarrow> block_cache \<Rightarrow>
    bytes \<times> pack_error at_status \<times> block_cache" where
  "Resolver_ReadAt z r ref need offset c =
     (if offset < 0 then ([], AtErr NegativeReadOffset, c)
      else if need = 0 then ([], AtNil, c)
      else case lookup_ref r ref of
        Inl e \<Rightarrow> ([], AtErr e, c)
      | Inr obj \<Rightarrow>
          if offset \<ge> PackedRawBytes obj then ([], AtEOF, c)
          else readAt_loop z r obj need offset c)"

section \<open>Streams\<close>

record packed_stream =
  ps_ref :: object_ref
  ps_offset :: int64
  ps_object :: packed_object
  blockIndex :: nat
  blockData :: "bytes option"
  ps_closed :: bool

definition Resolver_OpenObject :: "resolver \<Rightarrow> object_ref \<Rightarrow> pack_error + packed_stream" where
  "Resolver_OpenObject r ref =
     rbind (lookup_ref r ref) (\<lambda>obj.
     Inr \<lparr>ps_ref = ref, ps_offset = 0, ps_object = obj, blockIndex = 0, blockData = None, ps_closed = False\<rparr>)"

text \<open>The block at hand, read when there is none.\<close>

definition stream_block :: "zstd \<Rightarrow> resolver \<Rightarrow> packed_stream \<Rightarrow> block_cache \<Rightarrow> (pack_error + bytes) \<times> block_cache" where
  "stream_block z r s c =
     (case blockData s of
        Some data \<Rightarrow> (Inr data, c)
      | None \<Rightarrow> readBlock z r (SHA256 (ps_ref s)) (blockIndex s) (Blocks (ps_object s) ! blockIndex s) c)"

function packed_loop :: "zstd \<Rightarrow> resolver \<Rightarrow> nat \<Rightarrow> packed_stream \<Rightarrow> block_cache \<Rightarrow>
    bytes \<times> pack_error at_status \<times> packed_stream \<times> block_cache" where
  "packed_loop z r need s c =
     (if \<not> (0 < need \<and> ps_offset s < PackedRawBytes (ps_object s)) then ([], AtNil, s, c)
      else if blockIndex s \<ge> length (Blocks (ps_object s)) then ([], AtErr StreamUnexpectedEOF, s, c)
      else
        (case stream_block z r s c of
           (Inl e, c') \<Rightarrow> ([], AtErr e, s, c')
         | (Inr data, c') \<Rightarrow>
             (let b = Blocks (ps_object s) ! blockIndex s;
                  inside = wrap64 (ps_offset s - RawOffset b)
              in if inside < 0 \<or> inside \<ge> int (length data) then ([], AtErr StreamBlockOffset, s\<lparr>blockData := Some data\<rparr>, c')
                 else
                   (let n = min need (length data - nat inside);
                        offset = wrap64 (ps_offset s + int n);
                        s' = (if offset = wrap64 (RawOffset b + BlockRawBytes b)
                              then s\<lparr>ps_offset := offset, blockData := None, blockIndex := blockIndex s + 1\<rparr>
                              else s\<lparr>ps_offset := offset, blockData := Some data\<rparr>)
                    in case packed_loop z r (need - n) s' c' of
                         (following, status, s'', c'') \<Rightarrow> (slice (nat inside) (nat inside + n) data @ following, status, s'', c'')))))"
  by pat_completeness auto
termination
  by (relation "measure (\<lambda>(z, r, need, s, c). need)") auto

declare packed_loop.simps [simp del]

definition packed_Read :: "zstd \<Rightarrow> resolver \<Rightarrow> nat \<Rightarrow> packed_stream \<Rightarrow> block_cache \<Rightarrow>
    bytes \<times> pack_error at_status \<times> packed_stream \<times> block_cache" where
  "packed_Read z r k s c =
     (if ps_closed s then ([], AtErr StreamClosed, s, c)
      else if k = 0 then ([], AtNil, s, c)
      else if ps_offset s \<ge> PackedRawBytes (ps_object s) then ([], AtEOF, s, c)
      else packed_loop z r k s c)"

definition packed_Close :: "packed_stream \<Rightarrow> packed_stream" where
  "packed_Close s = s\<lparr>blockData := None, ps_closed := True\<rparr>"

section \<open>Verification of a generation\<close>

text \<open>The reading loop for one object: what reaches the hasher from the offset on.\<close>

function verify_read :: "zstd \<Rightarrow> resolver \<Rightarrow> packed_object \<Rightarrow> int64 \<Rightarrow> block_cache \<Rightarrow> (pack_error + bytes) \<times> block_cache" where
  "verify_read z r obj offset c =
     (if \<not> offset < PackedRawBytes obj then (Inr [], c)
      else case Resolver_ReadAt z r \<lparr>SHA256 = PackedSHA256 obj, RawBytes = PackedRawBytes obj, StoredBytes = 0\<rparr> 131072 offset c of
        (data, status, c') \<Rightarrow>
          (case status of
             AtErr e \<Rightarrow> (Inl e, c')
           | _ \<Rightarrow>
               if data = [] then (Inr [], c')
               else case verify_read z r obj (offset + int (length data)) c' of
                 (Inl e, c'') \<Rightarrow> (Inl e, c'')
               | (Inr following, c'') \<Rightarrow> (Inr (data @ following), c'')))"
  by pat_completeness auto
termination
  by (relation "measure (\<lambda>(z, r, obj, offset, c). nat (PackedRawBytes obj - offset))") auto

declare verify_read.simps [simp del]

fun verify_objects :: "zstd \<Rightarrow> resolver \<Rightarrow> nat \<Rightarrow> nat \<Rightarrow> block_cache \<Rightarrow> pack_error + unit" where
  "verify_objects z r n 0 c = Inr ()"
| "verify_objects z r n (Suc left) c =
     rbind (objectAt r (int n)) (\<lambda>obj.
     case verify_read z r obj 0 c of
       (Inl e, c') \<Rightarrow> Inl e
     | (Inr data, c') \<Rightarrow>
         if int (length data) \<noteq> PackedRawBytes obj \<or> sha256_hex data \<noteq> PackedSHA256 obj
         then Inl (VerificationFailed (PackedSHA256 obj))
         else verify_objects z r (n + 1) left c')"

definition verifyGeneration :: "zstd \<Rightarrow> string \<Rightarrow> generation_dir \<Rightarrow> pack_error + unit" where
  "verifyGeneration z directoryName dir =
     rbind (loadResolverResources directoryName dir) (\<lambda>r.
     verify_objects z r 0 (nat (objectCount r)) (newBlockCache 0))"

lemma laid_out_drop: "laid_out off bs \<Longrightarrow> \<exists>off'. laid_out off' (drop n bs)"
  by (induction off bs arbitrary: n rule: laid_out.induct) (auto simp: drop_Cons')

lemma laid_out_take: "laid_out off bs \<Longrightarrow> laid_out off (take n bs)"
  by (induction off bs arbitrary: n rule: laid_out.induct) (auto simp: take_Cons')

lemma raw_total_take_mono: "laid_out off bs \<Longrightarrow> i \<le> j \<Longrightarrow> raw_total (take i bs) \<le> raw_total (take j bs)"
proof -
  assume "laid_out off bs" "i \<le> j"
  have "take j bs = take i bs @ take (j - i) (drop i bs)"
    using \<open>i \<le> j\<close> by (metis le_add_diff_inverse take_add)
  moreover have "0 \<le> raw_total (take (j - i) (drop i bs))"
    using \<open>laid_out off bs\<close> laid_out_drop laid_out_take laid_out_total by blast
  ultimately show ?thesis
    by simp
qed

lemma raw_total_take_less:
  assumes "laid_out off bs" and "m < length bs"
  shows "raw_total (take m bs) < raw_total bs"
proof -
  have "raw_total (take (Suc m) bs) = raw_total (take m bs) + BlockRawBytes (bs ! m)"
    using assms(2) by (simp add: take_Suc_conv_app_nth)
  then show ?thesis
    using laid_out_nth [OF assms] raw_total_take_mono [OF assms(1), of "Suc m" "length bs"] assms(2) by simp
qed

section \<open>The bytes of a packed object\<close>

primrec blocks_bytes :: "zstd \<Rightarrow> (string \<Rightarrow> bytes option) \<Rightarrow> block list \<Rightarrow> bytes option" where
  "blocks_bytes z opened [] = Some []"
| "blocks_bytes z opened (b # bs) =
     (case decodeBlock z opened [] 0 b of
        Inl _ \<Rightarrow> None
      | Inr data \<Rightarrow> map_option (\<lambda>following. data @ following) (blocks_bytes z opened bs))"

text \<open>An object that can be served: laid out within the range of \<open>int64\<close>, every block readable.\<close>

definition served :: "zstd \<Rightarrow> resolver \<Rightarrow> packed_object \<Rightarrow> bytes \<Rightarrow> bool" where
  "served z r obj data \<longleftrightarrow> object_wf obj \<and> PackedRawBytes obj \<le> maxInt64 \<and> blocks_bytes z (packs r) (Blocks obj) = Some data"

text \<open>Its first \<open>m\<close> blocks hold the given bytes and the next one, if there is one, cannot be read.\<close>

definition served_upto :: "zstd \<Rightarrow> resolver \<Rightarrow> packed_object \<Rightarrow> nat \<Rightarrow> bytes \<Rightarrow> bool" where
  "served_upto z r obj m data \<longleftrightarrow> object_wf obj \<and> PackedRawBytes obj \<le> maxInt64 \<and> m \<le> length (Blocks obj) \<and>
     blocks_bytes z (packs r) (take m (Blocks obj)) = Some data \<and>
     (m < length (Blocks obj) \<longrightarrow> (\<exists>e. decodeBlock z (packs r) [] 0 (Blocks obj ! m) = Inl e))"

lemma served_upto_all: "served z r obj data \<longleftrightarrow> served_upto z r obj (length (Blocks obj)) data"
  by (simp add: served_def served_upto_def)

lemma decodeBlock_context: "decodeBlock z opened d n b = Inr data \<longleftrightarrow> decodeBlock z opened d' n' b = Inr data"
  by (auto simp: decodeBlock_def split: option.splits if_splits)

lemma decodeBlock_length: "decodeBlock z opened d n b = Inr data \<Longrightarrow> int (length data) = BlockRawBytes b"
  by (auto simp: decodeBlock_def split: option.splits if_splits)

lemma blocks_bytes_length: "blocks_bytes z opened bs = Some data \<Longrightarrow> int (length data) = raw_total bs"
  by (induction bs arbitrary: data) (auto split: sum.splits dest: decodeBlock_length)

lemma blocks_bytes_append:
  "blocks_bytes z opened (xs @ ys) = Some data \<longleftrightarrow>
   (\<exists>a b. blocks_bytes z opened xs = Some a \<and> blocks_bytes z opened ys = Some b \<and> data = a @ b)"
  by (induction xs arbitrary: data) (auto split: sum.splits)

text \<open>Either every block can be read or there is a first one that cannot.\<close>

lemma served_cases:
  assumes "object_wf obj" and "PackedRawBytes obj \<le> maxInt64"
  obtains m data where "served_upto z r obj m data"
proof -
  have "\<exists>m\<le>length bs. \<exists>data. blocks_bytes z opened (take m bs) = Some data \<and>
    (m < length bs \<longrightarrow> (\<exists>e. decodeBlock z opened [] 0 (bs ! m) = Inl e))" for opened bs
  proof (induction bs)
    case Nil
    then show ?case by simp
  next
    case (Cons b bs)
    then obtain m data where m: "m \<le> length bs" "blocks_bytes z opened (take m bs) = Some data"
      "m < length bs \<longrightarrow> (\<exists>e. decodeBlock z opened [] 0 (bs ! m) = Inl e)"
      by blast
    show ?case
    proof (cases "decodeBlock z opened [] 0 b")
      case (Inl e)
      then show ?thesis
        by (intro exI [of _ 0]) simp
    next
      case (Inr x)
      then show ?thesis
        using m by (intro exI [of _ "Suc m"]) simp
    qed
  qed
  from this [of "Blocks obj" "packs r"] show thesis
    using that assms unfolding served_upto_def by blast
qed

lemma served_upto_length:
  "served_upto z r obj m data \<Longrightarrow> int (length data) = raw_total (take m (Blocks obj)) \<and> int (length data) \<le> PackedRawBytes obj"
  using blocks_bytes_length [of z "packs r" "take m (Blocks obj)" data]
    raw_total_take_mono [of 0 "Blocks obj" m "length (Blocks obj)"]
  by (simp add: served_upto_def object_wf_def)

lemma served_length: "served z r obj data \<Longrightarrow> int (length data) = PackedRawBytes obj"
  by (auto simp: served_def object_wf_def dest: blocks_bytes_length)

text \<open>The data of block \<open>n\<close> is the part of the object that starts at the raw offset of the block.\<close>

lemma served_block:
  assumes "served_upto z r obj m data" and "n < m"
  obtains x p where "decodeBlock z (packs r) d n (Blocks obj ! n) = Inr x"
    and "RawOffset (Blocks obj ! n) = int p" and "slice p (p + length x) data = x" and "p + length x \<le> length data"
    and "BlockRawBytes (Blocks obj ! n) = int (length x)" and "0 < length x"
proof -
  let ?bs = "Blocks obj" and ?us = "take m (Blocks obj)"
  have n: "n < length ?bs" "n < length ?us"
    using assms by (simp_all add: served_upto_def)
  then have split: "?us = take n ?bs @ ?bs ! n # drop (Suc n) ?us"
    using id_take_nth_drop [OF n(2)] assms(2) by (simp add: min_def)
  obtain a b where a: "blocks_bytes z (packs r) (take n ?bs) = Some a"
    and b: "blocks_bytes z (packs r) (?bs ! n # drop (Suc n) ?us) = Some b" and data: "data = a @ b"
    using assms(1) blocks_bytes_append [of z "packs r" "take n ?bs" "?bs ! n # drop (Suc n) ?us" data] split
    by (auto simp: served_upto_def)
  obtain x y where x: "decodeBlock z (packs r) [] 0 (?bs ! n) = Inr x" and y: "b = x @ y"
    using b by (auto split: sum.splits)
  have off: "RawOffset (?bs ! n) = raw_total (take n ?bs)" "0 < BlockRawBytes (?bs ! n)"
    using assms n laid_out_nth [of 0 ?bs n] by (simp_all add: served_upto_def object_wf_def)
  show thesis
  proof (rule that [of x "length a"])
    show "decodeBlock z (packs r) d n (?bs ! n) = Inr x"
      using x decodeBlock_context by blast
    show "RawOffset (?bs ! n) = int (length a)"
      using off blocks_bytes_length [OF a] by simp
    show "slice (length a) (length a + length x) data = x" "length a + length x \<le> length data"
      by (simp_all add: data y slice_def)
    show "BlockRawBytes (?bs ! n) = int (length x)" "0 < length x"
      using off decodeBlock_length [OF x] by auto
  qed
qed

section \<open>Keys of the cache\<close>

lemma itoa_digit_chars: "c \<in> set (itoa n) \<Longrightarrow> c \<noteq> CHR '':''"
proof (induction n rule: itoa.induct)
  case (1 n)
  have digit: "char_of (48 + d) \<noteq> (CHR '':'' :: char)" if "d < 10" for d :: nat
  proof
    assume "char_of (48 + d) = (CHR '':'' :: char)"
    then have "(of_char (char_of (48 + d) :: char) :: nat) = of_char (CHR '':'')"
      by simp
    then show False
      using that by simp
  qed
  show ?case
    using 1 digit [of n] digit [of "n mod 10"] by (cases "n < 10") (auto simp: itoa.simps [of n])
qed

lemma itoa_inject [simp]: "itoa a = itoa b \<longleftrightarrow> a = b"
  by (metis digits_value_itoa)

lemma block_key_inject [simp]: "block_key d n = block_key d' n' \<longleftrightarrow> d = d' \<and> n = n'"
proof
  assume eq: "block_key d n = block_key d' n'"
  have "rev (takeWhile (\<lambda>c. c \<noteq> CHR '':'') (rev (block_key x k))) = itoa k" for x k
    using itoa_digit_chars [of _ k] by (simp add: block_key_def takeWhile_append)
  then have "itoa n = itoa n'"
    using eq by metis
  then show "d = d' \<and> n = n'"
    using eq by (simp add: block_key_def)
qed simp

text \<open>
  What a cache may hold for a resolver: under the key of a block of an object that the lookup finds, the decoded
  block.
\<close>

definition cache_sound :: "zstd \<Rightarrow> resolver \<Rightarrow> block_cache \<Rightarrow> bool" where
  "cache_sound z r c \<longleftrightarrow> cache_ok c \<and>
     (\<forall>d n obj data. cache_map c (block_key d n) = Some data \<longrightarrow> lookupObject r d = Inr (Some obj) \<longrightarrow>
        n < length (Blocks obj) \<longrightarrow> decodeBlock z (packs r) d n (Blocks obj ! n) = Inr data)"

lemma cache_sound_new: "cache_sound z r (newBlockCache limit)"
  using newBlockCache_ok [of limit] by (simp add: cache_sound_def cache_map_def newBlockCache_def)

text \<open>Reading through a sound cache is reading the block.\<close>

lemma readBlock_sound:
  assumes "cache_sound z r c" and "lookupObject r d = Inr (Some obj)" and "n < length (Blocks obj)"
    and "readBlock z r d n (Blocks obj ! n) c = (res, c')"
  shows "res = decodeBlock z (packs r) d n (Blocks obj ! n) \<and> cache_sound z r c'"
proof -
  define g where "g = snd (block_get (block_key d n) c)"
  have g: "cache_ok g" "cache_map g = cache_map c" "block_get (block_key d n) c = (cache_map c (block_key d n), g)"
    using assms(1) block_get_ok [of c] block_get_map [of "block_key d n" c] by (simp_all add: g_def cache_sound_def prod_eq_iff)
  have gs: "cache_sound z r g"
    using assms(1) g by (simp add: cache_sound_def)
  show ?thesis
  proof (cases "cache_map c (block_key d n)")
    case (Some data)
    then have "res = Inr data" "c' = g"
      using assms(4) g(3) by (simp_all add: readBlock_def)
    then show ?thesis
      using gs assms(1-3) Some unfolding cache_sound_def by metis
  next
    case None
    show ?thesis
    proof (cases "decodeBlock z (packs r) d n (Blocks obj ! n)")
      case (Inl e)
      then show ?thesis
        using assms(4) g(3) None gs by (simp add: readBlock_def)
    next
      case (Inr data)
      then have res: "res = Inr data" "c' = block_put (block_key d n) data g"
        using assms(4) g(3) None by (simp_all add: readBlock_def)
      have "cache_map c' \<subseteq>\<^sub>m (cache_map c)(block_key d n \<mapsto> data)"
        using block_put_map [OF g(1), of "block_key d n" data] None by (simp add: res g(2))
      then have "cache_map c' k = Some x \<Longrightarrow> ((cache_map c)(block_key d n \<mapsto> data)) k = Some x" for k x
        unfolding map_le_def by (metis domI)
      then have "cache_map c' k = Some x \<Longrightarrow> k = block_key d n \<and> x = data \<or> cache_map c k = Some x" for k x
        by (metis fun_upd_apply option.inject)
      then have "cache_sound z r c'"
        using assms(1,2) Inr block_put_ok [OF g(1)] unfolding cache_sound_def res(2)
        by (metis Inr_inject block_key_inject option.inject)
      then show ?thesis
        using Inr res by simp
    qed
  qed
qed

section \<open>Positioned reads are exact\<close>

text \<open>The end of block \<open>k\<close>; the sum in the source does not wrap around.\<close>

lemma block_end:
  assumes "object_wf obj" and "PackedRawBytes obj \<le> maxInt64" and "k < length (Blocks obj)"
  shows "wrap64 (RawOffset (Blocks obj ! k) + BlockRawBytes (Blocks obj ! k)) = raw_total (take (Suc k) (Blocks obj))"
    and "RawOffset (Blocks obj ! k) = raw_total (take k (Blocks obj))"
proof -
  have lo: "laid_out 0 (Blocks obj)" and total: "raw_total (Blocks obj) \<le> maxInt64"
    using assms by (simp_all add: object_wf_def)
  have at: "RawOffset (Blocks obj ! k) = raw_total (take k (Blocks obj))"
    using laid_out_nth [OF lo assms(3)] by simp
  then have "RawOffset (Blocks obj ! k) + BlockRawBytes (Blocks obj ! k) = raw_total (take (Suc k) (Blocks obj))"
    using assms(3) by (simp add: take_Suc_conv_app_nth)
  moreover have "0 \<le> raw_total (take (Suc k) (Blocks obj))" "raw_total (take (Suc k) (Blocks obj)) \<le> maxInt64"
    using laid_out_total [OF laid_out_take [OF lo]] raw_total_take_mono [OF lo, of "Suc k" "length (Blocks obj)"] total assms(3)
    by simp_all
  ultimately show "wrap64 (RawOffset (Blocks obj ! k) + BlockRawBytes (Blocks obj ! k)) = raw_total (take (Suc k) (Blocks obj))"
    by (simp add: in_int64_nonneg)
  show "RawOffset (Blocks obj ! k) = raw_total (take k (Blocks obj))"
    by (rule at)
qed

text \<open>The binary search finds the block that holds the offset.\<close>

lemma search_block:
  assumes wf: "object_wf obj" "PackedRawBytes obj \<le> maxInt64" and p: "0 \<le> p" "p < PackedRawBytes obj"
    and n: "n = sort_Search (length (Blocks obj))
      (\<lambda>k. wrap64 (RawOffset (Blocks obj ! k) + BlockRawBytes (Blocks obj ! k)) > p)"
  shows "n < length (Blocks obj) \<and> RawOffset (Blocks obj ! n) \<le> p \<and>
    p < RawOffset (Blocks obj ! n) + BlockRawBytes (Blocks obj ! n)"
proof -
  let ?bs = "Blocks obj" and ?N = "length (Blocks obj)"
  let ?f = "\<lambda>k. wrap64 (RawOffset (?bs ! k) + BlockRawBytes (?bs ! k)) > p"
  have lo: "laid_out 0 ?bs" and total: "raw_total ?bs = PackedRawBytes obj"
    using wf by (simp_all add: object_wf_def)
  have f: "?f k \<longleftrightarrow> p < raw_total (take (Suc k) ?bs)" if "k < ?N" for k
    using block_end(1) [OF wf that] by simp
  have "monotone_upto ?N ?f"
    unfolding monotone_upto_def
  proof (intro allI impI)
    fix a b
    assume "a \<le> b" "b < ?N" "?f a"
    then show "?f b"
      using f [of a] f [of b] raw_total_take_mono [OF lo, of "Suc a" "Suc b"] by simp
  qed
  then have bd: "boundary ?N ?f n"
    unfolding n by (rule sort_Search_boundary)
  have "?bs \<noteq> []"
    using p total by (auto simp: raw_total_def)
  then have "?f (?N - 1)"
    using f [of "?N - 1"] p total by simp
  then have "n \<noteq> ?N"
    using bd \<open>?bs \<noteq> []\<close> unfolding boundary_def by (metis diff_less length_greater_0_conv zero_less_one)
  then have nN: "n < ?N"
    using bd by (simp add: boundary_def)
  have "?f n"
    using bd nN unfolding boundary_def by blast
  moreover have "raw_total (take n ?bs) \<le> p"
  proof (cases n)
    case 0
    then show ?thesis
      using p by simp
  next
    case (Suc m)
    then have "\<not> ?f m"
      using bd unfolding boundary_def by blast
    then show ?thesis
      using f [of m] nN Suc by simp
  qed
  ultimately show ?thesis
    using f [OF nN] block_end(2) [OF wf nN] nN by (simp add: take_Suc_conv_app_nth)
qed

lemma slice_of_slice:
  "slice p (p + length x) data = x \<Longrightarrow> p + length x \<le> length data \<Longrightarrow> p \<le> q \<Longrightarrow> m \<le> p + length x - q \<Longrightarrow>
   slice (q - p) (q - p + m) x = slice q (q + m) data"
proof -
  assume *: "slice p (p + length x) data = x" "p + length x \<le> length data" "p \<le> q" "m \<le> p + length x - q"
  have m: "min m (length x - (q - p)) = m"
    using *(3,4) by linarith
  have "slice (q - p) (q - p + m) x = take m (drop (q - p) (take (length x) (drop p data)))"
    using *(1) by (simp add: slice_def)
  also have "\<dots> = take m (drop (q - p) (drop p data))"
    by (simp add: drop_take m)
  finally show ?thesis
    using *(3) by (simp add: slice_def)
qed

text \<open>How a read ends that is \<open>need\<close> bytes long where \<open>there\<close> bytes can be read.\<close>

definition read_ends :: "bool \<Rightarrow> nat \<Rightarrow> nat \<Rightarrow> pack_error at_status \<Rightarrow> bool" where
  "read_ends complete there need status \<longleftrightarrow>
     (if there < need then (if complete then status = AtEOF else \<exists>e. status = AtErr e) else status = AtNil)"

lemma readAt_loop_exact:
  assumes served: "served_upto z r obj m data" and found: "lookupObject r (PackedSHA256 obj) = Inr (Some obj)"
  shows "cache_sound z r c \<Longrightarrow> p \<le> length data \<Longrightarrow>
    \<exists>status c'. readAt_loop z r obj need (int p) c = (take need (drop p data), status, c') \<and>
      read_ends (m = length (Blocks obj)) (length data - p) need status \<and> cache_sound z r c'"
proof (induction need arbitrary: p c rule: less_induct)
  case (less need)
  have len: "int (length data) = raw_total (take m (Blocks obj))" "int (length data) \<le> PackedRawBytes obj"
    and wf: "object_wf obj" "PackedRawBytes obj \<le> maxInt64" "m \<le> length (Blocks obj)"
    using served_upto_length [OF served] served unfolding served_upto_def by blast+
  have complete: "PackedRawBytes obj = int (length data)" if "m = length (Blocks obj)"
    using len wf that by (simp add: object_wf_def)
  show ?case
  proof (cases "0 < need \<and> int p < PackedRawBytes obj")
    case False
    then have "need = 0 \<or> p = length data \<and> int p = PackedRawBytes obj"
      using less.prems(2) len(2) by auto
    moreover have "m = length (Blocks obj)" if "int (length data) = PackedRawBytes obj"
      using that len wf raw_total_take_less [of 0 "Blocks obj" m] by (fastforce simp: object_wf_def)
    ultimately show ?thesis
      using less.prems by (auto simp: readAt_loop.simps [of z r obj need] read_ends_def)
  next
    case True
    define n where "n = sort_Search (length (Blocks obj))
      (\<lambda>k. wrap64 (RawOffset (Blocks obj ! k) + BlockRawBytes (Blocks obj ! k)) > int p)"
    have n: "n < length (Blocks obj)" "RawOffset (Blocks obj ! n) \<le> int p"
      "int p < RawOffset (Blocks obj ! n) + BlockRawBytes (Blocks obj ! n)"
      using search_block [OF wf(1,2) _ _ n_def] True by simp_all
    have unfold: "readAt_loop z r obj need (int p) c =
      (case readBlock z r (PackedSHA256 obj) n (Blocks obj ! n) c of
              (Inl e, c') \<Rightarrow> ([], AtErr e, c')
            | (Inr data, c') \<Rightarrow>
                (let inside = wrap64 (int p - RawOffset (Blocks obj ! n))
                 in if inside < 0 \<or> inside > int (length data) then ([], AtErr SliceOutOfRange, c')
                    else
                      (let copied = min need (length data - nat inside)
                       in if copied = 0 then ([], AtErr ReadNeverReturns, c')
                          else case readAt_loop z r obj (need - copied) (wrap64 (int p + int copied)) c' of
                            (following, status, c'') \<Rightarrow> (slice (nat inside) (nat inside + copied) data @ following, status, c''))))"
      using True n(1) by (subst readAt_loop.simps) (simp add: Let_def flip: n_def)
    show ?thesis
    proof (cases "n < m")
      case True': True
      obtain x q where x: "decodeBlock z (packs r) (PackedSHA256 obj) n (Blocks obj ! n) = Inr x"
        and q: "RawOffset (Blocks obj ! n) = int q" "slice q (q + length x) data = x" "q + length x \<le> length data"
          "BlockRawBytes (Blocks obj ! n) = int (length x)"
        using served_block [OF served True'] by metis
      obtain c1 where rb: "readBlock z r (PackedSHA256 obj) n (Blocks obj ! n) c = (Inr x, c1)" and c1: "cache_sound z r c1"
        using readBlock_sound [OF less.prems(1) found n(1)] x by (metis prod.collapse)
      obtain i where i: "p = q + i" "i < length x"
        using n(2,3) q(1,4) by (metis le_Suc_ex nat_add_left_cancel_less of_nat_add of_nat_le_iff of_nat_less_iff)
      define k where "k = min need (length x - i)"
      have bounds: "0 < k" "k \<le> need" "p + k \<le> length data" "k \<le> length x - i"
        using i q True by (auto simp: k_def)
      then obtain status c2 where step: "readAt_loop z r obj (need - k) (int (p + k)) c1 =
          (take (need - k) (drop (p + k) data), status, c2)"
        and ends: "read_ends (m = length (Blocks obj)) (length data - (p + k)) (need - k) status" and c2: "cache_sound z r c2"
        using less.IH [of "need - k" c1 "p + k"] c1 True by auto
      have w: "wrap64 (int p - int q) = int i" "wrap64 (int p + int k) = int (p + k)"
        using bounds i len wf(2) q(3) by (auto intro!: trans [OF wrap64_id] in_int64_nonneg)
      have copied: "slice i (i + k) x = slice p (p + k) data"
        using slice_of_slice [of q x data p k] q(2,3) bounds i by simp
      have "slice p (p + k) data @ take (need - k) (drop (p + k) data) = take need (drop p data)"
        using bounds(2) take_add [of k "need - k" "drop p data"] by (simp add: slice_def add.commute)
      then have "readAt_loop z r obj need (int p) c = (take need (drop p data), status, c2)"
        using rb step bounds w q(1) i(2) copied by (simp add: unfold Let_def flip: k_def)
      moreover have "read_ends (m = length (Blocks obj)) (length data - p) need status"
        using ends bounds by (auto simp: read_ends_def split: if_splits)
      ultimately show ?thesis
        using c2 by blast
    next
      case False
      have "\<not> m < n"
        using raw_total_take_less [of 0 "take n (Blocks obj)" m] laid_out_take [of 0 "Blocks obj" n] wf(1) n
          block_end(2) [OF wf(1,2) n(1)] len(1) less.prems(2)
        by (auto simp: object_wf_def min_def)
      then have "n = m" "p = length data"
        using False n(2) block_end(2) [OF wf(1,2) n(1)] len(1) less.prems(2) by auto
      obtain e where "decodeBlock z (packs r) (PackedSHA256 obj) n (Blocks obj ! n) = Inl e"
        using served n(1) \<open>n = m\<close> decodeBlock_context [of z "packs r" _ _ "Blocks obj ! n"]
        unfolding served_upto_def by (metis sum.exhaust)
      then obtain c1 where rb: "readBlock z r (PackedSHA256 obj) n (Blocks obj ! n) c = (Inl e, c1)" and c1: "cache_sound z r c1"
        using readBlock_sound [OF less.prems(1) found n(1)] by (metis prod.collapse)
      have "readAt_loop z r obj need (int p) c = ([], AtErr e, c1)"
        by (simp add: unfold rb)
      then show ?thesis
        using \<open>n = m\<close> \<open>p = length data\<close> n(1) True c1 by (simp add: read_ends_def)
    qed
  qed
qed

lemma Resolver_ReadAt_upto:
  assumes "served_upto z r obj m data" and "lookupObject r (PackedSHA256 obj) = Inr (Some obj)" and "lookup_ref r ref = Inr obj"
    and "cache_sound z r c" and "0 < need" and "p \<le> length data"
  shows "\<exists>status c'. Resolver_ReadAt z r ref need (int p) c = (take need (drop p data), status, c') \<and>
    read_ends (m = length (Blocks obj)) (length data - p) need status \<and> cache_sound z r c'"
proof (cases "int p < PackedRawBytes obj")
  case True
  then show ?thesis
    using readAt_loop_exact [OF assms(1,2,4,6), of need] assms(3,5) by (simp add: Resolver_ReadAt_def)
next
  case False
  then have p: "p = length data" "int p = PackedRawBytes obj"
    using served_upto_length [OF assms(1)] assms(6) by auto
  then have "m = length (Blocks obj)"
    using served_upto_length [OF assms(1)] assms(1) raw_total_take_less [of 0 "Blocks obj" m]
    by (fastforce simp: served_upto_def object_wf_def)
  then show ?thesis
    using p assms(3-5) by (simp add: Resolver_ReadAt_def read_ends_def)
qed

lemma Resolver_ReadAt_serves:
  assumes "served z r obj data" and "lookupObject r (PackedSHA256 obj) = Inr (Some obj)" and "lookup_ref r ref = Inr obj"
    and "cache_sound z r c" and "0 < need"
  shows "\<exists>c'. Resolver_ReadAt z r ref need (int p) c =
    (take need (drop p data), (if length data - p < need then AtEOF else AtNil), c') \<and> cache_sound z r c'"
proof (cases "p \<le> length data")
  case True
  then show ?thesis
    using Resolver_ReadAt_upto [of z r obj "length (Blocks obj)" data ref c need p] assms
    by (auto simp: served_upto_all read_ends_def split: if_splits)
next
  case False
  then show ?thesis
    using assms(3-5) served_length [OF assms(1)] by (auto simp: Resolver_ReadAt_def)
qed

section \<open>What a loaded generation guarantees\<close>

lemma index_objects_map: "index_objects objs = map_of (rev (map (\<lambda>obj. (PackedSHA256 obj, obj)) objs))"
proof -
  have "fold (\<lambda>obj m. m(PackedSHA256 obj \<mapsto> obj)) objs m0 = m0 ++ map_of (rev (map (\<lambda>obj. (PackedSHA256 obj, obj)) objs))" for m0
    by (induction objs arbitrary: m0) (simp_all add: map_add_def fun_eq_iff split: option.splits)
  then show ?thesis
    by (simp add: index_objects_def)
qed

lemma index_objects_Some: "index_objects objs d = Some obj \<Longrightarrow> obj \<in> set objs \<and> PackedSHA256 obj = d"
  by (auto simp: index_objects_map dest!: map_of_SomeD)

lemma index_objects_distinct:
  "distinct (map PackedSHA256 objs) \<Longrightarrow> obj \<in> set objs \<Longrightarrow> index_objects objs (PackedSHA256 obj) = Some obj"
  unfolding index_objects_map by (intro map_of_is_SomeI) (simp_all add: comp_def flip: rev_map)

lemma loadResolver_v3:
  assumes "loadResolverResources name dir = Inr r" and "r_v3 r = Some i"
  shows "objectCount r = V3ObjectCount (meta i)" and "0 \<le> V3ObjectCount (meta i)"
    and "validateV3Records i (resolverPackSizes (packs r)) 0 (nat (V3ObjectCount (meta i))) (replicate 32 0) = Inr ()"
  using assms
  by (auto simp: loadResolverResources_def open_index_def openIndexV3_def validateIndexV3Meta_def validateResolverBounds_def
      result_simps Let_def split: if_splits)

lemma loadResolver_json:
  assumes "loadResolverResources name dir = Inr r" and "r_v3 r = None"
  shows "validateIndex (r_index r) = Inr ()" and "r_objects r = index_objects (Objects (r_index r))"
    and "objectCount r = int (length (Objects (r_index r)))"
  using assms
  by (auto simp: loadResolverResources_def open_index_def readIndexJSON_def result_simps Let_def split: if_splits option.splits)

lemma validateV3Records_reads:
  assumes "validateV3Records i sizes n left prev = Inr ()"
  shows "\<exists>ors. length ors = left \<and> (\<forall>k<left. readObjectRecord i (int (n + k)) = Inr (ors ! k)) \<and>
    sorted_wrt (<) (map Digest ors) \<and> (0 < n \<longrightarrow> (\<forall>r\<in>set ors. prev < Digest r)) \<and> (\<forall>k<left. \<exists>obj. objectAt_v3 i (int (n + k)) = Inr obj)"
  using assms
proof (induction i sizes n left prev rule: validateV3Records.induct)
  case (1 i sizes n prev)
  then show ?case by simp
next
  case (2 i sizes n left prev)
  obtain r obj where r: "readObjectRecord i (int n) = Inr r" "0 < n \<longrightarrow> prev < Digest r" and obj: "objectAt_v3 i (int n) = Inr obj"
    and b: "validateObjectBlockBounds (PackedSHA256 obj) 0 (Blocks obj) sizes = Inr ()"
    and following: "validateV3Records i sizes (n + 1) left (Digest r) = Inr ()"
    using "2.prems" by (auto simp: result_simps split: if_splits)
  obtain ors where ors: "length ors = left" "\<forall>k<left. readObjectRecord i (int (n + 1 + k)) = Inr (ors ! k)"
    "sorted_wrt (<) (map Digest ors)" "\<forall>x\<in>set ors. Digest r < Digest x" "\<forall>k<left. \<exists>obj. objectAt_v3 i (int (n + 1 + k)) = Inr obj"
    using "2.IH" [OF r(1) _ obj b following] r(2) by auto
  show ?case
  proof (intro exI [of _ "r # ors"] conjI)
    show "\<forall>k<Suc left. readObjectRecord i (int (n + k)) = Inr ((r # ors) ! k)"
      using ors(2) r(1) by (auto simp: less_Suc_eq_0_disj algebra_simps)
    show "\<forall>k<Suc left. \<exists>obj. objectAt_v3 i (int (n + k)) = Inr obj"
      using ors(5) obj by (auto simp: less_Suc_eq_0_disj algebra_simps)
    show "0 < n \<longrightarrow> (\<forall>x\<in>set (r # ors). prev < Digest x)"
      using r(2) ors(4) by (auto intro: less_trans)
  qed (use ors in auto)
qed

text \<open>The object at a position is the one that its digest looks up.\<close>

lemma objectAt_lookup:
  assumes "loadResolverResources name dir = Inr r" and "objectAt r p = Inr obj"
  shows "lookupObject r (PackedSHA256 obj) = Inr (Some obj)"
proof (cases "r_v3 r")
  case None
  note json = loadResolver_json [OF assms(1) None]
  have "obj \<in> set (Objects (r_index r))" "distinct (map PackedSHA256 (Objects (r_index r)))"
    using assms(2) None json validateIndex_Inr [OF json(1)] validateObjects_distinct
    by (auto simp: objectAt_def split: if_splits)
  then show ?thesis
    using None json(2) by (simp add: lookupObject_def index_objects_distinct)
next
  case (Some i)
  note v3 = loadResolver_v3 [OF assms(1) Some]
  obtain ors where ors: "length ors = nat (V3ObjectCount (meta i))" "\<forall>k<length ors. readObjectRecord i (int k) = Inr (ors ! k)"
    "sorted_wrt (<) (map Digest ors)"
    using validateV3Records_reads [OF v3(3)] by auto
  have p: "0 \<le> p" "nat p < length ors" "objectAt_v3 i (int (nat p)) = Inr obj"
    using assms(2) Some v3 ors(1) by (auto simp: objectAt_def split: if_splits)
  then have rec: "readObjectRecord i (int (nat p)) = Inr (ors ! nat p)" "expandObject i (ors ! nat p) = Inr obj"
    using ors(2) by (auto simp: objectAt_v3_def result_simps)
  have "\<forall>j<nat p. Digest (ors ! j) \<noteq> Digest (ors ! nat p)"
    using ors(3) p(2) unfolding sorted_wrt_iff_nth_less by (metis length_map less_irrefl less_trans nth_map)
  then have "find (\<lambda>r. Digest r = Digest (ors ! nat p)) ors = Some (ors ! nat p)"
    using p(2) unfolding find_Some_iff by blast
  moreover have "V3ObjectCount (meta i) = int (length ors)"
    using ors(1) v3(2) by simp
  ultimately have "lookup_v3 i (hex_encode (Digest (ors ! nat p))) = Inr (Some obj)"
    using lookup_v3_reads [OF _ _ ors(3) readObjectRecord_digest [OF rec(1)]] ors(2) rec(2) by simp
  then show ?thesis
    using Some expandObject_digest [OF rec(2)] by (simp add: lookupObject_def)
qed

lemma lookup_loaded:
  assumes "loadResolverResources name dir = Inr r" and "lookupObject r d = Inr (Some obj)"
  shows "lookupObject r (PackedSHA256 obj) = Inr (Some obj)" and "\<exists>n. int n < objectCount r \<and> objectAt r (int n) = Inr obj"
    and "raw_total (Blocks obj) \<le> maxInt64 \<Longrightarrow> object_wf obj"
proof -
  have "lookupObject r (PackedSHA256 obj) = Inr (Some obj) \<and> (\<exists>n. int n < objectCount r \<and> objectAt r (int n) = Inr obj) \<and>
    (raw_total (Blocks obj) \<le> maxInt64 \<longrightarrow> object_wf obj)"
  proof (cases "r_v3 r")
    case None
    note json = loadResolver_json [OF assms(1) None]
    have obj: "obj \<in> set (Objects (r_index r))" "PackedSHA256 obj = d"
      using assms(2) None json(2) by (auto simp: lookupObject_def dest: index_objects_Some)
    then obtain n where "n < length (Objects (r_index r))" "Objects (r_index r) ! n = obj"
      by (meson in_set_conv_nth)
    then show ?thesis
      using obj assms(2) None json(3) validateIndex_wf [OF json(1) obj(1)]
      by (auto simp: objectAt_def intro!: exI [of _ n])
  next
    case (Some i)
    have look: "lookup_v3 i d = Inr (Some obj)"
      using assms(2) Some by (simp add: lookupObject_def)
    obtain k where k: "k < V3ObjectCount (meta i)" "objectAt_v3 i k = Inr obj"
      using lookup_v3_found(2) [OF look] by blast
    then obtain rec where "expandObject i rec = Inr obj" "0 \<le> k"
      by (auto simp: objectAt_v3_def readObjectRecord_def result_simps split: if_splits)
    then show ?thesis
      using lookup_v3_found(1) [OF look] k Some loadResolver_v3(1) [OF assms(1) Some] expandObject_wf
      by (auto simp: lookupObject_def objectAt_def intro!: exI [of _ "nat k"])
  qed
  then show "lookupObject r (PackedSHA256 obj) = Inr (Some obj)" "\<exists>n. int n < objectCount r \<and> objectAt r (int n) = Inr obj"
    "raw_total (Blocks obj) \<le> maxInt64 \<Longrightarrow> object_wf obj"
    by blast+
qed

section \<open>Verification of a generation establishes its contents\<close>

lemma verify_read_upto:
  assumes served: "served_upto z r obj m data" and found: "lookupObject r (PackedSHA256 obj) = Inr (Some obj)"
  shows "cache_sound z r c \<Longrightarrow> p \<le> length data \<Longrightarrow> \<exists>res c'. verify_read z r obj (int p) c = (res, c') \<and> cache_sound z r c' \<and>
    (if m = length (Blocks obj) then res = Inr (drop p data) else \<exists>e. res = Inl e)"
proof (induction "length data - p" arbitrary: p c rule: less_induct)
  case less
  let ?ref = "\<lparr>SHA256 = PackedSHA256 obj, RawBytes = PackedRawBytes obj, StoredBytes = 0\<rparr>"
  have len: "int (length data) = raw_total (take m (Blocks obj))" "int (length data) \<le> PackedRawBytes obj"
    and wf: "object_wf obj" "m \<le> length (Blocks obj)"
    using served_upto_length [OF served] served unfolding served_upto_def by blast+
  have lookup: "lookup_ref r ?ref = Inr obj"
    using found by (simp add: lookup_ref_def)
  define x where "x = take 131072 (drop p data)"
  define q where "q = p + length x"
  obtain status c1 where read: "Resolver_ReadAt z r ?ref 131072 (int p) c = (x, status, c1)"
    and ends: "read_ends (m = length (Blocks obj)) (length data - p) 131072 status" and c1: "cache_sound z r c1"
    using Resolver_ReadAt_upto [OF served found lookup less.prems(1) _ less.prems(2), of 131072] by (auto simp: x_def)
  show ?case
  proof (cases "int p < PackedRawBytes obj")
    case False
    then have "p = length data" "int (length data) = PackedRawBytes obj"
      using less.prems(2) len(2) by auto
    then have "m = length (Blocks obj)"
      using len wf raw_total_take_less [of 0 "Blocks obj" m] by (fastforce simp: object_wf_def)
    then show ?thesis
      using False less.prems \<open>p = length data\<close> by (simp add: verify_read.simps [of z r obj])
  next
    case True
    have unfold: "verify_read z r obj (int p) c =
      (case status of
             AtErr e \<Rightarrow> (Inl e, c1)
           | _ \<Rightarrow>
               if x = [] then (Inr [], c1)
               else case verify_read z r obj (int q) c1 of
                 (Inl e, c'') \<Rightarrow> (Inl e, c'')
               | (Inr following, c'') \<Rightarrow> (Inr (x @ following), c''))"
      using True by (subst verify_read.simps) (simp add: read q_def split: at_status.split)
    show ?thesis
    proof (cases "m \<noteq> length (Blocks obj) \<and> length data - p < 131072")
      case True
      then obtain e where "status = AtErr e"
        using ends by (auto simp: read_ends_def)
      then show ?thesis
        using True c1 by (simp add: unfold)
    next
      case False
      have ok: "status = AtEOF \<or> status = AtNil"
        using ends False by (auto simp: read_ends_def split: if_splits)
      have "p < length data"
        using True False len wf less.prems(2) by (auto simp: object_wf_def)
      have q: "p < q" "q \<le> length data" "x \<noteq> []"
        using \<open>p < length data\<close> by (auto simp: q_def x_def)
      obtain res c2 where "verify_read z r obj (int q) c1 = (res, c2)" "cache_sound z r c2"
        "if m = length (Blocks obj) then res = Inr (drop q data) else \<exists>e. res = Inl e"
        using less.hyps [OF _ c1 q(2)] q(1) \<open>p < length data\<close> diff_less_mono2 [OF q(1) \<open>p < length data\<close>] by blast
      moreover have "x @ drop q data = drop p data"
        using append_take_drop_id [of 131072 "drop p data"]
        by (cases "length data - p \<le> 131072") (simp_all add: q_def x_def add.commute)
      ultimately show ?thesis
        using ok q(3) by (auto simp: unfold split: if_splits)
    qed
  qed
qed

text \<open>A read of any object that is found leaves the cache sound.\<close>

lemma readAt_loop_sound:
  "cache_sound z r c \<Longrightarrow> lookupObject r (PackedSHA256 obj) = Inr (Some obj) \<Longrightarrow>
   cache_sound z r (snd (snd (readAt_loop z r obj need offset c)))"
proof (induction z r obj need offset c rule: readAt_loop.induct)
  case (1 z r obj need offset c)
  define n where "n = sort_Search (length (Blocks obj))
      (\<lambda>k. wrap64 (RawOffset (Blocks obj ! k) + BlockRawBytes (Blocks obj ! k)) > offset)"
  obtain res c1 where rb: "readBlock z r (PackedSHA256 obj) n (Blocks obj ! n) c = (res, c1)"
    by fastforce
  have "n \<le> length (Blocks obj)"
    by (simp add: n_def sort_Search_le)
  then have c1: "n \<noteq> length (Blocks obj) \<Longrightarrow> cache_sound z r c1"
    using readBlock_sound [OF "1.prems" _ rb] by simp
  show ?case
  proof (cases "\<not> (0 < need \<and> offset < PackedRawBytes obj) \<or> n = length (Blocks obj)")
    case True
    then show ?thesis
      using "1.prems" by (subst readAt_loop.simps) (auto simp: Let_def simp flip: n_def)
  next
    case False
    show ?thesis
    proof (cases res)
      case (Inl e)
      then show ?thesis
        using False rb c1 by (subst readAt_loop.simps) (simp add: Let_def flip: n_def)
    next
      case (Inr data)
      define inside where "inside = wrap64 (offset - RawOffset (Blocks obj ! n))"
      define copied where "copied = min need (length data - nat inside)"
      have "cache_sound z r (snd (snd (readAt_loop z r obj (need - copied) (wrap64 (offset + int copied)) c1)))"
        if "\<not> (inside < 0 \<or> inside > int (length data))" "copied \<noteq> 0"
        using "1.IH" [OF _ n_def _ rb [symmetric] Inr inside_def that(1) copied_def that(2)] False Inr c1 "1.prems"(2) by simp
      then show ?thesis
        using False rb c1 Inr
        by (subst readAt_loop.simps) (auto simp: Let_def split: prod.splits simp flip: n_def inside_def copied_def)
    qed
  qed
qed

lemma Resolver_ReadAt_sound:
  "cache_sound z r c \<Longrightarrow> (\<And>obj. lookup_ref r ref = Inr obj \<Longrightarrow> lookupObject r (PackedSHA256 obj) = Inr (Some obj)) \<Longrightarrow>
   cache_sound z r (snd (snd (Resolver_ReadAt z r ref need offset c)))"
  by (auto simp: Resolver_ReadAt_def readAt_loop_sound split: sum.splits)

lemma verify_read_sound:
  "cache_sound z r c \<Longrightarrow> lookupObject r (PackedSHA256 obj) = Inr (Some obj) \<Longrightarrow>
   cache_sound z r (snd (verify_read z r obj offset c))"
proof (induction z r obj offset c rule: verify_read.induct)
  case (1 z r obj offset c)
  let ?ref = "\<lparr>SHA256 = PackedSHA256 obj, RawBytes = PackedRawBytes obj, StoredBytes = 0\<rparr>"
  obtain data status c1 where read: "Resolver_ReadAt z r ?ref 131072 offset c = (data, status, c1)"
    by (metis prod.collapse)
  have c1: "cache_sound z r c1"
    using Resolver_ReadAt_sound [OF "1.prems"(1), of ?ref 131072 offset] "1.prems"(2) read
    by (simp add: lookup_ref_def)
  have IH: "offset < PackedRawBytes obj \<Longrightarrow> status = AtNil \<or> status = AtEOF \<Longrightarrow> data \<noteq> [] \<Longrightarrow>
    cache_sound z r (snd (verify_read z r obj (offset + int (length data)) c1))"
    using "1.IH" [OF _ read [symmetric] refl] c1 "1.prems"(2) by auto
  show ?case
    using "1.prems"(1) c1 IH
    by (subst verify_read.simps) (auto simp: read split: at_status.split sum.split prod.split)
qed

lemma verify_objects_at:
  assumes "verify_objects z r n left c = Inr ()" and "cache_sound z r c"
    and loaded: "\<And>p obj. objectAt r p = Inr obj \<Longrightarrow> lookupObject r (PackedSHA256 obj) = Inr (Some obj)"
    and "n \<le> k" and "k < n + left" and "objectAt r (int k) = Inr obj" and "object_wf obj" and "PackedRawBytes obj \<le> maxInt64"
  shows "\<exists>data. served z r obj data \<and> sha256_hex data = PackedSHA256 obj"
  using assms(1,2,4-6)
proof (induction left arbitrary: n c)
  case 0
  then show ?case by simp
next
  case (Suc left)
  obtain obj' where obj': "objectAt r (int n) = Inr obj'"
    using Suc.prems(1) by (auto simp: result_simps)
  obtain res c1 where read: "verify_read z r obj' 0 c = (res, c1)"
    by fastforce
  obtain data where data: "res = Inr data" "int (length data) = PackedRawBytes obj'" "sha256_hex data = PackedSHA256 obj'"
    and following: "verify_objects z r (n + 1) left c1 = Inr ()"
    using Suc.prems(1) obj' read by (cases res) (auto split: if_splits)
  have c1: "cache_sound z r c1"
    using verify_read_sound [OF Suc.prems(2) loaded [OF obj'], of 0] read by simp
  show ?case
  proof (cases "k = n")
    case True
    then have "obj' = obj"
      using obj' Suc.prems(5) by simp
    obtain m d where upto: "served_upto z r obj m d"
      using served_cases [OF assms(7,8)] by blast
    then have "m = length (Blocks obj)" "data = d"
      using verify_read_upto [OF upto loaded [OF Suc.prems(5)] Suc.prems(2), of 0] read data(1) \<open>obj' = obj\<close>
      by (auto split: if_splits)
    then show ?thesis
      using upto data \<open>obj' = obj\<close> by (auto simp: served_upto_all)
  next
    case False
    then show ?thesis
      using Suc.IH [OF following c1] Suc.prems by simp
  qed
qed

section \<open>Streams deliver the same bytes\<close>

text \<open>A stream that stands at position \<open>p\<close> of its object: it is in the block that holds the position.\<close>

definition stream_at :: "zstd \<Rightarrow> resolver \<Rightarrow> bytes \<Rightarrow> nat \<Rightarrow> packed_stream \<Rightarrow> bool" where
  "stream_at z r data p s \<longleftrightarrow> \<not> ps_closed s \<and> ps_offset s = int p \<and> p \<le> length data \<and>
     served z r (ps_object s) data \<and> lookupObject r (SHA256 (ps_ref s)) = Inr (Some (ps_object s)) \<and>
     (p < length data \<longrightarrow>
        (let b = Blocks (ps_object s) ! blockIndex s
         in blockIndex s < length (Blocks (ps_object s)) \<and> RawOffset b \<le> int p \<and> int p < RawOffset b + BlockRawBytes b \<and>
            (\<forall>x. blockData s = Some x \<longrightarrow> decodeBlock z (packs r) [] 0 b = Inr x)))"

text \<open>After a block that ends before the object does comes the block that starts there.\<close>

lemma next_block:
  assumes "object_wf obj" and "n < length (Blocks obj)" and "RawOffset (Blocks obj ! n) + BlockRawBytes (Blocks obj ! n) = q"
    and "q < PackedRawBytes obj"
  shows "n + 1 < length (Blocks obj) \<and> RawOffset (Blocks obj ! (n + 1)) = q \<and> 0 < BlockRawBytes (Blocks obj ! (n + 1))"
proof -
  have lo: "laid_out 0 (Blocks obj)" and total: "raw_total (Blocks obj) = PackedRawBytes obj"
    using assms(1) by (simp_all add: object_wf_def)
  have q: "raw_total (take (n + 1) (Blocks obj)) = q"
    using laid_out_nth [OF lo assms(2)] assms(2,3) by (simp add: take_Suc_conv_app_nth)
  then have "n + 1 < length (Blocks obj)"
    using assms(4) total by (cases "n + 1 < length (Blocks obj)") simp_all
  then show ?thesis
    using laid_out_nth [OF lo, of "n + 1"] q by simp
qed

text \<open>One round of the loop: the bytes up to the end of the block or of the buffer.\<close>

lemma packed_round:
  assumes at: "stream_at z r data p s" and c: "cache_sound z r c" and need: "0 < need" "p < length data"
  obtains k s' c' where "0 < k" and "k \<le> need" and "stream_at z r data (p + k) s'" and "cache_sound z r c'"
    and "packed_loop z r need s c =
      (case packed_loop z r (need - k) s' c' of (following, status, s'', c'') \<Rightarrow> (slice p (p + k) data @ following, status, s'', c''))"
proof -
  define obj n where "obj = ps_object s" and "n = blockIndex s"
  define b where "b = Blocks obj ! n"
  have served: "served_upto z r obj (length (Blocks obj)) data" and found: "lookupObject r (SHA256 (ps_ref s)) = Inr (Some obj)"
    and off: "ps_offset s = int p" and n: "n < length (Blocks obj)" "RawOffset b \<le> int p" "int p < RawOffset b + BlockRawBytes b"
    and held: "\<And>x. blockData s = Some x \<Longrightarrow> decodeBlock z (packs r) [] 0 b = Inr x"
    using at need(2) by (auto simp: stream_at_def Let_def obj_def n_def b_def served_upto_all)
  have wf: "object_wf obj" "PackedRawBytes obj \<le> maxInt64" and len: "int (length data) = PackedRawBytes obj"
    using served served_length [of z r obj data] by (auto simp: served_upto_all [symmetric] served_def)
  obtain x q where x: "decodeBlock z (packs r) (SHA256 (ps_ref s)) n b = Inr x" and q: "RawOffset b = int q"
    "slice q (q + length x) data = x" "q + length x \<le> length data" "BlockRawBytes b = int (length x)"
    using served_block [OF served n(1)] unfolding b_def by metis
  have x0: "decodeBlock z (packs r) [] 0 b = Inr x"
    using x decodeBlock_context by blast
  obtain c1 where rb: "stream_block z r s c = (Inr x, c1)" and c1: "cache_sound z r c1"
  proof (cases "blockData s")
    case None
    then show thesis
      using that readBlock_sound [OF c found n(1)] x unfolding b_def n_def obj_def
      by (metis option.simps(4) prod.collapse stream_block_def)
  next
    case (Some y)
    then have "y = x"
      using held x decodeBlock_context by (metis Inr_inject)
    then show thesis
      using that Some c by (simp add: stream_block_def)
  qed
  obtain i where i: "p = q + i" "i < length x"
    using n(2,3) q(1,4) by (metis le_Suc_ex nat_add_left_cancel_less of_nat_add of_nat_le_iff of_nat_less_iff)
  define k where "k = min need (length x - i)"
  define s' where "s' = (if int p + int k = int q + int (length x)
    then s\<lparr>ps_offset := int p + int k, blockData := None, blockIndex := n + 1\<rparr>
    else s\<lparr>ps_offset := int p + int k, blockData := Some x\<rparr>)"
  have bounds: "0 < k" "k \<le> need" "p + k \<le> q + length x" "p + k \<le> length data"
    using i q need by (auto simp: k_def)
  have w: "wrap64 (int p - int q) = int i" "wrap64 (int p + int k) = int p + int k" "wrap64 (int q + int (length x)) = int q + int (length x)"
    using bounds i len wf(2) q(3) by (auto intro!: trans [OF wrap64_id] in_int64_nonneg)
  have "stream_at z r data (p + k) s'"
  proof (cases "p + k = q + length x \<and> p + k < length data")
    case True
    then show ?thesis
      using at next_block [OF wf(1) n(1), of "int (p + k)"] q bounds len
      by (auto simp: stream_at_def Let_def s'_def b_def simp flip: obj_def n_def)
  next
    case False
    then show ?thesis
      using at bounds n q x0
      by (auto simp: stream_at_def Let_def s'_def b_def simp flip: obj_def n_def)
  qed
  moreover have "slice i (i + k) x = slice p (p + k) data"
    using slice_of_slice [of q x data p k] q(2,3) bounds i by simp
  then have "packed_loop z r need s c =
      (case packed_loop z r (need - k) s' c1 of (following, status, s'', c'') \<Rightarrow> (slice p (p + k) data @ following, status, s'', c''))"
    using need len n(1) rb off w i(2) q(1,4) bounds(1)
    by (subst packed_loop.simps) (simp add: Let_def s'_def b_def [symmetric] k_def [symmetric] flip: obj_def n_def)
  ultimately show thesis
    using that bounds c1 by blast
qed

lemma packed_loop_exact:
  "stream_at z r data p s \<Longrightarrow> cache_sound z r c \<Longrightarrow>
   \<exists>s' c'. packed_loop z r need s c = (take need (drop p data), AtNil, s', c') \<and>
     stream_at z r data (min (p + need) (length data)) s' \<and> cache_sound z r c'"
proof (induction need arbitrary: p s c rule: less_induct)
  case (less need)
  have p: "p \<le> length data" "ps_offset s = int p" "int (length data) = PackedRawBytes (ps_object s)"
    using less.prems(1) served_length by (auto simp: stream_at_def)
  show ?case
  proof (cases "0 < need \<and> p < length data")
    case False
    then have "packed_loop z r need s c = ([], AtNil, s, c)"
      using p by (subst packed_loop.simps) auto
    then show ?thesis
      using False less.prems p(1) by (auto simp: min_def)
  next
    case True
    then obtain k s1 c1 where k: "0 < k" "k \<le> need" and s1: "stream_at z r data (p + k) s1" and c1: "cache_sound z r c1"
      and step: "packed_loop z r need s c = (case packed_loop z r (need - k) s1 c1 of (following, status, s'', c'') \<Rightarrow>
        (slice p (p + k) data @ following, status, s'', c''))"
      using packed_round [OF less.prems] by metis
    obtain s2 c2 where "packed_loop z r (need - k) s1 c1 = (take (need - k) (drop (p + k) data), AtNil, s2, c2)"
      "stream_at z r data (min (p + k + (need - k)) (length data)) s2" "cache_sound z r c2"
      using less.IH [OF _ s1 c1, of "need - k"] k True by auto
    moreover have "slice p (p + k) data @ take (need - k) (drop (p + k) data) = take need (drop p data)"
      using k(2) take_add [of k "need - k" "drop p data"] by (simp add: slice_def add.commute)
    ultimately show ?thesis
      using step k(2) by auto
  qed
qed

lemma packed_Read_exact:
  assumes "stream_at z r data p s" and "cache_sound z r c"
  shows "\<exists>s' c'. packed_Read z r k s c = (take k (drop p data), (if 0 < k \<and> p = length data then AtEOF else AtNil), s', c') \<and>
     stream_at z r data (min (p + k) (length data)) s' \<and> cache_sound z r c'"
proof -
  have p: "p \<le> length data" "ps_offset s = int p" "int (length data) = PackedRawBytes (ps_object s)" "\<not> ps_closed s"
    using assms(1) served_length by (auto simp: stream_at_def)
  show ?thesis
  proof (cases "0 < k \<and> p < length data")
    case True
    then have "packed_Read z r k s c = packed_loop z r k s c"
      using p by (simp add: packed_Read_def)
    then show ?thesis
      using packed_loop_exact [OF assms, of k] True by simp
  next
    case False
    then show ?thesis
      using assms p by (auto simp: packed_Read_def min_def)
  qed
qed

text \<open>What a sequence of reads into buffers of the given sizes delivers.\<close>

primrec stream_reads :: "zstd \<Rightarrow> resolver \<Rightarrow> nat list \<Rightarrow> packed_stream \<Rightarrow> block_cache \<Rightarrow> bytes" where
  "stream_reads z r [] s c = []"
| "stream_reads z r (k # ks) s c =
     (case packed_Read z r k s c of (data, status, s', c') \<Rightarrow> data @ stream_reads z r ks s' c')"

lemma stream_reads_exact:
  "stream_at z r data p s \<Longrightarrow> cache_sound z r c \<Longrightarrow> stream_reads z r ks s c = take (sum_list ks) (drop p data)"
proof (induction ks arbitrary: p s c)
  case Nil
  then show ?case by simp
next
  case (Cons k ks)
  obtain s' c' status where read: "packed_Read z r k s c = (take k (drop p data), status, s', c')"
    and s': "stream_at z r data (min (p + k) (length data)) s'" and c': "cache_sound z r c'"
    using packed_Read_exact [OF Cons.prems] by blast
  have "drop (min (p + k) (length data)) data = drop (p + k) data"
    by (simp add: min_def)
  then show ?case
    using read Cons.IH [OF s' c'] take_add [of k "sum_list ks" "drop p data"] by (simp add: add.commute)
qed

lemma OpenObject_at:
  assumes "served z r obj data" and "Resolver_OpenObject r ref = Inr s" and "lookup_ref r ref = Inr obj"
  shows "stream_at z r data 0 s"
proof -
  have "served_upto z r obj (length (Blocks obj)) data"
    using assms(1) by (simp add: served_upto_all)
  then have "0 < length data \<longrightarrow> Blocks obj \<noteq> []"
    by (auto simp: served_upto_def)
  moreover have "laid_out 0 (Blocks obj)" "lookupObject r (SHA256 ref) = Inr (Some obj)"
    using assms by (auto simp: served_def object_wf_def lookup_ref_def result_simps split: option.splits if_splits)
  ultimately show ?thesis
    using assms by (cases "Blocks obj") (auto simp: Resolver_OpenObject_def stream_at_def Let_def)
qed

section \<open>Properties of the resolver\<close>

lemma loaded_served:
  assumes "loadResolverResources name dir = Inr r" and "lookup_ref r ref = Inr obj"
    and "raw_total (Blocks obj) \<le> maxInt64" and "blocks_bytes z (packs r) (Blocks obj) = Some data"
  shows "served z r obj data" and "lookupObject r (PackedSHA256 obj) = Inr (Some obj)"
proof -
  have look: "lookupObject r (SHA256 ref) = Inr (Some obj)"
    using assms(2) by (auto simp: lookup_ref_def result_simps split: option.splits if_splits)
  then have "object_wf obj"
    using lookup_loaded(3) [OF assms(1)] assms(3) by blast
  then show "served z r obj data"
    using assms(3,4) by (simp add: served_def object_wf_def)
  show "lookupObject r (PackedSHA256 obj) = Inr (Some obj)"
    by (rule lookup_loaded(1) [OF assms(1) look])
qed

lemma Resolver_ReadAt_any:
  assumes "served z r obj data" and "lookupObject r (PackedSHA256 obj) = Inr (Some obj)" and "lookup_ref r ref = Inr obj"
    and "cache_sound z r c"
  shows "\<exists>c'. Resolver_ReadAt z r ref need (int p) c =
    (take need (drop p data), (if length data - p < need then AtEOF else AtNil), c') \<and> cache_sound z r c'"
proof (cases "need = 0")
  case True
  then show ?thesis
    using assms(4) by (simp add: Resolver_ReadAt_def)
next
  case False
  then show ?thesis
    using Resolver_ReadAt_serves [OF assms] by simp
qed

lemma Resolver_ReadAt_bytes:
  assumes "served z r obj data" and "lookupObject r (PackedSHA256 obj) = Inr (Some obj)" and "lookup_ref r ref = Inr obj"
    and "cache_sound z r c"
  shows "fst (Resolver_ReadAt z r ref need (int p) c) = take need (drop p data)"
  using Resolver_ReadAt_any [OF assms, of need p] by auto

text \<open>C8: A positioned read of a packed object whose blocks can be read returns exactly the bytes of the object at that
  position, as many as the buffer takes, with end-of-file exactly when there are fewer, whatever the cache holds;
  binary search always finds the block, and the cache stays sound for later reads.\<close>

theorem Resolver_ReadAt_exact:
  assumes "loadResolverResources name dir = Inr r" and "lookup_ref r ref = Inr obj"
    and "raw_total (Blocks obj) \<le> maxInt64" and "blocks_bytes z (packs r) (Blocks obj) = Some data"
    and "cache_sound z r c"
  shows "\<exists>c'. Resolver_ReadAt z r ref need (int p) c =
    (take need (drop p data), (if length data - p < need then AtEOF else AtNil), c') \<and> cache_sound z r c'"
  using Resolver_ReadAt_any [OF loaded_served [OF assms(1-4)] assms(2,5)] .

text \<open>C37: Reading a packed object as a stream, in pieces of any size, delivers the same bytes as one positioned read
  from its start.\<close>

theorem stream_reads_ReadAt:
  assumes "loadResolverResources name dir = Inr r" and "lookup_ref r ref = Inr obj"
    and "raw_total (Blocks obj) \<le> maxInt64" and "blocks_bytes z (packs r) (Blocks obj) = Some data"
    and "cache_sound z r c" and "cache_sound z r c2" and "Resolver_OpenObject r ref = Inr s"
  shows "stream_reads z r ks s c = fst (Resolver_ReadAt z r ref (sum_list ks) 0 c2)"
proof -
  have "stream_reads z r ks s c = take (sum_list ks) data"
    using stream_reads_exact [OF OpenObject_at [OF loaded_served(1) [OF assms(1-4)] assms(7,2)] assms(5)] by simp
  moreover have "fst (Resolver_ReadAt z r ref (sum_list ks) 0 c2) = take (sum_list ks) data"
    using Resolver_ReadAt_bytes [OF loaded_served [OF assms(1-4)] assms(2,6), of "sum_list ks" 0] by simp
  ultimately show ?thesis
    by simp
qed

text \<open>C11: Once the verification of a generation has succeeded, every object it holds is served: reads return slices
  of one sequence of bytes that has the length the reference asks for and the digest under which the object is stored.\<close>

theorem verifyGeneration_serves:
  assumes "loadResolverResources name dir = Inr r" and "verifyGeneration z name dir = Inr ()"
    and "lookup_ref r ref = Inr obj" and "raw_total (Blocks obj) \<le> maxInt64"
  shows "\<exists>data. sha256_hex data = PackedSHA256 obj \<and> int (length data) = RawBytes ref \<and>
    (\<forall>c need p. cache_sound z r c \<longrightarrow> fst (Resolver_ReadAt z r ref need (int p) c) = take need (drop p data))"
proof -
  have look: "lookupObject r (SHA256 ref) = Inr (Some obj)" and raw: "PackedRawBytes obj = RawBytes ref"
    using assms(3) by (auto simp: lookup_ref_def result_simps split: option.splits if_splits)
  obtain n where n: "int n < objectCount r" "objectAt r (int n) = Inr obj"
    using lookup_loaded(2) [OF assms(1) look] by blast
  have wf: "object_wf obj" "PackedRawBytes obj \<le> maxInt64"
    using lookup_loaded(3) [OF assms(1) look] assms(4) by (auto simp: object_wf_def)
  have "verify_objects z r 0 (nat (objectCount r)) (newBlockCache 0) = Inr ()"
    using assms(1,2) by (simp add: verifyGeneration_def)
  then have "\<exists>data. served z r obj data \<and> sha256_hex data = PackedSHA256 obj"
    using cache_sound_new objectAt_lookup [OF assms(1)] _ _ n(2) wf by (rule verify_objects_at) (use n(1) in simp_all)
  then obtain data where data: "served z r obj data" "sha256_hex data = PackedSHA256 obj"
    by blast
  have "fst (Resolver_ReadAt z r ref need (int p) c) = take need (drop p data)" if "cache_sound z r c" for c need p
    by (rule Resolver_ReadAt_bytes [OF data(1) lookup_loaded(1) [OF assms(1) look] assms(3) that])
  then show ?thesis
    using data served_length [OF data(1)] raw by auto
qed

text \<open>A generation with one object of three bytes in one raw block, for the witnesses.\<close>

definition example_data :: bytes where
  "example_data = [1, 2, 3]"

definition gen_object :: object_v3 where
  "gen_object = \<lparr>Digest = sha256 example_data, ObjectRawBytes = 3, FirstBlock = 0, BlockCount = 1\<rparr>"

definition gen_block :: block_v3 where
  "gen_block = \<lparr>PackIndex = 0, PackOffset3 = 0, StoredBytes3 = 3, RawOffset3 = 0, RawBytes3 = 3,
     Digest3 = sha256 example_data, Encoding3 = 1\<rparr>"

definition gen_index :: index_v3 where
  "gen_index = \<lparr>meta = \<lparr>V3Version = 3, V3Kind = ''pack-v3'', V3Generation = ''g'', V3CreatedAt = '''', V3BlockBytes = 8,
       V3ObjectCount = 1, V3BlockCount = 1, Packs = [''p'']\<rparr>,
     objects_file = encodeObjectV3 gen_object, blocks_file = encodeBlockV3 gen_block\<rparr>"

definition gen_dir :: generation_dir where
  "gen_dir = [''index.meta.json'' \<mapsto> writeIndexV3Meta (meta gen_index), ''objects.idx'' \<mapsto> objects_file gen_index,
     ''blocks.idx'' \<mapsto> blocks_file gen_index, ''p'' \<mapsto> example_data]"

definition gen_packed :: packed_object where
  "gen_packed = \<lparr>PackedSHA256 = sha256_hex example_data, PackedRawBytes = 3,
     Blocks = [\<lparr>Pack = ''p'', PackOffset = 0, BlockStoredBytes = 3, RawOffset = 0, BlockRawBytes = 3,
       BlockSHA256 = sha256_hex example_data, Encoding = ''raw''\<rparr>]\<rparr>"

definition gen_resolver :: resolver where
  "gen_resolver = \<lparr>r_index = zero_index, r_objects = (\<lambda>_. None), r_v3 = Some gen_index, r_generation = ''g'', objectCount = 1,
     packs = [''p'' \<mapsto> example_data]\<rparr>"

definition gen_ref :: object_ref where
  "gen_ref = \<lparr>SHA256 = sha256_hex example_data, RawBytes = 3, StoredBytes = 0\<rparr>"

lemma gen_holds: "index_holds gen_index [gen_object] [gen_block]"
  by (simp add: index_holds_def gen_index_def gen_object_def gen_block_def object_v3_ok_def block_v3_ok_def in_int64_def
      maxInt64_def)

lemma gen_open: "openIndexV3 ''g'' gen_dir = Inr gen_index"
proof (rule openIndexV3_written)
  show "meta_ok (meta gen_index)"
    by (simp add: gen_index_def meta_ok_def in_int64_def maxInt64_def utf8_short)
  have "path_base ''g'' = ''g''" "path_base ''p'' = ''p''"
    by code_simp+
  then show "validateIndexV3Meta (meta gen_index) ''g'' = Inr ()"
    by (simp add: gen_index_def validateIndexV3Meta_def safeGeneration_def)
  show "validateSizes gen_index = Inr ()"
    using gen_holds by (rule validateSizes_holds)
qed (simp_all add: gen_dir_def)

lemma gen_expand: "expandObject gen_index gen_object = Inr gen_packed"
proof -
  have block: "readBlockRecord gen_index 0 = Inr gen_block"
    using readBlockRecord_holds [OF gen_holds, of 0] by simp
  have "expandBlocks gen_index d 0 0 (Suc 0) 0 = Inr (Blocks gen_packed, 3)" for d
    using block
    by (simp add: expandBlock_def gen_block_def gen_packed_def wrap64_def EncodingRaw_def sha256_hex_def)
      (simp add: gen_index_def)
  then show ?thesis
    by (simp add: expandObject_def gen_object_def gen_packed_def sha256_hex_def) (simp add: gen_index_def)
qed

lemma gen_objectAt: "readObjectRecord gen_index 0 = Inr gen_object" "objectAt_v3 gen_index 0 = Inr gen_packed"
  using readObjectRecord_holds [OF gen_holds, of 0] gen_expand by (simp_all add: objectAt_v3_def)

lemma gen_loaded: "loadResolverResources ''g'' gen_dir = Inr gen_resolver"
proof -
  have "open_index ''g'' gen_dir = Inr (zero_index, Some gen_index)"
    by (simp add: open_index_def gen_open) (simp add: gen_dir_def)
  moreover have "path_base ''p'' = ''p''"
    by code_simp
  then have "open_packs gen_dir [''p''] (\<lambda>_. None) = Inr [''p'' \<mapsto> example_data]"
    by (simp add: generation_file_def gen_dir_def)
  moreover have "Packs (meta gen_index) = [''p'']" "V3Generation (meta gen_index) = ''g''" "V3ObjectCount (meta gen_index) = 1"
    by (simp_all add: gen_index_def)
  moreover have "validateV3Records gen_index (resolverPackSizes [''p'' \<mapsto> example_data]) 0 (Suc 0) (replicate 32 0) = Inr ()"
    using gen_objectAt by (simp add: gen_packed_def resolverPackSizes_def example_data_def)
  ultimately show ?thesis
    by (simp add: loadResolverResources_def gen_resolver_def zero_index_def index_objects_def validateResolverBounds_def Let_def)
qed

lemma gen_lookup: "lookup_ref gen_resolver gen_ref = Inr gen_packed"
proof -
  have "objectAt gen_resolver 0 = Inr gen_packed"
    using gen_objectAt by (simp add: objectAt_def gen_resolver_def)
  then have "lookupObject gen_resolver (PackedSHA256 gen_packed) = Inr (Some gen_packed)"
    by (rule objectAt_lookup [OF gen_loaded])
  then show ?thesis
    by (simp add: lookup_ref_def gen_ref_def gen_packed_def)
qed

lemma gen_bytes: "blocks_bytes z (packs gen_resolver) (Blocks gen_packed) = Some example_data"
  by (simp add: gen_packed_def gen_resolver_def decodeBlock_def file_ReadAt_def EncodingRaw_def example_data_def slice_def)

lemma gen_total: "raw_total (Blocks gen_packed) \<le> maxInt64"
  by (simp add: gen_packed_def maxInt64_def)

lemma gen_verified: "verifyGeneration z ''g'' gen_dir = Inr ()"
proof -
  note served = loaded_served [OF gen_loaded gen_lookup gen_total gen_bytes [of z]]
  have "served_upto z gen_resolver gen_packed (length (Blocks gen_packed)) example_data"
    using served(1) by (simp add: served_upto_all)
  then obtain c where "verify_read z gen_resolver gen_packed 0 (newBlockCache 0) = (Inr example_data, c)"
    using verify_read_upto [OF _ served(2) cache_sound_new, of z _ example_data 0 0] by fastforce
  moreover have "objectAt gen_resolver 0 = Inr gen_packed" "objectCount gen_resolver = 1"
    using gen_objectAt by (simp_all add: objectAt_def gen_resolver_def)
  moreover have "PackedRawBytes gen_packed = 3" "PackedSHA256 gen_packed = sha256_hex example_data" "length example_data = 3"
    by (simp_all add: gen_packed_def example_data_def)
  ultimately show ?thesis
    by (simp add: verifyGeneration_def gen_loaded)
qed

theorem Resolver_ReadAt_exact_witness:
  "\<exists>c'. Resolver_ReadAt plain_zstd gen_resolver gen_ref 4 1 (newBlockCache 0) = ([2, 3], AtEOF, c')"
  using Resolver_ReadAt_exact [OF gen_loaded gen_lookup gen_total gen_bytes [of plain_zstd] cache_sound_new, of 4 1 0]
  by (auto simp: example_data_def)

theorem stream_reads_ReadAt_witness:
  "\<exists>s. Resolver_OpenObject gen_resolver gen_ref = Inr s \<and>
     stream_reads plain_zstd gen_resolver [1, 1] s (newBlockCache 0) = fst (Resolver_ReadAt plain_zstd gen_resolver gen_ref 2 0 (newBlockCache 9))"
proof -
  obtain s where s: "Resolver_OpenObject gen_resolver gen_ref = Inr s"
    by (simp add: Resolver_OpenObject_def gen_lookup)
  then show ?thesis
    using stream_reads_ReadAt [OF gen_loaded gen_lookup gen_total gen_bytes [of plain_zstd] cache_sound_new
        cache_sound_new s, of "[1, 1]" 0 9]
    by (simp add: numeral_2_eq_2)
qed

theorem verifyGeneration_serves_witness:
  "\<exists>data. sha256_hex data = sha256_hex [1, 2, 3] \<and> int (length data) = 3 \<and>
     fst (Resolver_ReadAt plain_zstd gen_resolver gen_ref 2 1 (newBlockCache 0)) = take 2 (drop 1 data)"
proof -
  obtain data where data: "sha256_hex data = PackedSHA256 gen_packed" "int (length data) = RawBytes gen_ref"
    and read: "\<forall>c need p. cache_sound plain_zstd gen_resolver c \<longrightarrow>
       fst (Resolver_ReadAt plain_zstd gen_resolver gen_ref need (int p) c) = take need (drop p data)"
    using verifyGeneration_serves [OF gen_loaded gen_verified gen_lookup gen_total] by blast
  have "fst (Resolver_ReadAt plain_zstd gen_resolver gen_ref 2 (int 1) (newBlockCache 0)) = take 2 (drop 1 data)"
    using read cache_sound_new by blast
  then show ?thesis
    using data by (intro exI [of _ data]) (simp add: gen_packed_def gen_ref_def example_data_def)
qed

end
