(* ===== verification/View.thy ===== *)
theory View
  imports Pack_Resolver
begin

text \<open>
  The read-only view of a folded session, \<open>src/internal/vfs/view.go\<close>: the bytes of the manifest's objects
  one after the other, read at any position through an object reader (\<open>resolver.go\<close>). What a view needs
  of its reader is the interface \<open>object_reader_at\<close>; the resolver of a pack generation provides it.
\<close>

section \<open>The view\<close>

record view =
  view_manifest :: manifest
  ends :: "int64 list"

datatype new_view_error =
    UnsupportedView
  | UnsupportedViewPart nat
  | InvalidViewRef nat
  | ViewOverflow
  | ViewTotal int64 int64

datatype 'e view_error =
    NegativeViewOffset
  | NoPartForOffset int64
  | InvalidByteCount int nat
  | PartReadFailed nat 'e
  | PartReadEOF nat
  | PartUnexpectedEOF nat

text \<open>The loop of \<open>NewView\<close>: the offset at which each part ends.\<close>

fun part_ends :: "int \<Rightarrow> nat \<Rightarrow> int64 \<Rightarrow> part list \<Rightarrow> new_view_error + (int64 list \<times> int64)" where
  "part_ends version n sofar [] = Inr ([], sofar)"
| "part_ends version n sofar (p # ps) =
     (if \<not> SupportedPart version (PartKind p) then Inl (UnsupportedViewPart n)
      else if length (SHA256 (Object p)) \<noteq> 64 \<or> RawBytes (Object p) \<le> 0 then Inl (InvalidViewRef n)
      else if RawBytes (Object p) > maxInt64 - sofar then Inl ViewOverflow
      else rbind (part_ends version (n + 1) (sofar + RawBytes (Object p)) ps) (\<lambda>(es, t).
        Inr ((sofar + RawBytes (Object p)) # es, t)))"

definition NewView :: "manifest \<Rightarrow> new_view_error + view" where
  "NewView m =
     (if \<not> SupportedManifest (Version m) (Kind m) then Inl UnsupportedView
      else rbind (part_ends (Version m) 0 0 (Parts m)) (\<lambda>(es, all).
        if all \<noteq> Bytes (Source m) then Inl (ViewTotal all (Bytes (Source m)))
        else Inr \<lparr>view_manifest = m, ends = es\<rparr>))"

definition ViewSize :: "view \<Rightarrow> int64" where
  "ViewSize v = Bytes (Source (view_manifest v))"

definition sameObjectBytes :: "object_ref \<Rightarrow> object_ref \<Rightarrow> bool" where
  "sameObjectBytes a b \<longleftrightarrow> SHA256 a = SHA256 b \<and> RawBytes a = RawBytes b"

text \<open>
  An object reader: for an object, a number of bytes and an offset it returns the count it reports, the bytes it
  has put into the buffer and its error; it may keep a state.
\<close>

type_synonym ('s, 'e) at_reader = "object_ref \<Rightarrow> nat \<Rightarrow> int64 \<Rightarrow> 's \<Rightarrow> (int \<times> bytes) \<times> 'e at_status \<times> 's"

text \<open>
  The inner loop: parts that repeat the object just read are copied from the destination. \<open>left\<close> bytes are wanted, the
  result is what is copied and the number of parts it covers.
\<close>

fun repeat_parts :: "object_ref \<Rightarrow> bytes \<Rightarrow> nat \<Rightarrow> part list \<Rightarrow> bytes \<times> nat" where
  "repeat_parts ref source left [] = ([], 0)"
| "repeat_parts ref source left (p # ps) =
     (if left = 0 \<or> \<not> sameObjectBytes ref (Object p) then ([], 0)
      else
        (let repeated = (if int left > RawBytes (Object p) then nat (RawBytes (Object p)) else left)
         in if int repeated < RawBytes (Object p) then (take repeated source, 1)
            else case repeat_parts ref source (left - repeated) ps of
              (copied, n) \<Rightarrow> (take repeated source @ copied, n + 1)))"

text \<open>
  The loop of \<open>ReadAt\<close>, with \<open>need\<close> bytes of the destination left to fill. The totals that \<open>NewView\<close> has checked keep
  the arithmetic within \<open>int64\<close>.
\<close>

function view_loop :: "('s, 'e) at_reader \<Rightarrow> view \<Rightarrow> nat \<Rightarrow> int64 \<Rightarrow> nat \<Rightarrow> 's \<Rightarrow> bytes \<times> 'e view_error at_status \<times> 's" where
  "view_loop read v need offset n s =
     (if \<not> (0 < need \<and> offset < ViewSize v) then ([], (if 0 < need then AtEOF else AtNil), s)
      else if n \<ge> length (ends v) then ([], AtErr (NoPartForOffset offset), s)
      else
        (let partStart = (if n > 0 then ends v ! (n - 1) else 0);
             part = Parts (view_manifest v) ! n;
             inside = offset - partStart;
             remaining = RawBytes (Object part) - inside;
             k = (if int need > remaining then nat remaining else need)
         in case read (Object part) k inside s of
              ((count, data), status, s') \<Rightarrow>
                if count < 0 \<or> count > int k then ([], AtErr (InvalidByteCount count k), s')
                else if count \<noteq> int k then
                  (take (nat count) data,
                   AtErr (case status of AtNil \<Rightarrow> PartUnexpectedEOF n | AtEOF \<Rightarrow> PartReadEOF n | AtErr e \<Rightarrow> PartReadFailed n e), s')
                else (case status of
                    AtErr e \<Rightarrow> (take k data, AtErr (PartReadFailed n e), s')
                  | _ \<Rightarrow>
                      (case (if inside = 0 \<and> int k = RawBytes (Object part)
                             then repeat_parts (Object part) (take k data) (need - k) (drop (n + 1) (Parts (view_manifest v)))
                             else ([], 0)) of
                         (copied, extra) \<Rightarrow>
                           (case view_loop read v (need - k - length copied) (offset + int k + int (length copied)) (n + 1 + extra) s' of
                              (following, status', s'') \<Rightarrow> (take k data @ copied @ following, status', s''))))))"
  by pat_completeness auto
termination
  by (relation "measure (\<lambda>(read, v, need, offset, n, s). length (ends v) - n)") auto

declare view_loop.simps [simp del]

definition View_ReadAt :: "('s, 'e) at_reader \<Rightarrow> view \<Rightarrow> nat \<Rightarrow> int64 \<Rightarrow> 's \<Rightarrow> bytes \<times> 'e view_error at_status \<times> 's" where
  "View_ReadAt read v need offset s =
     (if offset < 0 then ([], AtErr NegativeViewOffset, s)
      else if need = 0 then ([], AtNil, s)
      else if offset \<ge> ViewSize v then ([], AtEOF, s)
      else
        (let n = sort_Search (length (ends v)) (\<lambda>k. ends v ! k > offset)
         in if n = length (ends v) then ([], AtErr (NoPartForOffset offset), s)
            else view_loop read v need offset n s))"

section \<open>What a view needs of its reader\<close>

text \<open>The bytes a list of parts stands for.\<close>

primrec parts_content :: "(object_ref \<Rightarrow> bytes option) \<Rightarrow> part list \<Rightarrow> bytes option" where
  "parts_content bytes_of [] = Some []"
| "parts_content bytes_of (p # ps) =
     (case bytes_of (Object p) of
        None \<Rightarrow> None
      | Some d \<Rightarrow> map_option (\<lambda>following. d @ following) (parts_content bytes_of ps))"

locale object_reader_at =
  fixes read :: "('s, 'e) at_reader" and ready :: "'s \<Rightarrow> bool" and bytes_of :: "object_ref \<Rightarrow> bytes option"
  assumes bytes_of_length: "bytes_of ref = Some d \<Longrightarrow> int (length d) = RawBytes ref"
    and bytes_of_same: "sameObjectBytes a b \<Longrightarrow> bytes_of a = bytes_of b"
    and read_bytes_of: "ready s \<Longrightarrow> bytes_of ref = Some d \<Longrightarrow> 0 < k \<Longrightarrow> i + k \<le> length d \<Longrightarrow>
      \<exists>status s'. read ref k (int i) s = ((int k, take k (drop i d)), status, s') \<and> (status = AtNil \<or> status = AtEOF) \<and> ready s'"

section \<open>The parts of a view\<close>

definition raw_sum :: "part list \<Rightarrow> int" where
  "raw_sum ps = sum_list (map (\<lambda>p. RawBytes (Object p)) ps)"

lemma raw_sum_simps [simp]:
  "raw_sum [] = 0" "raw_sum (p # ps) = RawBytes (Object p) + raw_sum ps" "raw_sum (ps @ qs) = raw_sum ps + raw_sum qs"
  by (simp_all add: raw_sum_def)

lemma part_ends_exact:
  "part_ends version n t ps = Inr (es, all) \<Longrightarrow>
   length es = length ps \<and> (\<forall>k<length ps. es ! k = t + raw_sum (take (Suc k) ps)) \<and> all = t + raw_sum ps \<and>
   (\<forall>p\<in>set ps. 0 < RawBytes (Object p))"
proof (induction version n t ps arbitrary: es all rule: part_ends.induct)
  case (1 version n t)
  then show ?case by simp
next
  case (2 version n t p ps)
  from "2.prems" obtain es' where es': "part_ends version (n + 1) (t + RawBytes (Object p)) ps = Inr (es', all)"
    "es = (t + RawBytes (Object p)) # es'" "0 < RawBytes (Object p)"
    by (auto simp: result_simps split: if_splits)
  then have "length es' = length ps" "\<forall>k<length ps. es' ! k = t + RawBytes (Object p) + raw_sum (take (Suc k) ps)"
    "all = t + RawBytes (Object p) + raw_sum ps" "\<forall>p\<in>set ps. 0 < RawBytes (Object p)"
    using "2.IH" "2.prems" by (auto split: if_splits)
  then show ?case
    using es' by (auto simp: less_Suc_eq_0_disj)
qed

lemma view_loop_step:
  assumes "0 < need" and "offset < ViewSize v" and "n < length (ends v)"
    and "inside = offset - (if n > 0 then ends v ! (n - 1) else 0)" and "part = Parts (view_manifest v) ! n"
    and "k = (if int need > RawBytes (Object part) - inside then nat (RawBytes (Object part) - inside) else need)"
    and "read (Object part) k inside s = ((int k, data), status, s')" and "status = AtNil \<or> status = AtEOF"
    and "cp = (if inside = 0 \<and> int k = RawBytes (Object part)
      then repeat_parts (Object part) (take k data) (need - k) (drop (n + 1) (Parts (view_manifest v))) else ([], 0))"
  shows "view_loop read v need offset n s =
    (case view_loop read v (need - k - length (fst cp)) (offset + int k + int (length (fst cp))) (n + 1 + snd cp) s' of
       (following, status, s'') \<Rightarrow> (take k data @ fst cp @ following, status, s''))"
proof -
  have c: "0 < need \<and> offset < ViewSize v" "\<not> n \<ge> length (ends v)" "\<not> (int k < 0 \<or> int k > int k)"
    using assms(1-3) by auto
  show ?thesis
    apply (subst view_loop.simps)
    apply (unfold Let_def)
    apply (fold assms(5))
    apply (fold assms(4))
    apply (fold assms(6))
    apply (unfold assms(7) prod.case)
    apply (fold assms(9))
    using assms(8) by (elim disjE) (simp_all only: c simp_thms if_False at_status.case case_prod_beta)
qed

text \<open>What \<open>NewView\<close> establishes.\<close>

definition view_ok :: "view \<Rightarrow> bool" where
  "view_ok v \<longleftrightarrow> length (ends v) = length (Parts (view_manifest v)) \<and>
     (\<forall>k<length (ends v). ends v ! k = raw_sum (take (Suc k) (Parts (view_manifest v)))) \<and>
     ViewSize v = raw_sum (Parts (view_manifest v)) \<and> (\<forall>p\<in>set (Parts (view_manifest v)). 0 < RawBytes (Object p))"

lemma NewView_ok: "NewView m = Inr v \<Longrightarrow> view_ok v \<and> view_manifest v = m"
  using part_ends_exact [of "Version m" 0 0 "Parts m"]
  by (fastforce simp: NewView_def view_ok_def ViewSize_def result_simps split: if_splits)

lemma raw_sum_mono: "(\<forall>p\<in>set ps. 0 < RawBytes (Object p)) \<Longrightarrow> i \<le> j \<Longrightarrow> raw_sum (take i ps) \<le> raw_sum (take j ps)"
proof -
  assume pos: "\<forall>p\<in>set ps. 0 < RawBytes (Object p)" and "i \<le> j"
  have "take j ps = take i ps @ take (j - i) (drop i ps)"
    using \<open>i \<le> j\<close> by (metis le_add_diff_inverse take_add)
  moreover have "0 \<le> raw_sum qs" if "set qs \<subseteq> set ps" for qs
    using that pos by (induction qs) (auto simp: less_imp_le)
  then have "0 \<le> raw_sum (take (j - i) (drop i ps))"
    by (meson in_set_dropD in_set_takeD subsetI)
  ultimately show ?thesis
    by simp
qed

text \<open>The binary search finds the part that holds the offset.\<close>

lemma search_part:
  assumes ok: "view_ok v" and p: "0 \<le> p" "p < ViewSize v"
    and n: "n = sort_Search (length (ends v)) (\<lambda>k. ends v ! k > p)"
  shows "n < length (ends v) \<and> raw_sum (take n (Parts (view_manifest v))) \<le> p \<and> p < ends v ! n"
proof -
  let ?ps = "Parts (view_manifest v)" and ?N = "length (ends v)"
  have ends: "ends v ! k = raw_sum (take (Suc k) ?ps)" if "k < ?N" for k
    using ok that by (simp add: view_ok_def)
  have N: "?N = length ?ps" and sum: "ViewSize v = raw_sum ?ps" and pos: "\<forall>p\<in>set ?ps. 0 < RawBytes (Object p)"
    using ok by (simp_all add: view_ok_def)
  have "monotone_upto ?N (\<lambda>k. ends v ! k > p)"
    unfolding monotone_upto_def
  proof (intro allI impI)
    fix a b
    assume "a \<le> b" "b < ?N" "p < ends v ! a"
    then show "p < ends v ! b"
      using ends [of a] ends [of b] raw_sum_mono [OF pos, of "Suc a" "Suc b"] by simp
  qed
  then have bd: "boundary ?N (\<lambda>k. ends v ! k > p) n"
    unfolding n by (rule sort_Search_boundary)
  have "?ps \<noteq> []"
    using p sum by auto
  then have "p < ends v ! (?N - 1)"
    using ends [of "?N - 1"] p N sum by simp
  then have "n \<noteq> ?N"
    using bd \<open>?ps \<noteq> []\<close> N unfolding boundary_def by (metis diff_less length_greater_0_conv zero_less_one)
  then have nN: "n < ?N"
    using bd by (simp add: boundary_def)
  then have "p < ends v ! n"
    using bd unfolding boundary_def by blast
  moreover have "raw_sum (take n ?ps) \<le> p"
  proof (cases n)
    case 0
    then show ?thesis
      using p by simp
  next
    case (Suc m)
    then have "\<not> ends v ! m > p"
      using bd unfolding boundary_def by blast
    then show ?thesis
      using ends [of m] nN Suc by simp
  qed
  ultimately show ?thesis
    using nN by blast
qed

lemma parts_content_append:
  "parts_content bytes_of (xs @ ys) = Some data \<longleftrightarrow>
   (\<exists>a b. parts_content bytes_of xs = Some a \<and> parts_content bytes_of ys = Some b \<and> data = a @ b)"
  by (induction xs arbitrary: data) (auto split: option.splits)

section \<open>Reads of a view are exact\<close>

context object_reader_at
begin

lemma parts_content_length: "parts_content bytes_of ps = Some data \<Longrightarrow> int (length data) = raw_sum ps"
  by (induction ps arbitrary: data) (auto split: option.splits dest: bytes_of_length)

text \<open>The data of part \<open>n\<close> within the whole.\<close>

lemma part_data:
  assumes "parts_content bytes_of ps = Some data" and "n < length ps"
  obtains a d b where "parts_content bytes_of (take n ps) = Some a" and "bytes_of (Object (ps ! n)) = Some d"
    and "parts_content bytes_of (drop (n + 1) ps) = Some b" and "data = a @ d @ b"
    and "int (length a) = raw_sum (take n ps)" and "int (length d) = RawBytes (Object (ps ! n))"
proof -
  have split: "ps = take n ps @ ps ! n # drop (n + 1) ps"
    using assms(2) by (simp add: id_take_nth_drop)
  obtain a e where a: "parts_content bytes_of (take n ps) = Some a" and e: "parts_content bytes_of (ps ! n # drop (n + 1) ps) = Some e"
    and "data = a @ e"
    using assms(1) split parts_content_append [of bytes_of "take n ps" "ps ! n # drop (n + 1) ps" data] by auto
  moreover obtain d b where d: "bytes_of (Object (ps ! n)) = Some d" "parts_content bytes_of (drop (n + 1) ps) = Some b" "e = d @ b"
    using e by (auto split: option.splits)
  ultimately show thesis
    using that parts_content_length [OF a] bytes_of_length [OF d(1)] by simp
qed

text \<open>Copying instead of reading: the bytes are those the repeated parts stand for.\<close>

lemma repeat_parts_exact:
  assumes "bytes_of ref = Some d" and "parts_content bytes_of ps = Some data"
  shows "case repeat_parts ref d left ps of (copied, m) \<Rightarrow>
    copied = take (length copied) data \<and> length copied \<le> left \<and> m \<le> length ps \<and>
    (length copied < left \<longrightarrow> parts_content bytes_of (take m ps) = Some copied)"
  using assms
proof (induction ref d left ps arbitrary: data rule: repeat_parts.induct)
  case (1 ref source left)
  then show ?case by simp
next
  case (2 ref source left p ps)
  show ?case
  proof (cases "left = 0 \<or> \<not> sameObjectBytes ref (Object p)")
    case True
    then show ?thesis by auto
  next
    case False
    then have same: "bytes_of (Object p) = Some source" and len: "int (length source) = RawBytes (Object p)"
      using bytes_of_same [of ref "Object p"] "2.prems"(1) bytes_of_length by auto
    obtain b where b: "parts_content bytes_of ps = Some b" "data = source @ b"
      using "2.prems"(2) same by auto
    define k where "k = (if int left > RawBytes (Object p) then nat (RawBytes (Object p)) else left)"
    show ?thesis
    proof (cases "int k < RawBytes (Object p)")
      case True
      then have "k = left" "k \<le> length source"
        using len by (auto simp: k_def split: if_splits)
      then show ?thesis
        using False True b by (simp add: Let_def flip: k_def)
    next
      case nolonger: False
      then have k: "k = length source" "k \<le> left"
        using len by (auto simp: k_def split: if_splits)
      obtain copied m where cm: "repeat_parts ref source (left - k) ps = (copied, m)"
        by fastforce
      then have "copied = take (length copied) b" "length copied \<le> left - k" "m \<le> length ps"
        "length copied < left - k \<longrightarrow> parts_content bytes_of (take m ps) = Some copied"
        using "2.IH" [OF False k_def nolonger "2.prems"(1) b(1)] by simp_all
      then show ?thesis
        using False nolonger cm k b same by (auto simp: Let_def simp flip: k_def)
    qed
  qed
qed

lemma take_three: "k + c \<le> need \<Longrightarrow> take k D @ take c (drop k D) @ take (need - k - c) (drop (k + c) D) = take need D"
proof -
  assume "k + c \<le> need"
  then have "take need D = take (k + (c + (need - k - c))) D"
    by simp
  then show ?thesis
    by (simp only: take_add drop_drop add.commute [of k c])
qed

text \<open>
  One round: the bytes of a part that are asked for are read, and the parts after it that repeat its object are
  copied; then the position is the end of what is asked for or the start of a part.
\<close>

lemma view_round:
  assumes ok: "view_ok v" and data: "parts_content bytes_of (Parts (view_manifest v)) = Some data" and s: "ready s"
    and need: "0 < need" "p < length data"
    and at: "n < length (ends v)" "raw_sum (take n (Parts (view_manifest v))) \<le> int p" "int p < ends v ! n"
  obtains k c n' s' where "0 < k" and "k + c \<le> need" and "p + k + c \<le> length data" and "ready s'"
    and "0 < need - k - c \<longrightarrow> raw_sum (take n' (Parts (view_manifest v))) = int (p + k + c)"
    and "view_loop read v need (int p) n s =
      (case view_loop read v (need - k - c) (int (p + k + c)) n' s' of
         (following, status, s'') \<Rightarrow> (take k (drop p data) @ take c (drop k (drop p data)) @ following, status, s''))"
proof -
  let ?ps = "Parts (view_manifest v)"
  have N: "length (ends v) = length ?ps" and size: "ViewSize v = int (length data)"
    using ok parts_content_length [OF data] by (simp_all add: view_ok_def)
  have n: "n < length ?ps"
    using at(1) N by simp
  obtain a d b where a: "parts_content bytes_of (take n ?ps) = Some a" and d: "bytes_of (Object (?ps ! n)) = Some d"
    and b: "parts_content bytes_of (drop (n + 1) ?ps) = Some b" and abd: "data = a @ d @ b"
    and la: "int (length a) = raw_sum (take n ?ps)" and ld: "int (length d) = RawBytes (Object (?ps ! n))"
    using part_data [OF data n] by blast
  have "ends v ! n = int (length a) + int (length d)"
    using ok at(1) la ld n by (simp add: view_ok_def take_Suc_conv_app_nth)
  then obtain i where i: "p = length a + i" "i < length d"
    using at(2,3) la by (metis le_Suc_ex nat_add_left_cancel_less of_nat_add of_nat_le_iff of_nat_less_iff)
  define k where "k = min need (length d - i)"
  have k: "0 < k" "k \<le> need" "i + k \<le> length d"
    using need(1) i(2) by (auto simp: k_def)
  obtain status s' where rd: "read (Object (?ps ! n)) k (int i) s = ((int k, take k (drop i d)), status, s')"
    and st: "status = AtNil \<or> status = AtEOF" and s': "ready s'"
    using read_bytes_of [OF s d k(1,3)] by blast
  define cp where "cp = (if int i = 0 \<and> int k = RawBytes (Object (?ps ! n))
    then repeat_parts (Object (?ps ! n)) (take k (take k (drop i d))) (need - k) (drop (n + 1) ?ps) else ([], 0))"
  define copied m where "copied = fst cp" and "m = snd cp"
  have cm: "copied = take (length copied) b" "length copied \<le> need - k" "m \<le> length (drop (n + 1) ?ps)"
    "length copied < need - k \<longrightarrow> k = length d - i \<longrightarrow> parts_content bytes_of (take m (drop (n + 1) ?ps)) = Some copied"
    using repeat_parts_exact [OF d b, of "need - k"] ld by (auto simp: copied_def m_def cp_def split: prod.splits)
  have start: "int i = int p - (if n > 0 then ends v ! (n - 1) else 0)"
    using ok at(1) la i(1) by (auto simp: view_ok_def)
  have amount: "k = (if int need > RawBytes (Object (?ps ! n)) - int i then nat (RawBytes (Object (?ps ! n)) - int i) else need)"
    using i ld by (auto simp: k_def)
  have "view_loop read v need (int p) n s =
      (case view_loop read v (need - k - length copied) (int p + int k + int (length copied)) (n + 1 + m) s' of
         (following, status, s'') \<Rightarrow> (take k (take k (drop i d)) @ copied @ following, status, s''))"
    using view_loop_step [where read = read, OF need(1) _ at(1) start refl amount rd st cp_def] need(2) size
    by (simp add: copied_def m_def)
  moreover have first: "take k (drop i d) = take k (drop p data)"
    using i k by (simp add: abd)
  moreover have copy: "copied = take (length copied) (drop k (drop p data))" if "copied \<noteq> []"
  proof -
    have "i = 0" "k = length d"
      using that ld by (auto simp: copied_def cp_def split: if_splits)
    then show ?thesis
      using cm(1) i by (simp add: abd)
  qed
  moreover have "raw_sum (take (n + 1 + m) ?ps) = int (p + k + length copied)" if "0 < need - k - length copied"
  proof -
    have kd: "k = length d - i"
      using that by (auto simp: k_def)
    then have "raw_sum (take m (drop (n + 1) ?ps)) = int (length copied)"
      using cm(4) that parts_content_length by fastforce
    moreover have "raw_sum (take (n + 1) ?ps) = int (length a) + int (length d)"
      using n la ld by (simp add: take_Suc_conv_app_nth)
    ultimately show ?thesis
      using kd i take_add [of "n + 1" m ?ps] by simp
  qed
  moreover have "p + k + length copied \<le> length data"
  proof (cases "copied = []")
    case True
    then show ?thesis
      using i k by (simp add: abd)
  next
    case False
    then have "length copied \<le> length data - (p + k)"
      using copy by (metis length_drop length_take min.cobounded1 diff_diff_left)
    moreover have "p + k \<le> length data"
      using i k by (simp add: abd)
    ultimately show ?thesis
      by simp
  qed
  moreover have "copied = take (length copied) (drop k (drop p data))"
    using copy by (cases "copied = []") simp_all
  ultimately show thesis
    using that [of k "length copied" s' "n + 1 + m"] k cm(2) s' by simp
qed

lemma view_loop_exact:
  assumes ok: "view_ok v" and data: "parts_content bytes_of (Parts (view_manifest v)) = Some data"
  shows "ready s \<Longrightarrow> p \<le> length data \<Longrightarrow>
    (0 < need \<and> p < length data \<longrightarrow>
       n < length (ends v) \<and> raw_sum (take n (Parts (view_manifest v))) \<le> int p \<and> int p < ends v ! n) \<Longrightarrow>
    \<exists>s'. view_loop read v need (int p) n s =
      (take need (drop p data), (if length data - p < need then AtEOF else AtNil), s') \<and> ready s'"
proof (induction need arbitrary: p n s rule: less_induct)
  case (less need)
  let ?ps = "Parts (view_manifest v)"
  have size: "ViewSize v = int (length data)" "length (ends v) = length ?ps"
    and pos: "\<forall>q\<in>set ?ps. 0 < RawBytes (Object q)"
    using ok parts_content_length [OF data] by (simp_all add: view_ok_def)
  show ?case
  proof (cases "0 < need \<and> p < length data")
    case False
    then show ?thesis
      using less.prems size by (subst view_loop.simps) auto
  next
    case True
    then have at: "n < length (ends v)" "raw_sum (take n ?ps) \<le> int p" "int p < ends v ! n"
      using less.prems(3) by auto
    obtain k c n' s' where k: "0 < k" "k + c \<le> need" "p + k + c \<le> length data" "ready s'"
      and n': "0 < need - k - c \<longrightarrow> raw_sum (take n' ?ps) = int (p + k + c)"
      and step: "view_loop read v need (int p) n s =
        (case view_loop read v (need - k - c) (int (p + k + c)) n' s' of
         (following, status, s'') \<Rightarrow> (take k (drop p data) @ take c (drop k (drop p data)) @ following, status, s''))"
      using view_round [OF ok data less.prems(1) _ _ at] True by metis
    have next_at: "n' < length (ends v) \<and> raw_sum (take n' ?ps) \<le> int (p + k + c) \<and> int (p + k + c) < ends v ! n'"
      if "0 < need - k - c" "p + k + c < length data"
    proof -
      have "raw_sum ?ps = int (length data)"
        using parts_content_length [OF data] by simp
      then have less: "n' < length ?ps"
        using n' that by (cases "n' < length ?ps") auto
      then have "ends v ! n' = raw_sum (take n' ?ps) + RawBytes (Object (?ps ! n'))"
        using ok by (simp add: view_ok_def take_Suc_conv_app_nth)
      moreover have "0 < RawBytes (Object (?ps ! n'))"
        using pos less by simp
      ultimately show ?thesis
        using n' that less size(2) by simp
    qed
    obtain s'' where "view_loop read v (need - k - c) (int (p + k + c)) n' s' =
        (take (need - k - c) (drop (p + k + c) data), (if length data - (p + k + c) < need - k - c then AtEOF else AtNil), s'')"
      "ready s''"
      using less.IH [OF _ k(4,3), of "need - k - c" n'] next_at k True by auto
    moreover have "take k (drop p data) @ take c (drop k (drop p data)) @ take (need - k - c) (drop (p + k + c) data) = take need (drop p data)"
      using take_three [OF k(2), of "drop p data"] by (simp add: ac_simps)
    moreover have "length data - (p + k + c) < need - k - c \<longleftrightarrow> length data - p < need"
      using k by auto
    ultimately show ?thesis
      using step by simp
  qed
qed

lemma View_ReadAt_content:
  assumes "NewView m = Inr v" and "parts_content bytes_of (Parts m) = Some data" and "ready s"
  shows "\<exists>s'. View_ReadAt read v need (int p) s =
    (take need (drop p data), (if length data - p < need then AtEOF else AtNil), s') \<and> ready s'"
proof -
  have ok: "view_ok v" and m: "view_manifest v = m"
    using NewView_ok [OF assms(1)] by simp_all
  have size: "ViewSize v = int (length data)" "length (ends v) = length (Parts m)"
    using ok parts_content_length [OF assms(2)] m by (simp_all add: view_ok_def)
  show ?thesis
  proof (cases "0 < need \<and> p < length data")
    case False
    then show ?thesis
      using assms(3) size by (auto simp: View_ReadAt_def)
  next
    case True
    define n where "n = sort_Search (length (ends v)) (\<lambda>k. ends v ! k > int p)"
    have n: "n < length (ends v) \<and> raw_sum (take n (Parts m)) \<le> int p \<and> int p < ends v ! n"
      using search_part [OF ok _ _ n_def] True size m by simp
    then have "View_ReadAt read v need (int p) s = view_loop read v need (int p) n s"
      using True size(1) by (simp add: View_ReadAt_def Let_def flip: n_def)
    then show ?thesis
      using view_loop_exact [OF ok _ assms(3), of data p need n] assms(2) n True m by simp
  qed
qed

end

section \<open>The pack resolver as the reader of a view\<close>

definition packed_reader :: "zstd \<Rightarrow> resolver \<Rightarrow> (block_cache, pack_error) at_reader" where
  "packed_reader z r ref k offset c =
     (case Resolver_ReadAt z r ref k offset c of (data, status, c') \<Rightarrow> ((int (length data), data), status, c'))"

text \<open>The bytes a generation holds for a reference, where it can serve them.\<close>

definition packed_content :: "zstd \<Rightarrow> resolver \<Rightarrow> object_ref \<Rightarrow> bytes option" where
  "packed_content z r ref =
     (case lookup_ref r ref of
        Inl _ \<Rightarrow> None
      | Inr obj \<Rightarrow>
          if object_wf obj \<and> PackedRawBytes obj \<le> maxInt64 \<and> lookupObject r (PackedSHA256 obj) = Inr (Some obj)
          then blocks_bytes z (packs r) (Blocks obj) else None)"

lemma packed_content_served:
  "packed_content z r ref = Some d \<Longrightarrow>
   \<exists>obj. served z r obj d \<and> lookupObject r (PackedSHA256 obj) = Inr (Some obj) \<and> lookup_ref r ref = Inr obj \<and>
     PackedRawBytes obj = RawBytes ref"
  by (auto simp: packed_content_def served_def lookup_ref_def result_simps split: sum.splits if_splits option.splits)

interpretation packed: object_reader_at "packed_reader z r" "cache_sound z r" "packed_content z r" for z r
proof unfold_locales
  show "int (length d) = RawBytes ref" if "packed_content z r ref = Some d" for ref d
    using packed_content_served [OF that] served_length by metis
  show "packed_content z r a = packed_content z r b" if "sameObjectBytes a b" for a b
  proof -
    have "lookup_ref r a = lookup_ref r b"
      using that unfolding lookup_ref_def sameObjectBytes_def by metis
    then show ?thesis
      by (simp add: packed_content_def)
  qed
  show "\<exists>status c'. packed_reader z r ref k (int i) c = ((int k, take k (drop i d)), status, c') \<and>
      (status = AtNil \<or> status = AtEOF) \<and> cache_sound z r c'"
    if asm: "cache_sound z r c" "packed_content z r ref = Some d" "0 < k" "i + k \<le> length d" for c ref d k i
  proof -
    obtain obj where "served z r obj d" "lookupObject r (PackedSHA256 obj) = Inr (Some obj)" "lookup_ref r ref = Inr obj"
      using packed_content_served [OF asm(2)] by blast
    then show ?thesis
      using Resolver_ReadAt_any [of z r obj d ref c k i] asm by (auto simp: packed_reader_def)
  qed
qed

text \<open>C7: Reading a folded session through its view returns, at every position and for every buffer, exactly the bytes of
  the manifest's objects one after the other, with end-of-file exactly when they run out: the binary search finds the
  part, no read falls between parts, and copying a repeated object instead of reading it again changes nothing.\<close>

theorem View_ReadAt_exact:
  assumes "NewView m = Inr v" and "parts_content (packed_content z r) (Parts m) = Some data" and "cache_sound z r c"
  shows "\<exists>c'. View_ReadAt (packed_reader z r) v need (int p) c =
    (take need (drop p data), (if length data - p < need then AtEOF else AtNil), c') \<and> cache_sound z r c'"
  using assms by (rule packed.View_ReadAt_content)

text \<open>A session of the same object twice, for the witness.\<close>

definition twice_manifest :: manifest where
  "twice_manifest = example_manifest\<lparr>Source := \<lparr>Bytes = 6, SourceSHA256 = []\<rparr>,
     Parts := replicate 2 \<lparr>PartKind = PartResidual, JSONPath = [], Object = gen_ref\<rparr>\<rparr>"

lemma twice_view: "NewView twice_manifest = Inr \<lparr>view_manifest = twice_manifest, ends = [3, 6]\<rparr>"
  by (simp add: NewView_def twice_manifest_def example_manifest_def zero_manifest_def SupportedManifest_def ManifestVersion_def
      ManifestVersionV2_def ManifestKindV2_def SupportedPart_def gen_ref_def maxInt64_def numeral_2_eq_2 PartResidual_def)

lemma twice_content: "parts_content (packed_content z gen_resolver) (Parts twice_manifest) = Some [1, 2, 3, 1, 2, 3]"
proof -
  have "packed_content z gen_resolver gen_ref = Some example_data"
    using loaded_served [OF gen_loaded gen_lookup gen_total gen_bytes [of z]] gen_lookup
    by (simp add: packed_content_def served_def)
  then show ?thesis
    by (simp add: twice_manifest_def numeral_2_eq_2 example_data_def)
qed

theorem View_ReadAt_exact_witness:
  "\<exists>c'. View_ReadAt (packed_reader plain_zstd gen_resolver) \<lparr>view_manifest = twice_manifest, ends = [3, 6]\<rparr> 9 1 (newBlockCache 0) =
     ([2, 3, 1, 2, 3], AtEOF, c')"
  using View_ReadAt_exact [OF twice_view twice_content [of plain_zstd] cache_sound_new, of 9 1 0] by auto

end
