(* ===== verification/Pack_Build.thy ===== *)
theory Pack_Build
  imports Pack_Resolver "HOL-Library.Char_ord"
begin

text \<open>
  Building a pack generation, \<open>src/internal/pack/build.go\<close>: the writer of pack files, the loop over the referenced
  objects that encodes new blocks or carries over those of the previous generation, the binary index, and the
  verification of the result; the decision whether a generation can be extended incrementally, and the
  estimates that are priced before a build. The reference list comes from a database ordered by digest; it is a
  list of references here.
\<close>

section \<open>The pack writer\<close>

datatype build_error =
    BuildPack pack_error
  | BuildObject object_error
  | CreatePackFile string
  | LinkPack string
  | MissingSourcePack string
  | SourceReadFailed string
  | TooManyBlocks string
  | StreamVerification string
  | EstimateOverflow

record pack_writer =
  pw_dir :: generation_dir
  pw_limit :: int64
  sequence :: nat
  pw_file :: "string option"
  pw_offset :: int64

text \<open>\<open>fmt.Sprintf("pack-%06d.pack", n)\<close>.\<close>

definition pack_name :: "nat \<Rightarrow> string" where
  "pack_name n = ''pack-'' @ replicate (6 - length (itoa n)) CHR ''0'' @ itoa n @ ''.pack''"

definition rotate_pack :: "pack_writer \<Rightarrow> build_error + pack_writer" where
  "rotate_pack w =
     (let n = sequence w + 1; name = pack_name n
      in if pw_dir w name \<noteq> None then Inl (CreatePackFile name)
         else Inr (w\<lparr>sequence := n, pw_file := Some name, pw_offset := 0, pw_dir := (pw_dir w)(name \<mapsto> [])\<rparr>))"

text \<open>\<open>packWriter.write\<close>: the name of the file and the offset at which the data is written.\<close>

definition writer_write :: "bytes \<Rightarrow> pack_writer \<Rightarrow> build_error + (string \<times> int64 \<times> pack_writer)" where
  "writer_write data w =
     rbind (if pw_file w = None \<or> (pw_offset w > 0 \<and> wrap64 (pw_offset w + int (length data)) > pw_limit w)
            then rotate_pack w else Inr w) (\<lambda>w.
     case pw_file w of
       None \<Rightarrow> Inl (CreatePackFile '''')
     | Some name \<Rightarrow>
         Inr (name, pw_offset w,
           w\<lparr>pw_dir := (pw_dir w)(name := map_option (\<lambda>old. old @ data) (pw_dir w name)),
             pw_offset := wrap64 (pw_offset w + int (length data))\<rparr>))"

definition preferRawBlock :: "bytes \<Rightarrow> bytes \<Rightarrow> bool" where
  "preferRawBlock raw compressed =
     (if length compressed \<ge> length raw then True
      else length raw \<le> 16384 \<and> length compressed * 2 \<ge> length raw)"

section \<open>The objects of a generation\<close>

record build_state =
  writer :: pack_writer
  packNames :: "string list"
  imported :: "string \<Rightarrow> string option"
  blocksOut :: bytes
  objectsOut :: bytes
  resultBlocks :: int64
  resultRaw :: int64
  resultStored :: int64
  reusedObjects :: int64

text \<open>The number of a pack file in the index; a new name is appended.\<close>

definition pack_number :: "string \<Rightarrow> build_state \<Rightarrow> uint32 \<times> build_state" where
  "pack_number name st =
     (if name \<in> set (packNames st) then (of_nat (length (takeWhile (\<lambda>x. x \<noteq> name) (packNames st))), st)
      else (of_nat (length (packNames st)), st\<lparr>packNames := packNames st @ [name]\<rparr>))"

definition add_block :: "block_v3 \<Rightarrow> build_state \<Rightarrow> build_state" where
  "add_block r st = st\<lparr>blocksOut := blocksOut st @ encodeBlockV3 r, resultBlocks := wrap64 (resultBlocks st + 1),
     resultRaw := wrap64 (resultRaw st + RawBytes3 r), resultStored := wrap64 (resultStored st + StoredBytes3 r)\<rparr>"

definition add_object :: "object_v3 \<Rightarrow> build_state \<Rightarrow> build_state" where
  "add_object r st = st\<lparr>objectsOut := objectsOut st @ encodeObjectV3 r\<rparr>"

text \<open>One buffer of a new object: encoded, stored as it is or compressed, and recorded.\<close>

definition encode_block :: "zstd \<Rightarrow> bytes \<Rightarrow> int64 \<Rightarrow> build_state \<Rightarrow> build_error + build_state" where
  "encode_block z raw rawOffset st =
     (let compressed = Compress z raw;
          asis = preferRawBlock raw compressed;
          stored = (if asis then raw else compressed)
      in rbind (writer_write stored (writer st)) (\<lambda>(name, offset, w).
         case pack_number name (st\<lparr>writer := w\<rparr>) of (number, st) \<Rightarrow>
           Inr (add_block \<lparr>PackIndex = number, PackOffset3 = offset, StoredBytes3 = int (length stored), RawOffset3 = rawOffset,
             RawBytes3 = int (length raw), Digest3 = sha256 raw, Encoding3 = (if asis then 1 else 0)\<rparr> st)))"

text \<open>\<open>io.ReadFull\<close> cuts what a stream delivers into buffers of the block size.\<close>

function cut_blocks :: "nat \<Rightarrow> bytes \<Rightarrow> bytes list" where
  "cut_blocks k data = (if data = [] \<or> k = 0 then [] else take k data # cut_blocks k (drop k data))"
  by pat_completeness auto
termination
  by (relation "measure (\<lambda>(k, data). length data)") auto

declare cut_blocks.simps [simp del]

fun encode_blocks :: "zstd \<Rightarrow> string \<Rightarrow> bytes list \<Rightarrow> int64 \<Rightarrow> uint32 \<Rightarrow> build_state \<Rightarrow>
    build_error + (int64 \<times> uint32 \<times> build_state)" where
  "encode_blocks z digest [] rawOffset objectBlocks st = Inr (rawOffset, objectBlocks, st)"
| "encode_blocks z digest (raw # raws) rawOffset objectBlocks st =
     rbind (encode_block z raw rawOffset st) (\<lambda>st.
     if objectBlocks = - 1 then Inl (TooManyBlocks digest)
     else encode_blocks z digest raws (wrap64 (rawOffset + int (length raw))) (objectBlocks + 1) st)"

text \<open>
  The bytes of an object: its loose file, verified, or the previous generation where there is none. Reading a packed stream
  to its end takes one read per buffer; every read delivers at least a byte, so there are no more reads than bytes,
  and one for the end of file.
\<close>

fun drain_packed :: "zstd \<Rightarrow> resolver \<Rightarrow> nat \<Rightarrow> nat \<Rightarrow> packed_stream \<Rightarrow> block_cache \<Rightarrow> pack_error + bytes" where
  "drain_packed z r k 0 s c = Inl ReadNeverReturns"
| "drain_packed z r k (Suc fuel) s c =
     (case packed_Read z r k s c of
        (data, AtErr e, _) \<Rightarrow> Inl e
      | (data, AtEOF, _) \<Rightarrow> Inr data
      | (data, AtNil, s', c') \<Rightarrow> rbind (drain_packed z r k fuel s' c') (\<lambda>following. Inr (data @ following)))"

definition source_bytes :: "zstd \<Rightarrow> fs \<Rightarrow> object_store \<Rightarrow> resolver option \<Rightarrow> nat \<Rightarrow> object_ref \<Rightarrow> build_error + bytes" where
  "source_bytes z w store previous k ref =
     (case OpenStream w z store ref of
        Inr s \<Rightarrow> (case io_copy s of Inl e \<Rightarrow> Inl (BuildObject e) | Inr data \<Rightarrow> Inr data)
      | Inl e \<Rightarrow>
          (case previous of
             None \<Rightarrow> Inl (BuildObject e)
           | Some r \<Rightarrow>
               (case rbind (Resolver_OpenObject r ref) (\<lambda>s.
                     drain_packed z r k (nat (RawBytes ref) + 1) s (newBlockCache 0)) of
                  Inl e \<Rightarrow> Inl (BuildPack e)
                | Inr data \<Rightarrow> Inr data)))"

text \<open>The digest of a reference or block as the bytes of a record.\<close>

definition record_digest :: "string \<Rightarrow> build_error + bytes" where
  "record_digest s = (case decodeDigest s of Inl e \<Rightarrow> Inl (BuildPack e) | Inr d \<Rightarrow> Inr d)"

definition build_fresh :: "zstd \<Rightarrow> fs \<Rightarrow> object_store \<Rightarrow> resolver option \<Rightarrow> nat \<Rightarrow> object_ref \<Rightarrow> build_state \<Rightarrow>
    build_error + build_state" where
  "build_fresh z w store previous blockBytes ref st =
     rbind (source_bytes z w store previous blockBytes ref) (\<lambda>data.
     rbind (encode_blocks z (SHA256 ref) (cut_blocks blockBytes data) 0 0 st) (\<lambda>(rawOffset, objectBlocks, st').
     if rawOffset \<noteq> RawBytes ref \<or> sha256_hex data \<noteq> SHA256 ref then Inl (StreamVerification (SHA256 ref))
     else rbind (record_digest (SHA256 ref)) (\<lambda>digest.
       Inr (add_object \<lparr>Digest = digest, ObjectRawBytes = RawBytes ref, FirstBlock = resultBlocks st, BlockCount = objectBlocks\<rparr> st'))))"

text \<open>Carrying a block over: its pack file is linked under a name of its own, or its bytes are copied.\<close>

definition reused_name :: "string \<Rightarrow> string \<Rightarrow> string" where
  "reused_name generation pack = ''pack-reused-'' @ hex_encode (take 16 (sha256 (go_bytes (generation @ ''/'' @ pack)))) @ ''.pack''"

definition carry_data :: "bool \<Rightarrow> string \<Rightarrow> resolver \<Rightarrow> block \<Rightarrow> build_state \<Rightarrow> build_error + (string \<times> int64 \<times> build_state)" where
  "carry_data incremental generation r b st =
     (case packs r (Pack b) of
        None \<Rightarrow> Inl (MissingSourcePack (Pack b))
      | Some file \<Rightarrow>
          if incremental then
            (case imported st (Pack b) of
               Some name \<Rightarrow> Inr (name, PackOffset b, st)
             | None \<Rightarrow>
                 (let name = reused_name generation (Pack b)
                  in if pw_dir (writer st) name \<noteq> None then Inl (LinkPack name)
                     else Inr (name, PackOffset b,
                       st\<lparr>writer := (writer st)\<lparr>pw_dir := (pw_dir (writer st))(name \<mapsto> file)\<rparr>,
                          imported := (imported st)(Pack b \<mapsto> name)\<rparr>)))
          else
            (case file_ReadAt file (nat (BlockStoredBytes b)) (PackOffset b) of
               None \<Rightarrow> Inl (SourceReadFailed (Pack b))
             | Some data \<Rightarrow>
                 rbind (writer_write data (writer st)) (\<lambda>(name, offset, w). Inr (name, offset, st\<lparr>writer := w\<rparr>))))"

fun carry_blocks :: "bool \<Rightarrow> string \<Rightarrow> resolver \<Rightarrow> block list \<Rightarrow> build_state \<Rightarrow> build_error + build_state" where
  "carry_blocks incremental generation r [] st = Inr st"
| "carry_blocks incremental generation r (b # bs) st =
     rbind (carry_data incremental generation r b st) (\<lambda>(name, offset, st).
     case pack_number name st of (number, st) \<Rightarrow>
     rbind (record_digest (BlockSHA256 b)) (\<lambda>digest.
     carry_blocks incremental generation r bs
       (add_block \<lparr>PackIndex = number, PackOffset3 = offset, StoredBytes3 = BlockStoredBytes b, RawOffset3 = RawOffset b,
         RawBytes3 = BlockRawBytes b, Digest3 = digest, Encoding3 = (if Encoding b = EncodingRaw then 1 else 0)\<rparr> st)))"

definition carry_object :: "bool \<Rightarrow> string \<Rightarrow> resolver \<Rightarrow> object_ref \<Rightarrow> packed_object \<Rightarrow> build_state \<Rightarrow> build_error + build_state" where
  "carry_object incremental generation r ref obj st =
     rbind (carry_blocks incremental generation r (Blocks obj) st) (\<lambda>st'.
     rbind (record_digest (SHA256 ref)) (\<lambda>digest.
     Inr (add_object \<lparr>Digest = digest, ObjectRawBytes = RawBytes ref, FirstBlock = resultBlocks st,
        BlockCount = of_nat (length (Blocks obj))\<rparr> (st'\<lparr>reusedObjects := wrap64 (reusedObjects st' + 1)\<rparr>))))"

definition compatible :: "int64 \<Rightarrow> object_ref \<Rightarrow> packed_object \<Rightarrow> bool" where
  "compatible blockBytes ref obj \<longleftrightarrow> PackedRawBytes obj = RawBytes ref \<and> (\<forall>b\<in>set (Blocks obj). BlockRawBytes b \<le> blockBytes)"

record build_options =
  Incremental :: bool
  OptBlockBytes :: int64
  OptPackBytes :: int64

definition build_object :: "zstd \<Rightarrow> build_options \<Rightarrow> fs \<Rightarrow> object_store \<Rightarrow> (string \<times> resolver) option \<Rightarrow> object_ref \<Rightarrow> build_state \<Rightarrow>
    build_error + build_state" where
  "build_object z opts w store previous ref st =
     (case previous of
        Some (generation, r) \<Rightarrow>
          if Stat w (ObjectPath store (SHA256 ref)) = None then
            (case lookupObject r (SHA256 ref) of
               Inl e \<Rightarrow> Inl (BuildPack e)
             | Inr (Some obj) \<Rightarrow>
                 if compatible (OptBlockBytes opts) ref obj then carry_object (Incremental opts) generation r ref obj st
                 else build_fresh z w store (Some r) (nat (OptBlockBytes opts)) ref st
             | Inr None \<Rightarrow> build_fresh z w store (Some r) (nat (OptBlockBytes opts)) ref st)
          else build_fresh z w store (Some r) (nat (OptBlockBytes opts)) ref st
      | None \<Rightarrow> build_fresh z w store None (nat (OptBlockBytes opts)) ref st)"

fun build_objects :: "zstd \<Rightarrow> build_options \<Rightarrow> fs \<Rightarrow> object_store \<Rightarrow> (string \<times> resolver) option \<Rightarrow> object_ref list \<Rightarrow> build_state \<Rightarrow>
    build_error + build_state" where
  "build_objects z opts w store previous [] st = Inr st"
| "build_objects z opts w store previous (ref # refs) st =
     rbind (build_object z opts w store previous ref st) (build_objects z opts w store previous refs)"

definition default_build_options :: "build_options \<Rightarrow> build_options" where
  "default_build_options opts = opts
     \<lparr>OptBlockBytes := (if OptBlockBytes opts \<le> 0 then 262144 else OptBlockBytes opts),
      OptPackBytes := (if OptPackBytes opts \<le> 0 then 536870912 else OptPackBytes opts)\<rparr>"

definition start_build :: "build_options \<Rightarrow> build_state" where
  "start_build opts =
     \<lparr>writer = \<lparr>pw_dir = (\<lambda>_. None), pw_limit = OptPackBytes opts, sequence = 0, pw_file = None, pw_offset = 0\<rparr>,
      packNames = [], imported = (\<lambda>_. None), blocksOut = [], objectsOut = [], resultBlocks = 0, resultRaw = 0,
      resultStored = 0, reusedObjects = 0\<rparr>"

definition build_meta :: "build_options \<Rightarrow> string \<Rightarrow> string \<Rightarrow> nat \<Rightarrow> build_state \<Rightarrow> index_v3_meta" where
  "build_meta opts generation createdAt count st =
     \<lparr>V3Version = 3, V3Kind = ''pack-v3'', V3Generation = generation, V3CreatedAt = createdAt, V3BlockBytes = OptBlockBytes opts,
      V3ObjectCount = int count, V3BlockCount = resultBlocks st, Packs = packNames st\<rparr>"

definition build_directory :: "index_v3_meta \<Rightarrow> build_state \<Rightarrow> generation_dir" where
  "build_directory m st = (pw_dir (writer st))(''objects.idx'' \<mapsto> objectsOut st, ''blocks.idx'' \<mapsto> blocksOut st,
     ''index.meta.json'' \<mapsto> writeIndexV3Meta m)"

text \<open>
  The generation that \<open>Build\<close> writes to a temporary directory of the given name and verifies before it is renamed to its
  final place; \<open>refs\<close> are the rows of the reference index.
\<close>

definition build_generation :: "zstd \<Rightarrow> build_options \<Rightarrow> fs \<Rightarrow> object_store \<Rightarrow> (string \<times> resolver) option \<Rightarrow> object_ref list \<Rightarrow>
    string \<Rightarrow> string \<Rightarrow> build_error + generation_dir" where
  "build_generation z options w store previous refs suffix createdAt =
     (let opts = default_build_options options
      in rbind (build_objects z opts w store previous refs (start_build opts)) (\<lambda>st.
         let m = build_meta opts (''gen-'' @ suffix) createdAt (length refs) st;
             dir = build_directory m st
         in case verifyGeneration z (''.generation-'' @ suffix) dir of
              Inl e \<Rightarrow> Inl (BuildPack e)
            | Inr _ \<Rightarrow> Inr dir))"

section \<open>Decisions and estimates before a build\<close>

text \<open>
  Whether the previous generation holds an object that is not referenced any more: a merge of two lists in the
  order of their digests. The empty string stands for "not read yet".
\<close>

fun dropped_loop :: "resolver \<Rightarrow> string list \<Rightarrow> int64 \<Rightarrow> string \<Rightarrow> pack_error + bool" where
  "dropped_loop r [] position previousDigest = Inr (position < objectCount r)"
| "dropped_loop r (digest # digests) position previousDigest =
     (if position \<ge> objectCount r then dropped_loop r digests position previousDigest
      else rbind (if previousDigest = '''' then rbind (objectAt r position) (\<lambda>obj. Inr (PackedSHA256 obj)) else Inr previousDigest)
        (\<lambda>previousDigest.
           if previousDigest < digest then Inr True
           else if previousDigest = digest then dropped_loop r digests (position + 1) ''''
           else dropped_loop r digests position previousDigest))"

definition hasDroppedPackedObjects :: "resolver \<Rightarrow> string list \<Rightarrow> pack_error + bool" where
  "hasDroppedPackedObjects r digests = dropped_loop r digests 0 ''''"

fun sum_sizes :: "int64 \<Rightarrow> int64 list \<Rightarrow> int64 option" where
  "sum_sizes stored [] = Some stored"
| "sum_sizes stored (n # ns) =
     (if n < 0 \<or> stored > maxInt64 - n then None else sum_sizes (stored + n) ns)"

definition compactPackFileLimit :: "int64 list option \<Rightarrow> int64 \<Rightarrow> build_error + int64" where
  "compactPackFileLimit previous packBytes =
     (case previous of
        None \<Rightarrow> Inr 16
      | Some sizes \<Rightarrow>
          if packBytes \<le> 0 then Inr 16
          else case sum_sizes 0 sizes of
            None \<Rightarrow> Inl EstimateOverflow
          | Some stored \<Rightarrow>
              (let minimum = stored div packBytes + (if stored mod packBytes \<noteq> 0 then 1 else 0)
               in if minimum > maxInt64 - 8 then Inl EstimateOverflow else Inr (max 16 (minimum + 8))))"

definition estimatedGenerationBytes :: "int64 \<Rightarrow> build_error + int64" where
  "estimatedGenerationBytes rawBytes =
     (if rawBytes < 0 then Inl EstimateOverflow
      else
        (let compressionOverhead = rawBytes div 16 + 1048576
         in if rawBytes > maxInt64 - compressionOverhead then Inl EstimateOverflow else Inr (rawBytes + compressionOverhead)))"

section \<open>Pack files only grow\<close>

text \<open>A later directory holds every file of an earlier one, possibly with more at its end.\<close>

definition dir_grows :: "generation_dir \<Rightarrow> generation_dir \<Rightarrow> bool" where
  "dir_grows d d' \<longleftrightarrow> (\<forall>name f. d name = Some f \<longrightarrow> (\<exists>g. d' name = Some (f @ g)))"

lemma dir_grows_refl [simp]: "dir_grows d d"
  by (auto simp: dir_grows_def intro: exI [of _ "[]"])

lemma dir_grows_trans: "dir_grows a b \<Longrightarrow> dir_grows b c \<Longrightarrow> dir_grows a c"
  unfolding dir_grows_def by (metis append_assoc)

lemma dir_grows_dom: "dir_grows d d' \<Longrightarrow> d name \<noteq> None \<Longrightarrow> d' name \<noteq> None"
  by (auto simp: dir_grows_def)

lemma file_ReadAt_grows: "file_ReadAt f k off = Some x \<Longrightarrow> file_ReadAt (f @ g) k off = Some x"
  by (auto simp: file_ReadAt_def slice_append_left split: if_splits)

lemma decodeBlock_grows: "dir_grows d d' \<Longrightarrow> decodeBlock z d dg n b = Inr x \<Longrightarrow> decodeBlock z d' dg n b = Inr x"
proof -
  assume grows: "dir_grows d d'" and dec: "decodeBlock z d dg n b = Inr x"
  obtain f st where f: "d (Pack b) = Some f" "file_ReadAt f (nat (BlockStoredBytes b)) (PackOffset b) = Some st"
    using dec by (auto simp: decodeBlock_def split: option.splits if_splits)
  then obtain g where "d' (Pack b) = Some (f @ g)"
    using grows by (auto simp: dir_grows_def)
  moreover have "file_ReadAt (f @ g) (nat (BlockStoredBytes b)) (PackOffset b) = Some st"
    using f(2) by (rule file_ReadAt_grows)
  ultimately have "decodeBlock z d' dg n b = decodeBlock z d dg n b"
    using f by (simp only: decodeBlock_def option.case)
  then show ?thesis
    using dec by simp
qed

lemma blocks_bytes_grows: "dir_grows d d' \<Longrightarrow> blocks_bytes z d bs = Some x \<Longrightarrow> blocks_bytes z d' bs = Some x"
  by (induction bs arbitrary: x) (auto split: sum.splits dest: decodeBlock_grows)

text \<open>Names of pack files.\<close>

lemma itoa_no_zero_head: "0 < n \<Longrightarrow> itoa n \<noteq> [] \<and> hd (itoa n) \<noteq> CHR ''0''"
proof -
  assume "0 < n"
  have "itoa n \<noteq> []"
    using itoa_digits [of n] by (auto simp: go_bytes_def)
  moreover have "hd (go_bytes (itoa n)) = of_nat (of_char (hd (itoa n)))"
    using \<open>itoa n \<noteq> []\<close> by (simp add: go_bytes_def hd_map)
  then have "hd (itoa n) \<noteq> CHR ''0''"
    using itoa_head [OF \<open>0 < n\<close>] by auto
  ultimately show ?thesis
    by blast
qed

lemma pack_name_inject: "0 < a \<Longrightarrow> 0 < b \<Longrightarrow> pack_name a = pack_name b \<longleftrightarrow> a = b"
proof
  assume pos: "0 < a" "0 < b" and eq: "pack_name a = pack_name b"
  have strip: "dropWhile (\<lambda>c. c = CHR ''0'') (replicate k CHR ''0'' @ itoa n) = itoa n" if "0 < n" for k n
    using itoa_no_zero_head [OF that] by (cases "itoa n") (simp_all add: dropWhile_append)
  have "replicate (6 - length (itoa a)) CHR ''0'' @ itoa a = replicate (6 - length (itoa b)) CHR ''0'' @ itoa b"
    using eq by (simp add: pack_name_def flip: append_assoc)
  then have "itoa a = itoa b"
    using strip pos by metis
  then show "a = b"
    by simp
qed simp

text \<open>The state of a writer: its files are the ones it has named, the current one is the last and ends at the offset.\<close>

definition writer_ok :: "pack_writer \<Rightarrow> bool" where
  "writer_ok w \<longleftrightarrow> (\<forall>name. pw_dir w name \<noteq> None \<longrightarrow> (\<exists>n. 0 < n \<and> n \<le> sequence w \<and> name = pack_name n)) \<and> 0 \<le> pw_offset w \<and>
     (\<forall>name. pw_file w = Some name \<longrightarrow> (\<exists>f. pw_dir w name = Some f \<and> int (length f) = pw_offset w))"

lemma rotate_pack_ok:
  assumes "writer_ok w"
  shows "\<exists>w' name. rotate_pack w = Inr w' \<and> writer_ok w' \<and> pw_file w' = Some name \<and> pw_offset w' = 0 \<and>
    dir_grows (pw_dir w) (pw_dir w') \<and> pw_limit w' = pw_limit w"
proof -
  have new: "pw_dir w (pack_name (sequence w + 1)) = None"
  proof (rule ccontr)
    assume "pw_dir w (pack_name (sequence w + 1)) \<noteq> None"
    then obtain n where "0 < n" "n \<le> sequence w" "pack_name (sequence w + 1) = pack_name n"
      using assms unfolding writer_ok_def by blast
    then show False
      using pack_name_inject [of "sequence w + 1" n] by simp
  qed
  then have "rotate_pack w = Inr (w\<lparr>sequence := sequence w + 1, pw_file := Some (pack_name (sequence w + 1)), pw_offset := 0,
    pw_dir := (pw_dir w)(pack_name (sequence w + 1) \<mapsto> [])\<rparr>)"
    by (simp add: rotate_pack_def Let_def)
  moreover have "dir_grows (pw_dir w) ((pw_dir w)(pack_name (sequence w + 1) \<mapsto> []))"
    using new by (auto simp: dir_grows_def intro: exI [of _ "[]"])
  moreover have "\<exists>n>0. n \<le> sequence w + 1 \<and> name = pack_name n" if there: "((pw_dir w)(pack_name (sequence w + 1) \<mapsto> [])) name \<noteq> None" for name
  proof (cases "name = pack_name (sequence w + 1)")
    case False
    then obtain n where "0 < n" "n \<le> sequence w" "name = pack_name n"
      using there assms unfolding writer_ok_def by auto
    then show ?thesis
      by (intro exI [of _ n]) simp
  qed auto
  ultimately show ?thesis
    by (auto simp: writer_ok_def)
qed

lemma writer_write_ok:
  assumes "writer_ok w" and "pw_offset w + int (length data) \<le> maxInt64" and "int (length data) \<le> maxInt64"
  shows "\<exists>name off w' f. writer_write data w = Inr (name, off, w') \<and> writer_ok w' \<and> dir_grows (pw_dir w) (pw_dir w') \<and>
    0 \<le> off \<and> pw_dir w' name = Some f \<and> nat off + length data \<le> length f \<and> slice (nat off) (nat off + length data) f = data \<and>
    pw_offset w' \<le> pw_offset w + int (length data) \<and> in_int64 off"
proof -
  define turn where "turn \<longleftrightarrow> pw_file w = None \<or> (pw_offset w > 0 \<and> wrap64 (pw_offset w + int (length data)) > pw_limit w)"
  obtain w1 name where w1: "(if turn then rotate_pack w else Inr w) = Inr w1" "writer_ok w1" "pw_file w1 = Some name"
    "dir_grows (pw_dir w) (pw_dir w1)" "pw_offset w1 \<le> pw_offset w"
  proof (cases turn)
    case True
    then show thesis
      using that rotate_pack_ok [OF assms(1)] assms(1) unfolding writer_ok_def by (metis (full_types))
  next
    case False
    then show thesis
      using that [of w] assms(1) by (auto simp: turn_def)
  qed
  obtain f where f: "pw_dir w1 name = Some f" "int (length f) = pw_offset w1"
    using w1(2,3) by (auto simp: writer_ok_def)
  define w2 where "w2 = w1\<lparr>pw_dir := (pw_dir w1)(name \<mapsto> f @ data), pw_offset := int (length (f @ data))\<rparr>"
  have off: "wrap64 (pw_offset w1 + int (length data)) = int (length (f @ data))"
    using f(2) w1(5) assms(2) by (auto intro!: trans [OF wrap64_id] in_int64_nonneg)
  have "writer_write data w = Inr (name, int (length f), w2)"
    using w1(1,3) f off by (simp add: writer_write_def w2_def flip: turn_def)
  moreover have "writer_ok w2"
    using w1(2,3) f unfolding writer_ok_def w2_def by auto
  moreover have "dir_grows (pw_dir w1) (pw_dir w2)"
    using f(1) by (auto simp: dir_grows_def w2_def)
  moreover have "slice (length f) (length f + length data) (f @ data) = data"
    by (simp add: slice_def)
  moreover have "in_int64 (int (length f))"
    using f(2) w1(5) assms(2) by (intro in_int64_nonneg) simp_all
  moreover have "nat (pw_offset w1) = length f"
    using f(2) by simp
  ultimately show ?thesis
    using w1(4,5) f dir_grows_trans
    by (intro exI [of _ name] exI [of _ "int (length f)"] exI [of _ w2] exI [of _ "f @ data"]) (auto simp: w2_def)
qed

section \<open>Recording blocks\<close>

text \<open>The block that a record stands for, given the names of the packs.\<close>

definition block_of :: "string list \<Rightarrow> block_v3 \<Rightarrow> block" where
  "block_of names b = \<lparr>Pack = names ! unat (PackIndex b), PackOffset = PackOffset3 b, BlockStoredBytes = StoredBytes3 b,
     RawOffset = RawOffset3 b, BlockRawBytes = RawBytes3 b, BlockSHA256 = hex_encode (Digest3 b),
     Encoding = (if Encoding3 b = 1 then EncodingRaw else EncodingZstd)\<rparr>"

definition block_good :: "string list \<Rightarrow> block_v3 \<Rightarrow> bool" where
  "block_good names b \<longleftrightarrow> block_v3_ok b \<and> unat (PackIndex b) < length names \<and> 0 \<le> PackOffset3 b \<and> 0 < StoredBytes3 b \<and>
     0 < RawBytes3 b \<and> (Encoding3 b = 0 \<or> Encoding3 b = 1)"

lemma block_of_append: "block_good names b \<Longrightarrow> block_of (names @ more_names) b = block_of names b"
  by (simp add: block_of_def block_good_def nth_append)

lemma block_good_append: "block_good names b \<Longrightarrow> block_good (names @ more_names) b"
  by (simp add: block_good_def)

lemma block_of_simps [simp]:
  "RawOffset (block_of names b) = RawOffset3 b" "BlockRawBytes (block_of names b) = RawBytes3 b"
  by (simp_all add: block_of_def)

definition recorded :: "block_v3 list \<Rightarrow> int" where
  "recorded brs = sum_list (map RawBytes3 brs)"

lemma recorded_simps [simp]: "recorded [] = 0" "recorded (b # bs) = RawBytes3 b + recorded bs" "recorded (xs @ ys) = recorded xs + recorded ys"
  by (simp_all add: recorded_def)

text \<open>The state after the given block and object records have been written.\<close>

definition state_ok :: "build_state \<Rightarrow> object_v3 list \<Rightarrow> block_v3 list \<Rightarrow> bool" where
  "state_ok st ors brs \<longleftrightarrow> writer_ok (writer st) \<and> distinct (packNames st) \<and>
     (\<forall>name\<in>set (packNames st). pw_dir (writer st) name \<noteq> None) \<and>
     blocksOut st = concat (map encodeBlockV3 brs) \<and> objectsOut st = concat (map encodeObjectV3 ors) \<and>
     resultBlocks st = int (length brs) \<and> (\<forall>b\<in>set brs. block_good (packNames st) b) \<and>
     length (packNames st) \<le> length brs \<and> pw_offset (writer st) \<le> recorded brs"

text \<open>A later state: more names, grown files.\<close>

definition extends :: "build_state \<Rightarrow> build_state \<Rightarrow> bool" where
  "extends st st' \<longleftrightarrow> dir_grows (pw_dir (writer st)) (pw_dir (writer st')) \<and> (\<exists>ns. packNames st' = packNames st @ ns)"

lemma extends_refl [simp]: "extends st st"
  by (simp add: extends_def)

lemma extends_trans: "extends a b \<Longrightarrow> extends b c \<Longrightarrow> extends a c"
  unfolding extends_def using dir_grows_trans by (metis append_assoc)

lemma unat_of_nat32: "k < 2 ^ 32 \<Longrightarrow> unat (of_nat k :: uint32) = k"
  by (simp add: unsigned_of_nat take_bit_nat_eq_self)

lemma takeWhile_index:
  "x \<in> set xs \<Longrightarrow> length (takeWhile (\<lambda>y. y \<noteq> x) xs) < length xs \<and> xs ! length (takeWhile (\<lambda>y. y \<noteq> x) xs) = x"
  by (induction xs) auto

lemma pack_number_ok:
  assumes "pack_number name st = (n, st')" and "distinct (packNames st)" and "length (packNames st) < 2 ^ 32"
  shows "\<exists>ns. st' = st\<lparr>packNames := packNames st @ ns\<rparr> \<and> distinct (packNames st @ ns) \<and> length ns \<le> 1 \<and> set ns \<subseteq> {name} \<and>
    unat n < length (packNames st @ ns) \<and> (packNames st @ ns) ! unat n = name"
proof (cases "name \<in> set (packNames st)")
  case True
  define k where "k = length (takeWhile (\<lambda>x. x \<noteq> name) (packNames st))"
  have k: "k < length (packNames st)" "packNames st ! k = name"
    using takeWhile_index [OF True] by (simp_all add: k_def)
  moreover have "unat (of_nat k :: uint32) = k"
    using k assms(3) by (simp add: unat_of_nat32)
  moreover have "n = of_nat k" "st' = st"
    using True assms(1) by (auto simp: pack_number_def k_def)
  ultimately show ?thesis
    using k assms(2) by (intro exI [of _ "[]"]) simp
next
  case False
  moreover have "unat (of_nat (length (packNames st)) :: uint32) = length (packNames st)"
    using assms(3) by (simp add: unat_of_nat32)
  ultimately show ?thesis
    using assms by (intro exI [of _ "[name]"]) (auto simp: pack_number_def)
qed

text \<open>What the compressor is relied on for: compressed data decodes to itself, and is not empty.\<close>

definition zstd_frames :: "zstd \<Rightarrow> bool" where
  "zstd_frames z \<longleftrightarrow> zstd_ok z \<and> (\<forall>x. x \<noteq> [] \<longrightarrow> Compress z x \<noteq> [])"

lemma encode_block_ok:
  assumes st: "state_ok st ors brs" and raw: "raw \<noteq> []" and z: "zstd_frames z"
    and bounds: "recorded brs + int (length raw) \<le> maxInt64" "length brs < 2 ^ 32 - 1" and off: "in_int64 off"
  shows "\<exists>st' b. encode_block z raw off st = Inr st' \<and> state_ok st' ors (brs @ [b]) \<and> extends st st' \<and>
    RawOffset3 b = off \<and> RawBytes3 b = int (length raw) \<and>
    decodeBlock z (pw_dir (writer st')) [] 0 (block_of (packNames st') b) = Inr raw"
proof -
  define asis stored where "asis = preferRawBlock raw (Compress z raw)" and "stored = (if asis then raw else Compress z raw)"
  have stored: "stored \<noteq> []" "length stored \<le> length raw"
    using raw z by (auto simp: stored_def asis_def preferRawBlock_def zstd_frames_def split: if_splits)
  have w: "writer_ok (writer st)" and pw: "pw_offset (writer st) \<le> recorded brs" and names: "distinct (packNames st)"
    "length (packNames st) \<le> length brs" "\<forall>name\<in>set (packNames st). pw_dir (writer st) name \<noteq> None"
    and good: "\<forall>b\<in>set brs. block_good (packNames st) b"
    using st by (simp_all add: state_ok_def)
  have nonneg: "0 \<le> pw_offset (writer st)"
    using w by (simp add: writer_ok_def)
  obtain name poff w' f where wr: "writer_write stored (writer st) = Inr (name, poff, w')" and w': "writer_ok w'"
    and grows: "dir_grows (pw_dir (writer st)) (pw_dir w')" and poff: "0 \<le> poff" "in_int64 poff"
    and f: "pw_dir w' name = Some f" "nat poff + length stored \<le> length f" "slice (nat poff) (nat poff + length stored) f = stored"
    and pw': "pw_offset w' \<le> pw_offset (writer st) + int (length stored)"
    using writer_write_ok [OF w, of stored] pw bounds(1) stored(2) nonneg by auto
  obtain n st1 where num: "pack_number name (st\<lparr>writer := w'\<rparr>) = (n, st1)"
    by fastforce
  then obtain ns where st1: "st1 = st\<lparr>writer := w', packNames := packNames st @ ns\<rparr>" and ns: "distinct (packNames st @ ns)"
    "length ns \<le> 1" "set ns \<subseteq> {name}" "unat n < length (packNames st @ ns)" "(packNames st @ ns) ! unat n = name"
    using pack_number_ok [of name "st\<lparr>writer := w'\<rparr>" n st1] names(1,2) bounds(2) by auto
  define b where "b = \<lparr>PackIndex = n, PackOffset3 = poff, StoredBytes3 = int (length stored), RawOffset3 = off,
    RawBytes3 = int (length raw), Digest3 = sha256 raw, Encoding3 = (if asis then 1 else 0)\<rparr>"
  have enc: "encode_block z raw off st = Inr (add_block b st1)"
    using wr num by (simp add: encode_block_def b_def Let_def flip: asis_def stored_def)
  have recorded: "0 \<le> recorded brs"
    using nonneg pw by linarith
  have b: "block_good (packNames st @ ns) b"
    using ns(4) poff off stored raw bounds(1) recorded
    by (auto simp: block_good_def block_v3_ok_def b_def intro!: in_int64_nonneg)
  have fields: "Pack (block_of (packNames st @ ns) b) = name" "BlockStoredBytes (block_of (packNames st @ ns) b) = int (length stored)"
    "PackOffset (block_of (packNames st @ ns) b) = poff" "BlockSHA256 (block_of (packNames st @ ns) b) = sha256_hex raw"
    "Encoding (block_of (packNames st @ ns) b) = (if asis then EncodingRaw else EncodingZstd)"
    "BlockRawBytes (block_of (packNames st @ ns) b) = int (length raw)"
    using ns(5) by (simp_all add: block_of_def b_def sha256_hex_def)
  have "file_ReadAt f (length stored) poff = Some stored"
    using f poff(1) stored(1) file_ReadAt_nat [of f "length stored" "nat poff"] by simp
  moreover have "(if (if asis then EncodingRaw else EncodingZstd) = EncodingRaw then Some stored else DecodeAll z stored) = Some raw"
    using z by (simp add: stored_def EncodingRaw_def EncodingZstd_def zstd_frames_def zstd_ok_def)
  ultimately have dec: "decodeBlock z (pw_dir w') [] 0 (block_of (packNames st @ ns) b) = Inr raw"
    using f(1) by (simp add: decodeBlock_def fields del: block_of_simps)
  have "state_ok (add_block b st1) ors (brs @ [b])"
    unfolding state_ok_def
  proof (intro conjI)
    show "\<forall>name\<in>set (packNames (add_block b st1)). pw_dir (writer (add_block b st1)) name \<noteq> None"
    proof
      fix x
      assume "x \<in> set (packNames (add_block b st1))"
      then have "x \<in> set (packNames st) \<or> x = name"
        using ns(3) by (auto simp: add_block_def st1)
      then show "pw_dir (writer (add_block b st1)) x \<noteq> None"
        using names(3) f(1) dir_grows_dom [OF grows] by (auto simp: add_block_def st1)
    qed
    show "resultBlocks (add_block b st1) = int (length (brs @ [b]))"
      using st bounds(2) by (auto simp: add_block_def st1 state_ok_def maxInt64_def intro!: trans [OF wrap64_id] in_int64_nonneg)
    show "\<forall>x\<in>set (brs @ [b]). block_good (packNames (add_block b st1)) x"
      using good b by (auto simp: add_block_def st1 intro: block_good_append)
    show "pw_offset (writer (add_block b st1)) \<le> recorded (brs @ [b])"
      using pw pw' stored(2) by (simp add: add_block_def st1 b_def)
  qed (use st w' ns in \<open>auto simp: add_block_def st1 state_ok_def\<close>)
  moreover have "extends st (add_block b st1)"
    using grows by (simp add: extends_def add_block_def st1)
  ultimately show ?thesis
    using enc dec by (intro exI [of _ "add_block b st1"] exI [of _ b]) (simp add: add_block_def st1, simp add: b_def)
qed

lemma blocks_later:
  assumes "extends st st'" and "\<forall>b\<in>set bs. block_good (packNames st) b"
  shows "map (block_of (packNames st')) bs = map (block_of (packNames st)) bs"
    and "blocks_bytes z (pw_dir (writer st)) (map (block_of (packNames st)) bs) = Some x \<Longrightarrow>
      blocks_bytes z (pw_dir (writer st')) (map (block_of (packNames st')) bs) = Some x"
proof -
  obtain ns where ns: "packNames st' = packNames st @ ns" and grows: "dir_grows (pw_dir (writer st)) (pw_dir (writer st'))"
    using assms(1) by (auto simp: extends_def)
  show eq: "map (block_of (packNames st')) bs = map (block_of (packNames st)) bs"
    using assms(2) by (auto simp: ns intro: block_of_append)
  show "blocks_bytes z (pw_dir (writer st')) (map (block_of (packNames st')) bs) = Some x"
    if "blocks_bytes z (pw_dir (writer st)) (map (block_of (packNames st)) bs) = Some x"
    unfolding eq using grows that by (rule blocks_bytes_grows)
qed

lemma encode_blocks_ok:
  assumes "zstd_frames z" and "state_ok st ors brs" and "\<forall>raw\<in>set raws. raw \<noteq> []"
    and "recorded brs + int (length (concat raws)) \<le> maxInt64" and "length brs + length raws < 2 ^ 32"
    and "0 \<le> off" and "off + int (length (concat raws)) \<le> maxInt64" and "unat ob + length raws < 2 ^ 32"
  shows "\<exists>st' bs. encode_blocks z dg raws off ob st = Inr (off + int (length (concat raws)), ob + of_nat (length raws), st') \<and>
    state_ok st' ors (brs @ bs) \<and> extends st st' \<and> length bs = length raws \<and> recorded bs = int (length (concat raws)) \<and>
    laid_out off (map (block_of (packNames st')) bs) \<and>
    blocks_bytes z (pw_dir (writer st')) (map (block_of (packNames st')) bs) = Some (concat raws)"
  using assms(2-)
proof (induction raws arbitrary: st brs off ob)
  case Nil
  then show ?case
    by (intro exI [of _ st] exI [of _ "[]"]) simp
next
  case (Cons raw raws)
  have "in_int64 off"
    using Cons.prems(5,6) by (intro in_int64_nonneg) simp_all
  then obtain st1 b where enc: "encode_block z raw off st = Inr st1" and st1: "state_ok st1 ors (brs @ [b])" and ext: "extends st st1"
    and b: "RawOffset3 b = off" "RawBytes3 b = int (length raw)"
    and dec: "decodeBlock z (pw_dir (writer st1)) [] 0 (block_of (packNames st1) b) = Inr raw"
    using encode_block_ok [OF Cons.prems(1) _ assms(1), of raw off] Cons.prems by auto
  have off: "wrap64 (off + int (length raw)) = off + int (length raw)"
    using Cons.prems(5,6) by (intro wrap64_id in_int64_nonneg) simp_all
  have "unat ob + 1 < 2 ^ LENGTH(32)"
    using Cons.prems(7) by simp
  then have ob: "unat (ob + 1) = unat ob + 1"
    by (simp add: unat_word_ariths)
  then have "ob \<noteq> - 1"
    by auto
  obtain st2 bs where step: "encode_blocks z dg raws (off + int (length raw)) (ob + 1) st1 =
      Inr (off + int (length raw) + int (length (concat raws)), ob + 1 + of_nat (length raws), st2)"
    and st2: "state_ok st2 ors (brs @ [b] @ bs)" and ext2: "extends st1 st2" and len: "length bs = length raws"
    and rec: "recorded bs = int (length (concat raws))" and lo: "laid_out (off + int (length raw)) (map (block_of (packNames st2)) bs)"
    and bytes: "blocks_bytes z (pw_dir (writer st2)) (map (block_of (packNames st2)) bs) = Some (concat raws)"
    using Cons.IH [OF st1, of "off + int (length raw)" "ob + 1"] Cons.prems b ob by (auto simp: add.assoc)
  have "block_good (packNames st1) b"
    using st1 by (simp add: state_ok_def)
  then have "blocks_bytes z (pw_dir (writer st2)) (map (block_of (packNames st2)) [b]) = Some raw"
    using blocks_later(2) [OF ext2, of "[b]" z raw] dec by simp
  then have "blocks_bytes z (pw_dir (writer st2)) (map (block_of (packNames st2)) ([b] @ bs)) = Some (raw @ concat raws)"
    using bytes by (simp only: map_append blocks_bytes_append) blast
  moreover have "laid_out off (map (block_of (packNames st2)) ([b] @ bs))"
    using lo b Cons.prems(2) by simp
  moreover have "encode_blocks z dg (raw # raws) off ob st =
      Inr (off + int (length (concat (raw # raws))), ob + of_nat (length (raw # raws)), st2)"
    using enc step off \<open>ob \<noteq> - 1\<close> by (simp add: add.assoc)
  ultimately show ?case
    using st2 extends_trans [OF ext ext2] len rec b(2) by (intro exI [of _ st2] exI [of _ "[b] @ bs"]) simp
qed

lemma concat_cut_blocks: "0 < k \<Longrightarrow> concat (cut_blocks k data) = data"
  by (induction k data rule: cut_blocks.induct) (subst cut_blocks.simps, auto)

lemma cut_blocks_nonempty: "raw \<in> set (cut_blocks k data) \<Longrightarrow> raw \<noteq> []"
proof (induction k data rule: cut_blocks.induct)
  case (1 k data)
  then show ?case
    by (cases "data = [] \<or> k = 0") (auto simp: cut_blocks.simps [of k data])
qed

section \<open>Recording objects\<close>

text \<open>An object record whose blocks lie in the packs and decode to the data it is the record of.\<close>

definition object_in :: "zstd \<Rightarrow> build_state \<Rightarrow> block_v3 list \<Rightarrow> object_v3 \<Rightarrow> bytes \<Rightarrow> bool" where
  "object_in z st brs r data \<longleftrightarrow>
     (let f = nat (FirstBlock r); c = unat (BlockCount r); bs = map (block_of (packNames st)) (slice f (f + c) brs)
      in 0 \<le> FirstBlock r \<and> f + c \<le> length brs \<and> laid_out 0 bs \<and> blocks_bytes z (pw_dir (writer st)) bs = Some data \<and>
         ObjectRawBytes r = int (length data) \<and> int (length data) \<le> maxInt64 \<and> Digest r = sha256 data \<and> object_v3_ok r)"

lemma object_in_later:
  assumes "object_in z st brs r data" and "extends st st'" and "\<forall>b\<in>set brs. block_good (packNames st) b"
  shows "object_in z st' (brs @ bs) r data"
proof -
  let ?f = "nat (FirstBlock r)" and ?c = "unat (BlockCount r)"
  have within: "slice ?f (?f + ?c) (brs @ bs) = slice ?f (?f + ?c) brs"
    using assms(1) by (intro slice_append_left) (simp add: object_in_def Let_def)
  have "\<forall>b\<in>set (slice ?f (?f + ?c) brs). block_good (packNames st) b"
    using assms(3) by (auto simp: slice_def dest: in_set_takeD in_set_dropD)
  note later = blocks_later [OF assms(2) this]
  show ?thesis
    using assms(1) later(2) unfolding object_in_def Let_def within later(1) by auto
qed

lemma source_bytes_loose: "fetch_object z w store ref = Inr data \<Longrightarrow> source_bytes z w store previous k ref = Inr data"
  by (auto simp: fetch_object_def source_bytes_def result_simps split: sum.splits)

lemma build_fresh_ok:
  assumes z: "zstd_frames z" and st: "state_ok st ors brs" and fetch: "fetch_object z w store ref = Inr data" and k: "0 < k"
    and bounds: "recorded brs + int (length data) \<le> maxInt64" "length brs + length (cut_blocks k data) < 2 ^ 32"
  shows "\<exists>st' r bs. build_fresh z w store None k ref st = Inr st' \<and> state_ok st' (ors @ [r]) (brs @ bs) \<and> extends st st' \<and>
    object_in z st' (brs @ bs) r data \<and> length bs = length (cut_blocks k data) \<and> recorded bs = int (length data)"
proof -
  have ref: "RawBytes ref = int (length data)" "SHA256 ref = sha256_hex data"
    using fetch_object_verified [OF fetch] by simp_all
  have "0 \<le> recorded brs"
    using st unfolding state_ok_def writer_ok_def by linarith
  then have len: "int (length data) \<le> maxInt64"
    using bounds(1) by linarith
  have "length (cut_blocks k data) < 2 ^ 32"
    using bounds(2) by simp
  then obtain st1 bs where enc: "encode_blocks z (SHA256 ref) (cut_blocks k data) 0 0 st =
      Inr (int (length data), of_nat (length (cut_blocks k data)), st1)"
    and st1: "state_ok st1 ors (brs @ bs)" "extends st st1" and bs: "length bs = length (cut_blocks k data)" "recorded bs = int (length data)"
    "laid_out 0 (map (block_of (packNames st1)) bs)" "blocks_bytes z (pw_dir (writer st1)) (map (block_of (packNames st1)) bs) = Some data"
    using encode_blocks_ok [OF z st, of "cut_blocks k data" 0 0 "SHA256 ref"] bounds len concat_cut_blocks [OF k, of data]
    by (auto dest: cut_blocks_nonempty)
  define r where "r = \<lparr>Digest = sha256 data, ObjectRawBytes = RawBytes ref, FirstBlock = resultBlocks st,
    BlockCount = of_nat (length (cut_blocks k data))\<rparr>"
  have first: "resultBlocks st = int (length brs)"
    using st by (simp add: state_ok_def)
  have count: "unat (BlockCount r) = length bs" "nat (FirstBlock r) = length brs"
    using bs(1) first \<open>length (cut_blocks k data) < 2 ^ 32\<close> by (simp_all add: r_def unat_of_nat32)
  have "slice (length brs) (length brs + length bs) (brs @ bs) = bs"
    by (simp add: slice_def)
  moreover have "object_v3_ok r"
    using len ref first bounds(2) by (auto simp: object_v3_ok_def r_def maxInt64_def intro!: in_int64_nonneg)
  ultimately have "object_in z (add_object r st1) (brs @ bs) r data"
    using bs count ref len first by (simp add: object_in_def Let_def add_object_def r_def)
  moreover have "build_fresh z w store None k ref st = Inr (add_object r st1)"
    using source_bytes_loose [OF fetch, of None k] enc ref
    by (simp add: build_fresh_def record_digest_def decodeDigest_def r_def)
  moreover have "state_ok (add_object r st1) (ors @ [r]) (brs @ bs)" "extends st (add_object r st1)"
    using st1 by (simp_all add: state_ok_def add_object_def extends_def)
  ultimately show ?thesis
    using bs by blast
qed

text \<open>All objects: the records follow the references, and every one of them stays readable.\<close>

lemma build_objects_ok:
  assumes z: "zstd_frames z" and k: "0 < OptBlockBytes opts"
  shows "state_ok st ors brs \<Longrightarrow> list_all2 (object_in z st brs) ors datas \<Longrightarrow>
    list_all2 (\<lambda>ref data. fetch_object z w store ref = Inr data) refs new \<Longrightarrow>
    recorded brs + int (length (concat new)) \<le> maxInt64 \<Longrightarrow>
    length brs + sum_list (map (\<lambda>data. length (cut_blocks (nat (OptBlockBytes opts)) data)) new) < 2 ^ 32 \<Longrightarrow>
    \<exists>st' ors' brs'. build_objects z opts w store None refs st = Inr st' \<and> state_ok st' ors' brs' \<and>
      list_all2 (object_in z st' brs') ors' (datas @ new) \<and> length brs' < 2 ^ 32"
proof (induction refs arbitrary: st ors brs datas new)
  case Nil
  then show ?case
    by auto
next
  case (Cons ref refs)
  then obtain data new' where new: "new = data # new'" and fetch: "fetch_object z w store ref = Inr data"
    and following: "list_all2 (\<lambda>ref data. fetch_object z w store ref = Inr data) refs new'"
    by (auto simp: list_all2_Cons1)
  have "0 < nat (OptBlockBytes opts)"
    using k by simp
  then obtain st1 r bs where fresh: "build_fresh z w store None (nat (OptBlockBytes opts)) ref st = Inr st1"
    and st1: "state_ok st1 (ors @ [r]) (brs @ bs)" "extends st st1" "object_in z st1 (brs @ bs) r data"
    and bs: "length bs = length (cut_blocks (nat (OptBlockBytes opts)) data)" "recorded bs = int (length data)"
    using build_fresh_ok [OF z Cons.prems(1) fetch, of "nat (OptBlockBytes opts)"] Cons.prems(4,5) new by auto
  have "list_all2 (object_in z st1 (brs @ bs)) ors datas"
    using Cons.prems(1,2) st1(2) by (auto simp: state_ok_def intro: list_all2_mono object_in_later)
  then have objs: "list_all2 (object_in z st1 (brs @ bs)) (ors @ [r]) (datas @ [data])"
    using st1(3) by (simp add: list_all2_appendI)
  obtain st' ors' brs' where "build_objects z opts w store None refs st1 = Inr st'" "state_ok st' ors' brs'"
    "list_all2 (object_in z st' brs') ors' ((datas @ [data]) @ new')" "length brs' < 2 ^ 32"
    using Cons.IH [OF st1(1) objs following] Cons.prems(4,5) new bs by auto
  then show ?case
    using fresh new by (auto simp: build_object_def)
qed

end
