(* ===== verification/Pack_Generation.thy ===== *)
theory Pack_Generation
  imports Pack_Build
begin

text \<open>
  What a generation written by \<open>src/internal/pack/build.go\<close> promises: its index opens, its packs hold the blocks the index
  names, its verification succeeds, and reads through \<open>src/internal/pack/resolver.go\<close> return the bytes of the object store; and
  the decision whether the previous generation holds objects that are not referenced any more.
\<close>

section \<open>The index and the packs of a generation\<close>

text \<open>The order of digests is the order of their hexadecimal texts.\<close>

lemma hex_digit_less: "a < 16 \<Longrightarrow> b < 16 \<Longrightarrow> hex_digit a < hex_digit b \<longleftrightarrow> a < b"
  by (auto simp: hex_digit_def less_char_def)

lemma hex_digit_eq: "a < 16 \<Longrightarrow> b < 16 \<Longrightarrow> hex_digit a = hex_digit b \<longleftrightarrow> a = b"
  by (metis hex_value_digit option.inject)

lemma two_digits: "m < n \<longleftrightarrow> m div 16 < n div 16 \<or> m div 16 = n div 16 \<and> m mod 16 < n mod 16" for m n :: nat
proof -
  have "16 * a + c < 16 * b + d \<longleftrightarrow> a < b \<or> a = b \<and> c < d" if "c < 16" "d < 16" for a b c d :: nat
    using that by (cases a b rule: linorder_cases) auto
  from this [of "m mod 16" "n mod 16" "m div 16" "n div 16"] show ?thesis
    by simp
qed

lemma hex_encode_less: "hex_encode a < hex_encode b \<longleftrightarrow> a < b"
proof (induction a arbitrary: b)
  case Nil
  then show ?case
    by (cases b) simp_all
next
  case (Cons x a)
  show ?case
  proof (cases b)
    case Nil
    then show ?thesis
      by simp
  next
    case (Cons y b')
    have lt: "unat x div 16 < 16" "unat y div 16 < 16" "unat x mod 16 < 16" "unat y mod 16 < 16"
      by (simp_all add: less_mult_imp_div_less)
    have "x < y \<longleftrightarrow> unat x div 16 < unat y div 16 \<or> unat x div 16 = unat y div 16 \<and> unat x mod 16 < unat y mod 16"
      unfolding word_less_nat_alt by (rule two_digits)
    moreover have "x = y \<longleftrightarrow> unat x div 16 = unat y div 16 \<and> unat x mod 16 = unat y mod 16"
      by (metis div_mult_mod_eq word_unat_eq_iff)
    ultimately show ?thesis
      using Cons.IH [of b'] lt by (auto simp: Cons hex_digit_less hex_digit_eq)
  qed
qed

lemma expandBlocks_holds:
  assumes "index_holds i ors brs"
  shows "f + n + left \<le> length brs \<Longrightarrow> \<forall>b\<in>set brs. block_good (Packs (meta i)) b \<Longrightarrow>
    laid_out off (map (block_of (Packs (meta i))) (slice (f + n) (f + n + left) brs)) \<Longrightarrow> 0 \<le> off \<Longrightarrow>
    off + recorded (slice (f + n) (f + n + left) brs) \<le> maxInt64 \<Longrightarrow>
    expandBlocks i d (int f) n left off =
      Inr (map (block_of (Packs (meta i))) (slice (f + n) (f + n + left) brs), off + recorded (slice (f + n) (f + n + left) brs))"
proof (induction left arbitrary: n off)
  case 0
  then show ?case
    by simp
next
  case (Suc left)
  let ?names = "Packs (meta i)"
  have n: "f + n < length brs"
    using Suc.prems(1) by simp
  define b S where "b = brs ! (f + n)" and "S = slice (f + (n + 1)) (f + (n + 1) + left) brs"
  have slice: "slice (f + n) (f + n + Suc left) brs = b # S"
    using n by (simp add: slice_def b_def S_def Cons_nth_drop_Suc [symmetric])
  note prems = Suc.prems(1,2) Suc.prems(3,5) [unfolded slice] Suc.prems(4)
  have good: "block_good ?names b"
    using n Suc.prems(2) by (simp add: b_def)
  have "int (f + n) \<le> maxInt64"
    using assms n by (simp add: index_holds_def)
  then have pos: "wrap64 (int f + int n) = int (f + n)"
    by (auto intro!: trans [OF wrap64_id] in_int64_nonneg)
  have off: "RawOffset3 b = off" "laid_out (off + RawBytes3 b) (map (block_of ?names) S)"
    using prems(3) by simp_all
  have "0 \<le> recorded S"
    using Suc.prems(2)
    by (auto simp: recorded_def block_good_def S_def slice_def less_imp_le intro!: sum_list_nonneg dest!: in_set_takeD in_set_dropD)
  then have w: "wrap64 (off + RawBytes3 b) = off + RawBytes3 b"
    using prems(4,5) good by (intro wrap64_id in_int64_nonneg) (simp_all add: block_good_def)
  have "readBlockRecord i (int (f + n)) = Inr b"
    using readBlockRecord_holds [OF assms n] by (simp add: b_def)
  moreover have "expandBlock i d n off b = Inr (block_of ?names b)"
    using good off(1) by (auto simp: expandBlock_def block_good_def block_of_def)
  moreover have "expandBlocks i d (int f) (n + 1) left (off + RawBytes3 b) =
      Inr (map (block_of ?names) S, off + RawBytes3 b + recorded S)"
    unfolding S_def
    using Suc.IH [of "n + 1" "off + RawBytes3 b", folded S_def] prems off(2) good by (simp add: S_def block_good_def add.assoc)
  ultimately show ?case
    unfolding slice using pos w by (simp add: add.assoc)
qed

lemma pack_name_chars: "c \<in> set (pack_name n) \<Longrightarrow> (of_char c :: nat) < 128 \<and> c \<noteq> slash"
  by (auto simp: pack_name_def slash_def split: if_splits dest!: itoa_chars arg_cong [of _ _ "of_char :: char \<Rightarrow> nat"])

lemma split_on_none: "c \<notin> set s \<Longrightarrow> split_on c s = [s]"
  by (induction s) auto

lemma path_base_plain: "s \<noteq> [] \<Longrightarrow> slash \<notin> set s \<Longrightarrow> path_base s = s"
proof -
  assume s: "s \<noteq> []" "slash \<notin> set s"
  then have "dropWhile (\<lambda>c. c = slash) (rev s) = rev s"
    by (cases "rev s") (auto simp: dropWhile_eq_self_iff)
  then show ?thesis
    using s by (simp add: path_base_def Let_def split_on_none)
qed

lemma pack_name_plain:
  "path_base (pack_name n) = pack_name n" "pack_name n \<noteq> ''.''" "pack_name n \<noteq> ''..''" "utf8_string (pack_name n)"
  "pack_name n \<noteq> ''objects.idx''" "pack_name n \<noteq> ''blocks.idx''" "pack_name n \<noteq> ''index.meta.json''"
proof -
  show "path_base (pack_name n) = pack_name n"
    using pack_name_chars [of slash n] by (intro path_base_plain) (auto simp: pack_name_def)
  show "utf8_string (pack_name n)"
    using pack_name_chars by (intro utf8_short) blast
qed (simp_all add: pack_name_def)

lemma check_pack_names_ok:
  "\<forall>name\<in>set names. path_base name = name \<and> name \<noteq> ''.'' \<and> name \<noteq> ''..'' \<Longrightarrow> distinct names \<Longrightarrow> set names \<inter> set seen = {} \<Longrightarrow>
   check_pack_names seen names = Inr ()"
  by (induction seen names rule: check_pack_names.induct) auto

lemma open_packs_ok:
  "\<forall>name\<in>set names. path_base name = name \<and> name \<noteq> ''.'' \<and> name \<noteq> ''..'' \<and> dir name \<noteq> None \<Longrightarrow>
   open_packs dir names opened = Inr (\<lambda>name. if opened name \<noteq> None then opened name else if name \<in> set names then dir name else None)"
  by (induction dir names opened rule: open_packs.induct) (auto simp: generation_file_def fun_eq_iff)

lemma blocks_bytes_cong: "(\<And>b. b \<in> set bs \<Longrightarrow> d (Pack b) = d' (Pack b)) \<Longrightarrow> blocks_bytes z d bs = blocks_bytes z d' bs"
proof (induction bs)
  case (Cons b bs)
  have "decodeBlock z d [] 0 b = decodeBlock z d' [] 0 b"
    using Cons.prems [of b] by (simp add: decodeBlock_def)
  moreover have "blocks_bytes z d bs = blocks_bytes z d' bs"
    using Cons by simp
  ultimately show ?case
    by (simp split: sum.split)
qed simp

text \<open>Blocks that can be read lie within their packs.\<close>

lemma readable_bounds:
  "blocks_bytes z opened bs = Some data \<Longrightarrow> \<forall>b\<in>set bs. 0 < BlockStoredBytes b \<and> 0 \<le> PackOffset b \<Longrightarrow>
   validateObjectBlockBounds digest n bs (resolverPackSizes opened) = Inr ()"
proof (induction bs arbitrary: data n)
  case Nil
  then show ?case
    by simp
next
  case (Cons b bs)
  obtain x y where x: "decodeBlock z opened [] 0 b = Inr x" and y: "blocks_bytes z opened bs = Some y"
    using Cons.prems(1) by (auto split: sum.splits)
  obtain f st where f: "opened (Pack b) = Some f" "file_ReadAt f (nat (BlockStoredBytes b)) (PackOffset b) = Some st"
    using x by (auto simp: decodeBlock_def split: option.splits if_splits)
  then have "PackOffset b + BlockStoredBytes b \<le> int (length f)"
    using Cons.prems(2) by (auto simp: file_ReadAt_def split: if_splits)
  then show ?case
    using f(1) Cons.IH [OF y] Cons.prems(2) by (auto simp: resolverPackSizes_def)
qed

lemma validateV3Records_ok:
  assumes "\<And>k. k < length ors \<Longrightarrow> readObjectRecord i (int k) = Inr (ors ! k)" and "sorted_wrt (<) (map Digest ors)"
    and "\<And>k. k < length ors \<Longrightarrow> \<exists>obj. expandObject i (ors ! k) = Inr obj \<and>
      validateObjectBlockBounds (PackedSHA256 obj) 0 (Blocks obj) sizes = Inr ()"
  shows "n + left = length ors \<Longrightarrow> (0 < n \<longrightarrow> prev = Digest (ors ! (n - 1))) \<Longrightarrow> validateV3Records i sizes n left prev = Inr ()"
proof (induction left arbitrary: n prev)
  case 0
  then show ?case
    by simp
next
  case (Suc left)
  have n: "n < length ors"
    using Suc.prems(1) by simp
  have "n = 0 \<or> prev < Digest (ors ! n)"
    using assms(2) Suc.prems(2) n by (cases "n = 0") (simp_all add: sorted_wrt_map sorted_wrt_iff_nth_less)
  moreover obtain obj where "expandObject i (ors ! n) = Inr obj" "validateObjectBlockBounds (PackedSHA256 obj) 0 (Blocks obj) sizes = Inr ()"
    using assms(3) [OF n] by blast
  moreover have "validateV3Records i sizes (n + 1) left (Digest (ors ! n)) = Inr ()"
    using Suc.IH [of "n + 1" "Digest (ors ! n)"] Suc.prems(1) by simp
  ultimately show ?case
    using assms(1) [OF n] by (simp add: objectAt_v3_def)
qed

lemma verify_objects_ok:
  assumes "\<And>k. k < n + left \<Longrightarrow> \<exists>obj data. objectAt r (int k) = Inr obj \<and> lookupObject r (PackedSHA256 obj) = Inr (Some obj) \<and>
    served z r obj data \<and> sha256_hex data = PackedSHA256 obj"
  shows "cache_sound z r c \<Longrightarrow> verify_objects z r n left c = Inr ()"
  using assms
proof (induction left arbitrary: n c)
  case 0
  then show ?case
    by simp
next
  case (Suc left)
  obtain obj data where obj: "objectAt r (int n) = Inr obj" "lookupObject r (PackedSHA256 obj) = Inr (Some obj)"
    "served z r obj data" "sha256_hex data = PackedSHA256 obj"
    using Suc.prems(2) [of n] by auto
  obtain c' where "verify_read z r obj 0 c = (Inr data, c')" "cache_sound z r c'"
    using verify_read_upto [OF _ obj(2) Suc.prems(1), of "length (Blocks obj)" data 0] obj(3) by (auto simp: served_upto_all)
  moreover have "verify_objects z r (n + 1) left c' = Inr ()" if "cache_sound z r c'" for c'
    using that Suc.prems(2) by (intro Suc.IH) simp_all
  ultimately show ?case
    using obj served_length [OF obj(3)] by simp
qed

section \<open>Objects that are not referenced any more\<close>

lemma sorted_drop_less: "sorted_wrt (<) ps \<Longrightarrow> n < length ps \<Longrightarrow> x \<in> set (drop (Suc n) ps) \<Longrightarrow> ps ! n < x"
  for ps :: "string list"
  by (auto simp: sorted_wrt_iff_nth_less in_set_conv_nth)

lemma dropped_loop_exact:
  assumes count: "objectCount r = int (length ps)" and sorted: "sorted_wrt (<) ps" "'''' \<notin> set ps"
    and at: "\<And>k. k < length ps \<Longrightarrow> \<exists>obj. objectAt r (int k) = Inr obj \<and> PackedSHA256 obj = ps ! k"
  shows "sorted_wrt (<) ds \<Longrightarrow> n \<le> length ps \<Longrightarrow> prev = '''' \<or> n < length ps \<and> prev = ps ! n \<Longrightarrow>
    dropped_loop r ds (int n) prev = Inr (\<not> set (drop n ps) \<subseteq> set ds)"
proof (induction ds arbitrary: n prev)
  case Nil
  then show ?case
    using count by auto
next
  case (Cons d ds)
  show ?case
  proof (cases "n < length ps")
    case False
    then show ?thesis
      using Cons.IH [of n prev] Cons.prems count by simp
  next
    case True
    define p where "p = ps ! n"
    have p: "p \<noteq> ''''" "drop n ps = p # drop (Suc n) ps"
      using sorted(2) True by (auto simp: p_def Cons_nth_drop_Suc in_set_conv_nth)
    have following: "\<forall>x\<in>set (drop (Suc n) ps). p < x" and later: "\<forall>x\<in>set ds. d < x"
      using sorted_drop_less [OF sorted(1) True] Cons.prems(1) by (auto simp: p_def)
    obtain obj where "objectAt r (int n) = Inr obj" "PackedSHA256 obj = p"
      using at [OF True] by (auto simp: p_def)
    then have step: "dropped_loop r (d # ds) (int n) prev =
        (if p < d then Inr True else if p = d then dropped_loop r ds (int n + 1) '''' else dropped_loop r ds (int n) p)"
      using True Cons.prems(3) count p(1) by (auto simp: p_def)
    consider "p < d" | "p = d" | "d < p"
      by fastforce
    then show ?thesis
    proof cases
      case 1
      then show ?thesis
        using step p(2) later by fastforce
    next
      case 2
      then have "set (drop n ps) \<subseteq> set (d # ds) \<longleftrightarrow> set (drop (Suc n) ps) \<subseteq> set ds"
        using p(2) following by auto
      then show ?thesis
        using step 2 Cons.IH [of "Suc n" "''''"] Cons.prems(1) True by (simp add: algebra_simps)
    next
      case 3
      then have "set (drop n ps) \<subseteq> set (d # ds) \<longleftrightarrow> set (drop n ps) \<subseteq> set ds"
        using p(2) following by fastforce
      then show ?thesis
        using step 3 Cons.IH [of n p] Cons.prems(1) True by (auto simp: p_def)
    qed
  qed
qed

lemma loaded_digests:
  assumes "loadResolverResources name dir = Inr r" and "r_v3 r = Some i"
  obtains ps where "objectCount r = int (length ps)" "sorted_wrt (<) ps" "'''' \<notin> set ps"
    "\<And>k. k < length ps \<Longrightarrow> \<exists>obj. objectAt r (int k) = Inr obj \<and> PackedSHA256 obj = ps ! k"
proof -
  note v3 = loadResolver_v3 [OF assms]
  obtain ors where ors: "length ors = nat (V3ObjectCount (meta i))" "\<forall>k<length ors. readObjectRecord i (int k) = Inr (ors ! k)"
    "sorted_wrt (<) (map Digest ors)" "\<forall>k<length ors. \<exists>obj. objectAt_v3 i (int k) = Inr obj"
    using validateV3Records_reads [OF v3(3)] by auto
  have at: "\<exists>obj. objectAt r (int k) = Inr obj \<and> PackedSHA256 obj = hex_encode (Digest (ors ! k))" if k: "k < length ors" for k
  proof -
    obtain obj where obj: "objectAt_v3 i (int k) = Inr obj"
      using ors(4) k by blast
    then have "PackedSHA256 obj = hex_encode (Digest (ors ! k))"
      using ors(2) k by (auto simp: objectAt_v3_def result_simps intro: expandObject_digest)
    then show ?thesis
      using obj v3(1) assms(2) ors(1) k by (auto simp: objectAt_def)
  qed
  have "'''' \<noteq> hex_encode (Digest r)" if "r \<in> set ors" for r
  proof -
    have "length (Digest r) = 32"
      using that ors(2) readObjectRecord_digest by (metis in_set_conv_nth)
    then show ?thesis
      by (cases "Digest r") simp_all
  qed
  then show ?thesis
    using at ors v3(1,2) by (intro that [of "map (\<lambda>r. hex_encode (Digest r)) ors"]) (auto simp: sorted_wrt_map hex_encode_less)
qed

text \<open>C38: The merge that decides whether a generation has to be compacted is exact: over a loaded binary index and the ordered
  digests of the references it reports that an object was dropped exactly when some object of the generation is not
  referenced.\<close>

theorem hasDroppedPackedObjects_exact:
  assumes "loadResolverResources name dir = Inr r" and "r_v3 r = Some i" and "sorted_wrt (<) digests"
  shows "hasDroppedPackedObjects r digests =
    Inr (\<exists>k<nat (objectCount r). \<exists>obj. objectAt r (int k) = Inr obj \<and> PackedSHA256 obj \<notin> set digests)"
proof -
  obtain ps where ps: "objectCount r = int (length ps)" "sorted_wrt (<) ps" "'''' \<notin> set ps"
    "\<And>k. k < length ps \<Longrightarrow> \<exists>obj. objectAt r (int k) = Inr obj \<and> PackedSHA256 obj = ps ! k"
    using loaded_digests [OF assms(1,2)] by blast
  have "(\<not> set ps \<subseteq> set digests) \<longleftrightarrow> (\<exists>k<length ps. ps ! k \<notin> set digests)"
    by (metis in_set_conv_nth subset_iff)
  also have "\<dots> \<longleftrightarrow> (\<exists>k<length ps. \<exists>obj. objectAt r (int k) = Inr obj \<and> PackedSHA256 obj \<notin> set digests)"
    using ps(4) by (metis Inr_inject)
  finally show ?thesis
    using dropped_loop_exact [OF ps(1-3) ps(4) assms(3), of 0 "''''"] ps(1) by (simp add: hasDroppedPackedObjects_def)
qed

theorem hasDroppedPackedObjects_exact_witness:
  "hasDroppedPackedObjects gen_resolver [] = Inr True \<and> hasDroppedPackedObjects gen_resolver [PackedSHA256 gen_packed] = Inr False"
proof -
  have at: "objectAt gen_resolver 0 = Inr gen_packed" "objectCount gen_resolver = 1" "r_v3 gen_resolver = Some gen_index"
    using gen_objectAt by (simp_all add: objectAt_def gen_resolver_def)
  show ?thesis
    using hasDroppedPackedObjects_exact [OF gen_loaded at(3), of "[]"]
      hasDroppedPackedObjects_exact [OF gen_loaded at(3), of "[PackedSHA256 gen_packed]"] at(1,2) by simp
qed

section \<open>A generation is read back\<close>

text \<open>The index and the resolver of the generation that a state describes.\<close>

definition built_index :: "index_v3_meta \<Rightarrow> build_state \<Rightarrow> index_v3" where
  "built_index m st = \<lparr>meta = m, objects_file = objectsOut st, blocks_file = blocksOut st\<rparr>"

definition built_object :: "build_state \<Rightarrow> block_v3 list \<Rightarrow> object_v3 \<Rightarrow> packed_object" where
  "built_object st brs r = \<lparr>PackedSHA256 = hex_encode (Digest r), PackedRawBytes = ObjectRawBytes r,
     Blocks = map (block_of (packNames st)) (slice (nat (FirstBlock r)) (nat (FirstBlock r) + unat (BlockCount r)) brs)\<rparr>"

definition built_resolver :: "index_v3_meta \<Rightarrow> build_state \<Rightarrow> resolver" where
  "built_resolver m st = \<lparr>r_index = zero_index, r_objects = (\<lambda>_. None), r_v3 = Some (built_index m st),
     r_generation = V3Generation m, objectCount = V3ObjectCount m,
     packs = (\<lambda>name. if name \<in> set (packNames st) then pw_dir (writer st) name else None)\<rparr>"

text \<open>The state after all objects have been recorded, in the order of their digests.\<close>

definition complete :: "zstd \<Rightarrow> build_state \<Rightarrow> object_v3 list \<Rightarrow> block_v3 list \<Rightarrow> bytes list \<Rightarrow> bool" where
  "complete z st ors brs datas \<longleftrightarrow> state_ok st ors brs \<and> list_all2 (object_in z st brs) ors datas \<and>
     length brs < 2 ^ 32 \<and> length ors < 2 ^ 32 \<and> sorted_wrt (<) (map Digest ors)"

definition describes :: "index_v3_meta \<Rightarrow> build_state \<Rightarrow> object_v3 list \<Rightarrow> bool" where
  "describes m st ors \<longleftrightarrow> V3ObjectCount m = int (length ors) \<and> V3BlockCount m = resultBlocks st \<and> Packs m = packNames st"

lemma built_index_holds:
  assumes "complete z st ors brs datas" and "describes m st ors"
  shows "index_holds (built_index m st) ors brs"
proof -
  have "object_v3_ok r" if "r \<in> set ors" for r
    using assms(1) that by (auto simp: complete_def list_all2_conv_all_nth object_in_def Let_def in_set_conv_nth)
  moreover have "block_v3_ok b" if "b \<in> set brs" for b
    using assms(1) that by (simp add: complete_def state_ok_def block_good_def)
  ultimately show ?thesis
    using assms by (simp add: index_holds_def built_index_def complete_def describes_def state_ok_def maxInt64_def)
qed

lemma expandBlocks_all:
  assumes "index_holds i ors brs" and "f + c \<le> length brs" and "\<forall>b\<in>set brs. block_good names b" and "Packs (meta i) = names"
    and "laid_out 0 (map (block_of names) (slice f (f + c) brs))" and "recorded (slice f (f + c) brs) \<le> maxInt64"
  shows "expandBlocks i d (int f) 0 c 0 = Inr (map (block_of names) (slice f (f + c) brs), recorded (slice f (f + c) brs))"
  using expandBlocks_holds [OF assms(1), of f 0 c 0 d] assms(2-6) by simp

lemma built_object_expand:
  assumes built: "complete z st ors brs datas" and m: "describes m st ors" and r: "object_in z st brs r data"
  shows "expandObject (built_index m st) r = Inr (built_object st brs r)"
proof -
  let ?i = "built_index m st"
  define f c where "f = nat (FirstBlock r)" and "c = unat (BlockCount r)"
  define bs where "bs = slice f (f + c) brs"
  have r': "0 \<le> FirstBlock r" "f + c \<le> length brs" "laid_out 0 (map (block_of (packNames st)) bs)"
    "blocks_bytes z (pw_dir (writer st)) (map (block_of (packNames st)) bs) = Some data" "ObjectRawBytes r = int (length data)"
    "int (length data) \<le> maxInt64"
    using r by (simp_all add: object_in_def Let_def bs_def f_def c_def)
  have names: "Packs (meta ?i) = packNames st" "V3BlockCount (meta ?i) = int (length brs)"
    using built m by (simp_all add: built_index_def describes_def complete_def state_ok_def)
  have total: "recorded bs = int (length data)"
    using blocks_bytes_length [OF r'(4)] by (simp add: recorded_def raw_total_def comp_def)
  have good: "\<forall>b\<in>set brs. block_good (packNames st) b"
    using built by (simp add: complete_def state_ok_def)
  have "expandBlocks ?i (hex_encode (Digest r)) (int f) 0 c 0 = Inr (map (block_of (packNames st)) bs, recorded bs)"
    unfolding bs_def using good r'(2,3,6) total names(1) built_index_holds [OF built m] unfolding bs_def
    by (metis expandBlocks_all)
  moreover have first: "int f = FirstBlock r"
    using r'(1) by (simp add: f_def)
  moreover have "uint (BlockCount r) = int c"
    by (simp add: c_def)
  then have "uint (BlockCount r) \<le> V3BlockCount (meta ?i) - FirstBlock r"
    using r'(2) names(2) first by linarith
  ultimately show ?thesis
    using r'(1,5) total by (simp add: expandObject_def built_object_def bs_def f_def c_def)
qed

text \<open>The opened packs are those of the writer.\<close>

lemma built_packs:
  assumes "state_ok st ors brs" and "b \<in> set brs"
  shows "packs (built_resolver m st) (Pack (block_of (packNames st) b)) = pw_dir (writer st) (Pack (block_of (packNames st) b))"
  using assms by (simp add: built_resolver_def state_ok_def block_good_def block_of_def)

lemma built_served:
  assumes "state_ok st ors brs" and "object_in z st brs r data"
  shows "served z (built_resolver m st) (built_object st brs r) data"
proof -
  let ?bs = "slice (nat (FirstBlock r)) (nat (FirstBlock r) + unat (BlockCount r)) brs"
  have r: "laid_out 0 (map (block_of (packNames st)) ?bs)" "ObjectRawBytes r = int (length data)" "int (length data) \<le> maxInt64"
    "blocks_bytes z (pw_dir (writer st)) (map (block_of (packNames st)) ?bs) = Some data"
    using assms(2) by (simp_all add: object_in_def Let_def)
  have "blocks_bytes z (packs (built_resolver m st)) (map (block_of (packNames st)) ?bs) = Some data"
    using r(4) built_packs [OF assms(1)]
    by (subst blocks_bytes_cong [where d' = "pw_dir (writer st)"]) (auto simp: slice_def dest!: in_set_takeD in_set_dropD)
  then show ?thesis
    using r blocks_bytes_length [OF r(4)] by (simp add: served_def object_wf_def built_object_def)
qed

lemma built_bounds:
  assumes "state_ok st ors brs" and "object_in z st brs r data"
  shows "validateObjectBlockBounds (PackedSHA256 (built_object st brs r)) 0 (Blocks (built_object st brs r))
    (resolverPackSizes (packs (built_resolver m st))) = Inr ()"
proof (rule readable_bounds)
  show "blocks_bytes z (packs (built_resolver m st)) (Blocks (built_object st brs r)) = Some data"
    using built_served [OF assms, of m] by (simp add: served_def)
  show "\<forall>b\<in>set (Blocks (built_object st brs r)). 0 < BlockStoredBytes b \<and> 0 \<le> PackOffset b"
    using assms(1)
    by (auto simp: built_object_def block_of_def slice_def state_ok_def block_good_def dest!: in_set_takeD in_set_dropD)
qed

lemma pack_file_name:
  assumes "state_ok st ors brs" and "name \<in> set (packNames st)"
  obtains n where "name = pack_name n"
  using assms unfolding state_ok_def writer_ok_def by blast

definition meta_fits :: "index_v3_meta \<Rightarrow> bool" where
  "meta_fits m \<longleftrightarrow> V3Version m = 3 \<and> V3Kind m = ''pack-v3'' \<and> safeGeneration (V3Generation m) \<and> utf8_string (V3Generation m) \<and>
     utf8_string (V3CreatedAt m) \<and> 0 < V3BlockBytes m \<and> in_int64 (V3BlockBytes m)"

lemma built_index_opens:
  assumes built: "complete z st ors brs datas" and m: "describes m st ors" "meta_fits m"
    and name: "name = V3Generation m \<or> has_prefix ''.generation-'' name"
  shows "openIndexV3 name (build_directory m st) = Inr (built_index m st)"
proof (rule openIndexV3_written)
  have st: "state_ok st ors brs" and small: "length brs < 2 ^ 32" "length ors < 2 ^ 32"
    using built by (simp_all add: complete_def)
  have names: "path_base name = name \<and> name \<noteq> ''.'' \<and> name \<noteq> ''..'' \<and> utf8_string name" if "name \<in> set (packNames st)" for name
    using that pack_name_plain by (metis pack_file_name [OF st])
  have counts: "V3ObjectCount m = int (length ors)" "V3BlockCount m = int (length brs)" "Packs m = packNames st"
    using m(1) st by (simp_all add: describes_def state_ok_def)
  have "in_int64 (int (length ors))" "in_int64 (int (length brs))"
    using small by (auto simp: maxInt64_def intro!: in_int64_nonneg)
  moreover have "utf8_string ''pack-v3''" "in_int64 3"
    by (simp_all add: utf8_short in_int64_def maxInt64_def)
  ultimately show "meta_ok (meta (built_index m st))"
    using m(2) counts names by (simp add: meta_ok_def built_index_def meta_fits_def)
  have "check_pack_names [] (packNames st) = Inr ()"
    using names st by (intro check_pack_names_ok) (simp_all add: state_ok_def)
  then show "validateIndexV3Meta (meta (built_index m st)) name = Inr ()"
    using m(2) counts name by (auto simp: validateIndexV3Meta_def built_index_def meta_fits_def)
  show "validateSizes (built_index m st) = Inr ()"
    by (rule validateSizes_holds [OF built_index_holds [OF built m(1)]])
qed (simp_all add: build_directory_def built_index_def)

lemma built_resolver_loads:
  assumes built: "complete z st ors brs datas" and m: "describes m st ors" "meta_fits m"
    and name: "name = V3Generation m \<or> has_prefix ''.generation-'' name"
  shows "loadResolverResources name (build_directory m st) = Inr (built_resolver m st)"
proof -
  let ?dir = "build_directory m st" and ?i = "built_index m st" and ?r = "built_resolver m st"
  have st: "state_ok st ors brs" and objs: "list_all2 (object_in z st brs) ors datas"
    using built by (simp_all add: complete_def)
  have plain: "path_base name = name \<and> name \<noteq> ''.'' \<and> name \<noteq> ''..'' \<and> ?dir name = pw_dir (writer st) name"
    if named: "name \<in> set (packNames st)" for name
  proof -
    obtain n where "name = pack_name n"
      using pack_file_name [OF st named] by blast
    then show ?thesis
      using pack_name_plain [of n] by (simp add: build_directory_def)
  qed
  have "open_packs ?dir (packNames st) (\<lambda>_. None) = Inr (\<lambda>name. if name \<in> set (packNames st) then ?dir name else None)"
    using plain st open_packs_ok [of "packNames st" ?dir "\<lambda>_. None"] by (simp add: state_ok_def)
  moreover have "(\<lambda>name. if name \<in> set (packNames st) then ?dir name else None) = packs ?r"
    using plain by (auto simp: built_resolver_def)
  ultimately have opened: "open_packs ?dir (packNames st) (\<lambda>_. None) = Inr (packs ?r)"
    by simp
  have "\<exists>obj. expandObject ?i (ors ! k) = Inr obj \<and>
      validateObjectBlockBounds (PackedSHA256 obj) 0 (Blocks obj) (resolverPackSizes (packs ?r)) = Inr ()" if "k < length ors" for k
    using built_object_expand [OF built m(1)] built_bounds [OF st] list_all2_nthD [OF objs that] by blast
  then have "validateV3Records ?i (resolverPackSizes (packs ?r)) 0 (length ors) (replicate 32 0) = Inr ()"
    using readObjectRecord_holds [OF built_index_holds [OF built m(1)]] built
    by (intro validateV3Records_ok [where ors = ors]) (simp_all add: complete_def)
  then have valid: "validateResolverBounds ?r (resolverPackSizes (packs ?r)) = Inr ()"
    using m(1) by (simp add: validateResolverBounds_def built_resolver_def built_index_def describes_def)
  have "open_index name ?dir = Inr (zero_index, Some ?i)"
    using built_index_opens [OF assms] by (simp add: open_index_def build_directory_def)
  then show ?thesis
    using opened valid m(1)
    by (simp add: loadResolverResources_def zero_index_def index_objects_def built_resolver_def built_index_def describes_def)
qed

lemma built_lookup:
  assumes built: "complete z st ors brs datas" and m: "describes m st ors" "meta_fits m" and k: "k < length ors"
  shows "objectAt (built_resolver m st) (int k) = Inr (built_object st brs (ors ! k))"
    and "lookupObject (built_resolver m st) (sha256_hex (datas ! k)) = Inr (Some (built_object st brs (ors ! k)))"
    and "served z (built_resolver m st) (built_object st brs (ors ! k)) (datas ! k)"
    and "sha256_hex (datas ! k) = PackedSHA256 (built_object st brs (ors ! k))"
proof -
  have obj: "object_in z st brs (ors ! k) (datas ! k)" and st: "state_ok st ors brs"
    using built k by (simp_all add: complete_def list_all2_conv_all_nth)
  show at: "objectAt (built_resolver m st) (int k) = Inr (built_object st brs (ors ! k))"
    using readObjectRecord_holds [OF built_index_holds [OF built m(1)] k] built_object_expand [OF built m(1) obj] k m(1)
    by (simp add: objectAt_def objectAt_v3_def built_resolver_def describes_def)
  show digest: "sha256_hex (datas ! k) = PackedSHA256 (built_object st brs (ors ! k))"
    using obj by (simp add: built_object_def object_in_def Let_def sha256_hex_def)
  show "lookupObject (built_resolver m st) (sha256_hex (datas ! k)) = Inr (Some (built_object st brs (ors ! k)))"
    unfolding digest by (rule objectAt_lookup [OF built_resolver_loads [OF built m] at]) blast
  show "served z (built_resolver m st) (built_object st brs (ors ! k)) (datas ! k)"
    by (rule built_served [OF st obj])
qed

lemma built_verifies:
  assumes built: "complete z st ors brs datas" and m: "describes m st ors" "meta_fits m"
  shows "verifyGeneration z (''.generation-'' @ suffix) (build_directory m st) = Inr ()"
proof -
  have "verify_objects z (built_resolver m st) 0 (length ors) (newBlockCache 0) = Inr ()"
    using built_lookup [OF built m] by (intro verify_objects_ok cache_sound_new) (metis add_0)
  then show ?thesis
    using built_resolver_loads [OF built m, of "''.generation-'' @ suffix"] m(1) by (simp add: has_prefix_def verifyGeneration_def built_resolver_def describes_def)
qed

text \<open>What a build is given: verified loose objects in the order of their digests, within the bounds of the record formats.\<close>

definition buildable :: "zstd \<Rightarrow> build_options \<Rightarrow> fs \<Rightarrow> object_store \<Rightarrow> object_ref list \<Rightarrow> bytes list \<Rightarrow> bool" where
  "buildable z opts w store refs datas \<longleftrightarrow>
     list_all2 (\<lambda>ref data. fetch_object z w store ref = Inr data) refs datas \<and> sorted_wrt (<) (map SHA256 refs) \<and>
     int (length (concat datas)) \<le> maxInt64 \<and> length refs < 2 ^ 32 \<and> in_int64 (OptBlockBytes opts) \<and>
     sum_list (map (\<lambda>data. length (cut_blocks (nat (OptBlockBytes (default_build_options opts))) data)) datas) < 2 ^ 32"

definition good_names :: "string \<Rightarrow> string \<Rightarrow> bool" where
  "good_names suffix createdAt \<longleftrightarrow> safeGeneration (''gen-'' @ suffix) \<and> utf8_string (''gen-'' @ suffix) \<and> utf8_string createdAt"

lemma start_build_ok: "state_ok (start_build opts) [] []"
  by (simp add: state_ok_def start_build_def writer_ok_def)

lemma build_completes:
  assumes z: "zstd_frames z" and refs: "buildable z opts w store refs datas"
  defines "o' \<equiv> default_build_options opts"
  obtains st ors brs where "build_objects z o' w store None refs (start_build o') = Inr st" "complete z st ors brs datas"
    "length ors = length refs"
proof -
  have fetch: "list_all2 (\<lambda>ref data. fetch_object z w store ref = Inr data) refs datas"
    and bounds: "int (length (concat datas)) \<le> maxInt64" "length refs < 2 ^ 32"
    "sum_list (map (\<lambda>data. length (cut_blocks (nat (OptBlockBytes o')) data)) datas) < 2 ^ 32"
    and sorted: "sorted_wrt (<) (map SHA256 refs)"
    using refs by (simp_all add: buildable_def o'_def)
  have pos: "0 < OptBlockBytes o'"
    by (simp add: o'_def default_build_options_def)
  obtain st ors brs where st: "build_objects z o' w store None refs (start_build o') = Inr st" "state_ok st ors brs"
    "list_all2 (object_in z st brs) ors datas" "length brs < 2 ^ 32"
    using build_objects_ok [OF z pos start_build_ok [of o'] _ fetch, where datas = "[]"] bounds by auto
  have len: "length ors = length refs" "length datas = length refs"
    using list_all2_lengthD [OF st(3)] list_all2_lengthD [OF fetch] by simp_all
  have "map SHA256 refs = map hex_encode (map Digest ors)"
  proof (rule nth_equalityI)
    fix k assume "k < length (map SHA256 refs)"
    then have k: "k < length refs"
      by simp
    show "map SHA256 refs ! k = map hex_encode (map Digest ors) ! k"
      using fetch_object_verified [OF list_all2_nthD [OF fetch k]] list_all2_nthD [OF st(3), of k] k len
      by (simp add: object_in_def Let_def sha256_hex_def)
  qed (simp add: len)
  then have "sorted_wrt (<) (map Digest ors)"
    using sorted by (simp add: sorted_wrt_map hex_encode_less)
  then show ?thesis
    using st bounds(2) len by (intro that [OF st(1)]) (simp_all add: complete_def)
qed

lemma build_serves:
  assumes z: "zstd_frames z" and refs: "buildable z opts w store refs datas" and names: "good_names suffix createdAt"
  obtains dir r where "build_generation z opts w store None refs suffix createdAt = Inr dir"
    "loadResolverResources (''gen-'' @ suffix) dir = Inr r"
    "\<And>k. k < length refs \<Longrightarrow> \<exists>obj. served z r obj (datas ! k) \<and> lookupObject r (PackedSHA256 obj) = Inr (Some obj) \<and> lookup_ref r (refs ! k) = Inr obj"
proof -
  define o' where "o' = default_build_options opts"
  obtain st ors brs where st: "build_objects z o' w store None refs (start_build o') = Inr st" and built: "complete z st ors brs datas"
    and len: "length ors = length refs"
    using build_completes [OF z refs] by (auto simp: o'_def)
  define m where "m = build_meta o' (''gen-'' @ suffix) createdAt (length refs) st"
  have m: "describes m st ors" "meta_fits m"
    using len names refs
    by (auto simp: m_def build_meta_def describes_def meta_fits_def good_names_def buildable_def o'_def default_build_options_def
        in_int64_def maxInt64_def)
  have "build_generation z opts w store None refs suffix createdAt = Inr (build_directory m st)"
    using st built_verifies [OF built m] by (simp add: build_generation_def m_def Let_def flip: o'_def)
  moreover have "\<exists>obj. served z (built_resolver m st) obj (datas ! k) \<and> lookupObject (built_resolver m st) (PackedSHA256 obj) = Inr (Some obj) \<and>
      lookup_ref (built_resolver m st) (refs ! k) = Inr obj" if k: "k < length refs" for k
  proof (intro exI conjI)
    note found = built_lookup [OF built m, of k]
    have ref: "SHA256 (refs ! k) = sha256_hex (datas ! k)" "RawBytes (refs ! k) = int (length (datas ! k))"
      using refs k by (auto simp: buildable_def dest!: list_all2_nthD [where p = k] fetch_object_verified)
    show "served z (built_resolver m st) (built_object st brs (ors ! k)) (datas ! k)"
      "lookupObject (built_resolver m st) (PackedSHA256 (built_object st brs (ors ! k))) = Inr (Some (built_object st brs (ors ! k)))"
      using found k len by auto
    show "lookup_ref (built_resolver m st) (refs ! k) = Inr (built_object st brs (ors ! k))"
      using found k len ref served_length [OF found(3)] by (auto simp: lookup_ref_def)
  qed
  ultimately show ?thesis
    using that built_resolver_loads [OF built m, of "''gen-'' @ suffix"] by (simp add: m_def build_meta_def)
qed

text \<open>C5: A generation built from verified loose objects passes its own verification, opens under its final name, and
  serves every object: a positioned read returns exactly the bytes the object store held, with end-of-file exactly when
  they run out, whether a block was stored compressed or as it is and whatever the cache holds.\<close>

theorem Build_ReadAt:
  assumes "zstd_frames z" and "buildable z opts w store refs datas" and "good_names suffix createdAt"
  shows "\<exists>dir r. build_generation z opts w store None refs suffix createdAt = Inr dir \<and>
    loadResolverResources (''gen-'' @ suffix) dir = Inr r \<and>
    (\<forall>k need p c. k < length refs \<and> cache_sound z r c \<longrightarrow>
       (\<exists>c'. Resolver_ReadAt z r (refs ! k) need (int p) c =
          (take need (drop p (datas ! k)), (if length (datas ! k) - p < need then AtEOF else AtNil), c') \<and> cache_sound z r c'))"
  using assms
proof (rule build_serves)
  fix dir r
  assume built: "build_generation z opts w store None refs suffix createdAt = Inr dir" "loadResolverResources (''gen-'' @ suffix) dir = Inr r"
    and objs: "\<And>k. k < length refs \<Longrightarrow> \<exists>obj. served z r obj (datas ! k) \<and> lookupObject r (PackedSHA256 obj) = Inr (Some obj) \<and>
      lookup_ref r (refs ! k) = Inr obj"
  have "\<exists>c'. Resolver_ReadAt z r (refs ! k) need (int p) c =
      (take need (drop p (datas ! k)), (if length (datas ! k) - p < need then AtEOF else AtNil), c') \<and> cache_sound z r c'"
    if "k < length refs" "cache_sound z r c" for k need p c
    using objs [OF that(1)] Resolver_ReadAt_any that(2) by blast
  then show ?thesis
    using built by blast
qed

text \<open>A store with a single loose object.\<close>

definition loose_ref :: object_ref where
  "loose_ref = \<lparr>SHA256 = sha256_hex [65], RawBytes = 1, StoredBytes = 1\<rparr>"

definition loose_fs :: fs where
  "loose_fs = install_file (ObjectPath (NewObjectStore ''/s'') (sha256_hex [65])) [65] empty_fs"

definition loose_options :: build_options where
  "loose_options = \<lparr>Incremental = False, OptBlockBytes = 0, OptPackBytes = 0\<rparr>"

lemma loose_buildable: "buildable plain_zstd loose_options loose_fs (NewObjectStore ''/s'') [loose_ref] [[65]]"
proof -
  have "fetch_object plain_zstd loose_fs (NewObjectStore ''/s'') loose_ref = Inr [65]"
    by (simp add: fetch_is_Read Read_def loose_fs_def loose_ref_def plain_zstd_def verify_object_def ObjectPath_def)
  then show ?thesis
    by (simp add: buildable_def loose_options_def default_build_options_def maxInt64_def in_int64_def cut_blocks.simps)
qed

theorem Build_ReadAt_witness:
  "\<exists>dir r. build_generation plain_zstd loose_options loose_fs (NewObjectStore ''/s'') None [loose_ref] ''1'' ''t'' = Inr dir \<and>
    loadResolverResources ''gen-1'' dir = Inr r \<and> fst (Resolver_ReadAt plain_zstd r loose_ref 8 0 (newBlockCache 0)) = [65]"
proof -
  have z: "zstd_frames plain_zstd"
    by (simp add: zstd_frames_def zstd_ok_def plain_zstd_def)
  have names: "good_names ''1'' ''t''"
    by (simp add: good_names_def safeGeneration_def path_base_plain slash_def utf8_short)
  obtain dir r where built: "build_generation plain_zstd loose_options loose_fs (NewObjectStore ''/s'') None [loose_ref] ''1'' ''t'' = Inr dir"
    "loadResolverResources (''gen-'' @ ''1'') dir = Inr r"
    and reads: "\<forall>k need p c. k < length [loose_ref] \<and> cache_sound plain_zstd r c \<longrightarrow>
       (\<exists>c'. Resolver_ReadAt plain_zstd r ([loose_ref] ! k) need (int p) c =
          (take need (drop p ([[65]] ! k)), (if length ([[65 :: byte]] ! k) - p < need then AtEOF else AtNil), c') \<and> cache_sound plain_zstd r c')"
    using Build_ReadAt [OF z loose_buildable names] by blast
  have "\<exists>c'. Resolver_ReadAt plain_zstd r loose_ref 8 0 (newBlockCache 0) = ([65], AtEOF, c')"
    using spec [OF spec [OF spec [OF spec [OF reads, of 0], of 8], of 0], of "newBlockCache 0"] cache_sound_new by auto
  then have "fst (Resolver_ReadAt plain_zstd r loose_ref 8 0 (newBlockCache 0)) = [65]"
    by auto
  then show ?thesis
    using built by auto
qed

end
