(* ===== verification/Session_State.thy ===== *)
theory Session_State
  imports Manifest Fs
begin

text \<open>
  The persisted state of a virtual session, \<open>src/internal/vfs/state.go\<close>, and the journal of its operations,
  \<open>src/internal/vfs/journal.go\<close>: the JSON texts that are written, how they are read back, and the validation of a state
  against the directory it belongs to (\<open>src/internal/vfs/state_checkpoint.go\<close>).
\<close>

section \<open>Session states\<close>

record native_file =
  NativePath :: string
  NativeBytes :: int64
  NativeSHA256 :: string

record session_state =
  StVersion :: int64
  SessionID :: string
  StGeneration :: uint64
  StManifestPath :: string
  ManifestSHA256 :: string
  BaseBytes :: int64
  BaseSHA256 :: string
  DeltaPath :: string
  BackingPath :: string
  NativeSnapshot :: native_file

datatype state_error =
    StateMissing string
  | StateUndecodable
  | PartialNative
  | InvalidNative
  | InvalidLegacyState
  | LegacyState session_state
  | InvalidState
  | WrongDirectory
  | UnsafeManifestPath
  | UnsafeDataPath
  | JournalUndecodable
  | JournalLineTooLong

definition sessionStateVersion :: int where "sessionStateVersion = 2"
definition legacySessionStateVersion :: int where "legacySessionStateVersion = 1"

text \<open>Sixty-four small hexadecimal digits.\<close>

definition validStateSHA256 :: "string \<Rightarrow> bool" where
  "validStateSHA256 v \<longleftrightarrow> length v = 64 \<and> (\<forall>c\<in>set v. \<not> (65 \<le> (of_char c :: nat) \<and> (of_char c :: nat) \<le> 90)) \<and> hex_decode v \<noteq> None"

definition enc_uint :: "uint64 \<Rightarrow> jval" where
  "enc_uint n = enc_int (uint n)"

definition dec_uint :: "jval \<Rightarrow> uint64 \<Rightarrow> uint64 option" where
  "dec_uint v old =
     (case v of
        JNum t \<Rightarrow> (case parse_digits t of Some n \<Rightarrow> if n < 2 ^ 64 then Some (of_nat n) else None | None \<Rightarrow> None)
      | JNull \<Rightarrow> Some old
      | _ \<Rightarrow> None)"

definition native_json :: "native_file \<Rightarrow> jval" where
  "native_json f = JObj (member ''path'' (enc_string (NativePath f)) @ member ''bytes'' (enc_int (NativeBytes f)) @
     member ''sha256'' (enc_string (NativeSHA256 f)))"

definition state_json :: "session_state \<Rightarrow> jval" where
  "state_json s = JObj (member ''version'' (enc_int (StVersion s)) @ member ''session_id'' (enc_string (SessionID s)) @
     member ''generation'' (enc_uint (StGeneration s)) @ member ''manifest_path'' (enc_string (StManifestPath s)) @
     member ''manifest_sha256'' (enc_string (ManifestSHA256 s)) @ member ''base_bytes'' (enc_int (BaseBytes s)) @
     member ''base_sha256'' (enc_string (BaseSHA256 s)) @ member ''delta_path'' (enc_string (DeltaPath s)) @
     omitempty (BackingPath s = '''') (member ''backing_path'' (enc_string (BackingPath s))) @
     member ''native_snapshot'' (native_json (NativeSnapshot s)))"

definition native_field :: "bytes \<Rightarrow> jval \<Rightarrow> native_file \<Rightarrow> native_file option" where
  "native_field k v f =
     (if field_is k ''path'' then map_option (\<lambda>x. f\<lparr>NativePath := x\<rparr>) (dec_string v (NativePath f))
      else if field_is k ''bytes'' then map_option (\<lambda>x. f\<lparr>NativeBytes := x\<rparr>) (dec_int v (NativeBytes f))
      else if field_is k ''sha256'' then map_option (\<lambda>x. f\<lparr>NativeSHA256 := x\<rparr>) (dec_string v (NativeSHA256 f))
      else Some f)"

definition state_field :: "bytes \<Rightarrow> jval \<Rightarrow> session_state \<Rightarrow> session_state option" where
  "state_field k v s =
     (if field_is k ''version'' then map_option (\<lambda>x. s\<lparr>StVersion := x\<rparr>) (dec_int v (StVersion s))
      else if field_is k ''session_id'' then map_option (\<lambda>x. s\<lparr>SessionID := x\<rparr>) (dec_string v (SessionID s))
      else if field_is k ''generation'' then map_option (\<lambda>x. s\<lparr>StGeneration := x\<rparr>) (dec_uint v (StGeneration s))
      else if field_is k ''manifest_path'' then map_option (\<lambda>x. s\<lparr>StManifestPath := x\<rparr>) (dec_string v (StManifestPath s))
      else if field_is k ''manifest_sha256'' then map_option (\<lambda>x. s\<lparr>ManifestSHA256 := x\<rparr>) (dec_string v (ManifestSHA256 s))
      else if field_is k ''base_bytes'' then map_option (\<lambda>x. s\<lparr>BaseBytes := x\<rparr>) (dec_int v (BaseBytes s))
      else if field_is k ''base_sha256'' then map_option (\<lambda>x. s\<lparr>BaseSHA256 := x\<rparr>) (dec_string v (BaseSHA256 s))
      else if field_is k ''delta_path'' then map_option (\<lambda>x. s\<lparr>DeltaPath := x\<rparr>) (dec_string v (DeltaPath s))
      else if field_is k ''backing_path'' then map_option (\<lambda>x. s\<lparr>BackingPath := x\<rparr>) (dec_string v (BackingPath s))
      else if field_is k ''native_snapshot'' then map_option (\<lambda>x. s\<lparr>NativeSnapshot := x\<rparr>) (dec_struct native_field v (NativeSnapshot s))
      else Some s)"

definition zero_native :: native_file where
  "zero_native = \<lparr>NativePath = '''', NativeBytes = 0, NativeSHA256 = ''''\<rparr>"

definition zero_state :: session_state where
  "zero_state = \<lparr>StVersion = 0, SessionID = '''', StGeneration = 0, StManifestPath = '''', ManifestSHA256 = '''', BaseBytes = 0,
     BaseSHA256 = '''', DeltaPath = '''', BackingPath = '''', NativeSnapshot = zero_native\<rparr>"

definition encodeSessionState :: "session_state \<Rightarrow> bytes" where
  "encodeSessionState s = MarshalIndent (state_json s) @ [10]"

definition check_native :: "native_file \<Rightarrow> state_error + unit" where
  "check_native f =
     (if NativePath f = '''' then (if NativeBytes f \<noteq> 0 \<or> NativeSHA256 f \<noteq> '''' then Inl PartialNative else Inr ())
      else if NativeBytes f < 0 \<or> \<not> validStateSHA256 (NativeSHA256 f) then Inl InvalidNative else Inr ())"

text \<open>The conditions on a state of the current version, and those on one of the legacy version.\<close>

definition current_state :: "session_state \<Rightarrow> bool" where
  "current_state s \<longleftrightarrow> StVersion s = sessionStateVersion \<and> safeSessionID (SessionID s) \<and> StGeneration s \<noteq> 0 \<and> 0 \<le> BaseBytes s \<and>
     validStateSHA256 (BaseSHA256 s) \<and> validStateSHA256 (ManifestSHA256 s) \<and> DeltaPath s \<noteq> ''''"

definition legacy_state :: "session_state \<Rightarrow> bool" where
  "legacy_state s \<longleftrightarrow> safeSessionID (SessionID s) \<and> StGeneration s \<noteq> 0 \<and> 0 \<le> BaseBytes s \<and> validStateSHA256 (BaseSHA256 s) \<and>
     DeltaPath s \<noteq> ''''"

definition readSessionState :: "string \<Rightarrow> fs \<Rightarrow> state_error + (session_state \<times> bytes)" where
  "readSessionState path w =
     (case ReadFile w path of
        None \<Rightarrow> Inl (StateMissing path)
      | Some data \<Rightarrow>
          (case Option.bind (parse_json data) (\<lambda>v. dec_struct state_field v zero_state) of
             None \<Rightarrow> Inl StateUndecodable
           | Some s \<Rightarrow>
               rbind (check_native (NativeSnapshot s)) (\<lambda>_.
               if StVersion s = legacySessionStateVersion \<and> ManifestSHA256 s = '''' then
                 (if legacy_state s then Inl (LegacyState s) else Inl InvalidLegacyState)
               else if current_state s then Inr (s, data) else Inl InvalidState)))"

text \<open>A state is written to a temporary file, synced and renamed.\<close>

definition writeSessionState :: "string \<Rightarrow> session_state \<Rightarrow> fs \<Rightarrow> fs" where
  "writeSessionState path s w = install_file path (encodeSessionState s) w"

definition validateSessionStateForDirectory :: "session_state \<Rightarrow> string \<Rightarrow> state_error + unit" where
  "validateSessionStateForDirectory s sessionDirectory =
     (if \<not> current_state s then Inl InvalidState
      else
        (let dir = path_clean sessionDirectory
         in if path_base dir \<noteq> SessionID s \<or> path_base (path_dir dir) \<noteq> ''sessions'' \<or> path_base (path_dir (path_dir dir)) \<noteq> ''fs''
            then Inl WrongDirectory
            else
              (let manifestRoot = path_join [path_dir (path_dir (path_dir dir)), ''manifests''];
                   manifest = path_clean (StManifestPath s); delta = path_clean (DeltaPath s); backing = path_clean (BackingPath s)
               in if \<not> pathWithin manifestRoot manifest \<or> manifest = manifestRoot then Inl UnsafeManifestPath
                  else if \<not> pathWithin dir delta \<or> delta = dir \<or> (BackingPath s \<noteq> '''' \<and> (\<not> pathWithin dir backing \<or> backing = dir))
                  then Inl UnsafeDataPath
                  else check_native (NativeSnapshot s))))"

section \<open>The journal\<close>

record journal_record =
  OperationID :: string
  RecSessionID :: string
  RecKind :: string
  Phase :: string
  At :: string
  TempPath :: string
  FinalPath :: string
  Candidate :: session_state
  Native :: native_file

definition journalPath :: "string \<Rightarrow> string" where
  "journalPath directory = path_join [directory, ''journal.jsonl'']"

definition journal_json :: "journal_record \<Rightarrow> jval" where
  "journal_json r = JObj (member ''operation_id'' (enc_string (OperationID r)) @ member ''session_id'' (enc_string (RecSessionID r)) @
     member ''kind'' (enc_string (RecKind r)) @ member ''phase'' (enc_string (Phase r)) @ member ''at'' (enc_string (At r)) @
     omitempty (TempPath r = '''') (member ''temp_path'' (enc_string (TempPath r))) @
     omitempty (FinalPath r = '''') (member ''final_path'' (enc_string (FinalPath r))) @
     member ''candidate'' (state_json (Candidate r)) @ member ''native'' (native_json (Native r)))"

definition journal_field :: "bytes \<Rightarrow> jval \<Rightarrow> journal_record \<Rightarrow> journal_record option" where
  "journal_field k v r =
     (if field_is k ''operation_id'' then map_option (\<lambda>x. r\<lparr>OperationID := x\<rparr>) (dec_string v (OperationID r))
      else if field_is k ''session_id'' then map_option (\<lambda>x. r\<lparr>RecSessionID := x\<rparr>) (dec_string v (RecSessionID r))
      else if field_is k ''kind'' then map_option (\<lambda>x. r\<lparr>RecKind := x\<rparr>) (dec_string v (RecKind r))
      else if field_is k ''phase'' then map_option (\<lambda>x. r\<lparr>Phase := x\<rparr>) (dec_string v (Phase r))
      else if field_is k ''at'' then map_option (\<lambda>x. r\<lparr>At := x\<rparr>) (dec_string v (At r))
      else if field_is k ''temp_path'' then map_option (\<lambda>x. r\<lparr>TempPath := x\<rparr>) (dec_string v (TempPath r))
      else if field_is k ''final_path'' then map_option (\<lambda>x. r\<lparr>FinalPath := x\<rparr>) (dec_string v (FinalPath r))
      else if field_is k ''candidate'' then map_option (\<lambda>x. r\<lparr>Candidate := x\<rparr>) (dec_struct state_field v (Candidate r))
      else if field_is k ''native'' then map_option (\<lambda>x. r\<lparr>Native := x\<rparr>) (dec_struct native_field v (Native r))
      else Some r)"

definition zero_record :: journal_record where
  "zero_record = \<lparr>OperationID = '''', RecSessionID = '''', RecKind = '''', Phase = '''', At = '''', TempPath = '''', FinalPath = '''',
     Candidate = zero_state, Native = zero_native\<rparr>"

text \<open>The file is opened for appending, and created where it does not exist.\<close>

definition append_file :: "string \<Rightarrow> bytes \<Rightarrow> fs \<Rightarrow> fs" where
  "append_file path data w =
     (case files w path of
        None \<Rightarrow> install_file path data w
      | Some f \<Rightarrow> w\<lparr>files := (files w)(path \<mapsto> f\<lparr>content := content f @ data, modtime := clock w\<rparr>)\<rparr>)"

definition appendJournal :: "string \<Rightarrow> string \<Rightarrow> journal_record \<Rightarrow> fs \<Rightarrow> fs" where
  "appendJournal now directory r w = append_file (journalPath directory) (Marshal (journal_json (r\<lparr>At := now\<rparr>)) @ [10]) w"

text \<open>
  The lines a \<open>bufio.Scanner\<close> delivers from a text, each without its newline and a carriage return before it; \<open>None\<close> stands for
  the error at a line that does not fit its buffer, after the lines before it.
\<close>

definition drop_cr :: "bytes \<Rightarrow> bytes" where
  "drop_cr l = (if l \<noteq> [] \<and> last l = 13 then butlast l else l)"

function scan_lines :: "bytes \<Rightarrow> bytes option list" where
  "scan_lines data =
     (if data = [] then []
      else
        (let l = takeWhile (\<lambda>b. b \<noteq> 10) data
         in if length l \<ge> 1048576 then [None] else Some (drop_cr l) # scan_lines (drop (length l + 1) data)))"
  by pat_completeness auto
termination
  by (relation "measure length") auto

declare scan_lines.simps [simp del]

fun decode_records :: "bytes option list \<Rightarrow> state_error + journal_record list" where
  "decode_records [] = Inr []"
| "decode_records (None # ls) = Inl JournalLineTooLong"
| "decode_records (Some l # ls) =
     (case Option.bind (parse_json l) (\<lambda>v. dec_struct journal_field v zero_record) of
        None \<Rightarrow> Inl JournalUndecodable
      | Some r \<Rightarrow> rbind (decode_records ls) (\<lambda>rs. Inr (r # rs)))"

definition readJournal :: "string \<Rightarrow> fs \<Rightarrow> state_error + journal_record list" where
  "readJournal directory w =
     (case ReadFile w (journalPath directory) of
        None \<Rightarrow> Inr []
      | Some data \<Rightarrow> decode_records (scan_lines data))"

section \<open>States are read back\<close>

lemma dec_uint_enc [simp]: "dec_uint (enc_uint n) old = Some n"
proof -
  have "unat n < 2 ^ 64"
    using unsigned_less [of n] by simp
  then show ?thesis
    by (simp add: dec_uint_def enc_uint_def enc_int_def int_text_def parse_digits_itoa not_less)
qed

lemma wf_enc_uint [simp]: "wf_jval k (enc_uint n)"
  by (simp add: enc_uint_def)

definition native_ok :: "native_file \<Rightarrow> bool" where
  "native_ok f \<longleftrightarrow> utf8_string (NativePath f) \<and> in_int64 (NativeBytes f) \<and> utf8_string (NativeSHA256 f)"

definition state_text_ok :: "session_state \<Rightarrow> bool" where
  "state_text_ok s \<longleftrightarrow> in_int64 (StVersion s) \<and> utf8_string (SessionID s) \<and> utf8_string (StManifestPath s) \<and> utf8_string (ManifestSHA256 s) \<and>
     in_int64 (BaseBytes s) \<and> utf8_string (BaseSHA256 s) \<and> utf8_string (DeltaPath s) \<and> utf8_string (BackingPath s) \<and>
     native_ok (NativeSnapshot s)"

lemma dec_native: "native_ok f \<Longrightarrow> dec_struct native_field (native_json f) zero_native = Some f"
  by (simp add: dec_struct_def native_json_def native_field_def zero_native_def native_ok_def member_def field_simps)

lemma dec_state:
  assumes "state_text_ok s"
  shows "dec_struct state_field (state_json s) zero_state = Some s"
proof -
  have "dec_struct native_field (native_json (NativeSnapshot s)) zero_native = Some (NativeSnapshot s)"
    using assms by (intro dec_native) (simp add: state_text_ok_def)
  then show ?thesis
    using assms
    by (simp add: dec_struct_def [of state_field] state_json_def state_field_def zero_state_def member_def omitempty_def
        state_text_ok_def field_simps)
qed

lemma wf_native_json: "native_ok f \<Longrightarrow> wf_jval (Suc n) (native_json f)"
  by (simp add: native_json_def member_def native_ok_def field_simps)

lemma wf_state_json: "state_text_ok s \<Longrightarrow> wf_jval (Suc (Suc n)) (state_json s)"
  using wf_native_json [of "NativeSnapshot s" n]
  by (simp add: state_json_def member_def omitempty_def state_text_ok_def field_simps)

lemma state_read_back:
  assumes "state_text_ok s" and "current_state s" and "check_native (NativeSnapshot s) = Inr ()"
  shows "readSessionState path (writeSessionState path s w) = Inr (s, encodeSessionState s)"
proof -
  have "wf_jval 10000 (state_json s)"
    using wf_state_json [OF assms(1), of 9998] by simp
  then have "parse_json (encodeSessionState s) = Some (state_json s)"
    unfolding encodeSessionState_def MarshalIndent_def by (rule parse_json_print) (simp_all add: spaces_def isSpace_def)
  then show ?thesis
    using assms dec_state [OF assms(1)]
    by (simp add: readSessionState_def writeSessionState_def current_state_def sessionStateVersion_def legacySessionStateVersion_def)
qed

section \<open>The journal is read back\<close>

text \<open>A value printed in the compact layout takes a single line.\<close>

lemma escape_one_line: "10 \<notin> set (escape_string s)"
proof (induction "length s" arbitrary: s rule: less_induct)
  case less
  show ?case
  proof (cases s)
    case Nil
    then show ?thesis
      by simp
  next
    case (Cons c cs)
    have hex: "hex_nibble_byte (k mod 16) \<noteq> 10" for k
      using hex_nibble_byte [of "k mod 16"] by (auto simp: hex_nibble_def is_hex_def)
    show ?thesis
    proof (cases "c < 128")
      case True
      have "unat c div 16 < 16"
        using True by (simp add: word_less_nat_alt)
      then have "10 \<notin> set (escape_ascii c)"
        using hex [of "unat c"] hex [of "unat c div 16"] by (auto simp: escape_ascii_def)
      then show ?thesis
        using True less.hyps [of cs] by (simp add: Cons)
    next
      case False
      obtain rr k where rk: "DecodeRune (c # cs) = (rr, k)"
        by (cases "DecodeRune (c # cs)")
      have "10 \<notin> set (take k (c # cs))" if "k \<noteq> 1"
        using DecodeRune_multi [OF rk False that] by force
      then show ?thesis
        using False rk less.hyps [of cs] less.hyps [of "drop (k - 1) cs"] hex [of rr] by (auto simp: Cons)
    qed
  qed
qed

fun one_line :: "jval \<Rightarrow> bool" where
  "one_line (JNum t) \<longleftrightarrow> 10 \<notin> set t"
| "one_line (JArr vs) \<longleftrightarrow> (\<forall>v\<in>set vs. one_line v)"
| "one_line (JObj ms) \<longleftrightarrow> (\<forall>m\<in>set ms. one_line (snd m))"
| "one_line v \<longleftrightarrow> True"

lemma set_join_bytes: "x \<in> set (join_bytes sep xs) \<Longrightarrow> x \<in> set sep \<or> (\<exists>y\<in>set xs. x \<in> set y)"
  by (induction sep xs rule: join_bytes.induct) auto

lemma quote_one_line: "10 \<notin> set (quote_string s)"
  using escape_one_line [of s] by (simp add: quote_string_def)

lemma print_one_line: "one_line v \<Longrightarrow> 10 \<notin> set (print_json compact k v)"
proof (induction v arbitrary: k)
  case (JArr vs)
  then have "10 \<notin> set (join_bytes [b_comma] (map (print_json compact (k + 1)) vs))"
    by (auto dest!: set_join_bytes)
  then show ?case
    by (auto simp: compact_def)
next
  case (JObj ms)
  have "10 \<notin> set (print_json compact (k + 1) (snd m))" if m: "m \<in> set ms" for m
  proof -
    have "snd m \<in> Basic_BNFs.snds m"
      by (cases m rule: prod.exhaust) simp
    then show ?thesis
      using JObj.IH [OF m] JObj.prems m by simp
  qed
  then have "10 \<notin> set (join_bytes [b_comma] (map (\<lambda>m. quote_string (fst m) @ b_colon # print_json compact (k + 1) (snd m)) ms))"
    using quote_one_line by (auto dest!: set_join_bytes)
  then show ?case
    by (auto simp: compact_def)
qed (simp_all add: quote_one_line)

lemma enc_one_line [simp]: "one_line (enc_int i)" "one_line (enc_string s)" "one_line (enc_uint n)"
proof -
  have "10 \<notin> set (go_bytes (itoa n))" for n
    using itoa_digits [of n] by (auto simp: is_digit_def)
  then show int: "one_line (enc_int i)" for i
    by (simp add: enc_int_def int_text_def)
  show "one_line (enc_string s)" "one_line (enc_uint n)"
    using int by (simp_all add: enc_string_def enc_uint_def)
qed

lemma journal_one_line: "one_line (journal_json r)"
  by (simp add: journal_json_def state_json_def native_json_def member_def omitempty_def)

definition record_ok :: "journal_record \<Rightarrow> bool" where
  "record_ok r \<longleftrightarrow> utf8_string (OperationID r) \<and> utf8_string (RecSessionID r) \<and> utf8_string (RecKind r) \<and> utf8_string (Phase r) \<and>
     utf8_string (At r) \<and> utf8_string (TempPath r) \<and> utf8_string (FinalPath r) \<and> state_text_ok (Candidate r) \<and> native_ok (Native r) \<and>
     length (Marshal (journal_json r)) < 1048576"

lemma dec_record:
  assumes "record_ok r"
  shows "dec_struct journal_field (journal_json r) zero_record = Some r"
proof -
  have "dec_struct state_field (state_json (Candidate r)) zero_state = Some (Candidate r)"
    "dec_struct native_field (native_json (Native r)) zero_native = Some (Native r)"
    using assms by (simp_all add: record_ok_def dec_state dec_native)
  then show ?thesis
    using assms
    by (simp add: dec_struct_def [of journal_field] journal_json_def journal_field_def zero_record_def member_def omitempty_def
        record_ok_def field_simps)
qed

lemma record_line:
  assumes "record_ok r"
  shows "Option.bind (parse_json (drop_cr (Marshal (journal_json r)))) (\<lambda>v. dec_struct journal_field v zero_record) = Some r"
proof -
  have "wf_jval (Suc (Suc (Suc n))) (journal_json r)" for n
    using assms wf_state_json [of "Candidate r" n] wf_native_json [of "Native r" "Suc n"]
    by (simp add: journal_json_def member_def omitempty_def record_ok_def field_simps)
  from this [of 9997] have "wf_jval 10000 (journal_json r)"
    by simp
  then have "parse_json (Marshal (journal_json r) @ []) = Some (journal_json r)"
    unfolding Marshal_def by (rule parse_json_print) (simp_all add: spaces_def)
  moreover have "last (Marshal (journal_json r)) \<noteq> 13"
    by (simp add: Marshal_def journal_json_def member_def)
  ultimately show ?thesis
    using dec_record [OF assms] by (simp add: drop_cr_def)
qed

lemma takeWhile_line: "10 \<notin> set l \<Longrightarrow> takeWhile (\<lambda>b. b \<noteq> 10) (l @ 10 # data) = l" for l :: bytes
  by (induction l) auto

lemma scan_lines_line:
  "10 \<notin> set l \<Longrightarrow> length l < 1048576 \<Longrightarrow> scan_lines (l @ 10 # data) = Some (drop_cr l) # scan_lines data"
proof -
  assume l: "10 \<notin> set l" "length l < 1048576"
  show ?thesis
    using l(2) takeWhile_line [OF l(1), of data] by (subst scan_lines.simps) (simp add: Let_def)
qed

lemma decode_records_written:
  "\<forall>r\<in>set rs. record_ok r \<Longrightarrow>
   decode_records (scan_lines (concat (map (\<lambda>r. Marshal (journal_json r) @ [10]) rs) @ data)) =
     rbind (decode_records (scan_lines data)) (\<lambda>following. Inr (rs @ following))"
proof (induction rs)
  case Nil
  then show ?case
    by (simp add: rbind_def split: sum.split)
next
  case (Cons r rs)
  have "10 \<notin> set (Marshal (journal_json r))" "length (Marshal (journal_json r)) < 1048576"
    using Cons.prems print_one_line [OF journal_one_line] by (auto simp: Marshal_def record_ok_def)
  then show ?case
    using Cons record_line [of r] scan_lines_line by (simp add: rbind_assoc)
qed

text \<open>Appending a sequence of records, each with its time.\<close>

fun append_all :: "string \<Rightarrow> (string \<times> journal_record) list \<Rightarrow> fs \<Rightarrow> fs" where
  "append_all directory [] w = w"
| "append_all directory ((now, r) # rs) w = append_all directory rs (appendJournal now directory r w)"

lemma ReadFile_append: "ReadFile (append_file p data w) q =
    (if q = p then Some ((case ReadFile w p of None \<Rightarrow> [] | Some old \<Rightarrow> old) @ data) else ReadFile w q)"
  by (auto simp: append_file_def ReadFile_def install_file_def split: option.splits)

definition whole_lines :: "bytes \<Rightarrow> bool" where
  "whole_lines data \<longleftrightarrow> data = [] \<or> last data = 10"

lemma scan_lines_append:
  "whole_lines old \<Longrightarrow> None \<notin> set (scan_lines old) \<Longrightarrow> scan_lines (old @ data) = scan_lines old @ scan_lines data"
proof (induction old rule: scan_lines.induct)
  case (1 old)
  show ?case
  proof (cases "old = []")
    case True
    then show ?thesis
      by (simp add: scan_lines.simps [of "[]"])
  next
    case False
    have "10 \<in> set old"
      using False "1.prems"(1) last_in_set [of old] by (auto simp: whole_lines_def)
    then obtain l following where old: "old = l @ 10 # following" "10 \<notin> set l"
      by (meson split_list_first)
    have l: "takeWhile (\<lambda>b. b \<noteq> 10) old = l"
      unfolding old(1) by (rule takeWhile_line [OF old(2)])
    have short: "length l < 1048576"
      using "1.prems"(2) False by (subst (asm) scan_lines.simps) (auto simp: Let_def l split: if_splits)
    have scan: "scan_lines old = Some (drop_cr l) # scan_lines following"
      using scan_lines_line [OF old(2) short] old(1) by simp
    moreover have "scan_lines (old @ data) = Some (drop_cr l) # scan_lines (following @ data)"
      using scan_lines_line [OF old(2) short, of "following @ data"] old(1) by simp
    moreover have "scan_lines (following @ data) = scan_lines following @ scan_lines data"
      using "1.IH" [OF False l [symmetric]] short old(1) "1.prems" scan
      by (auto simp: whole_lines_def split: if_splits)
    ultimately show ?thesis
      by simp
  qed
qed

lemma decode_records_append:
  "decode_records (xs @ ys) = rbind (decode_records xs) (\<lambda>rs. rbind (decode_records ys) (\<lambda>rs'. Inr (rs @ rs')))"
  by (induction xs rule: decode_records.induct) (auto simp: rbind_assoc split: option.split)

lemma decode_records_short: "decode_records ls = Inr rs \<Longrightarrow> None \<notin> set ls"
  by (induction ls arbitrary: rs rule: decode_records.induct) (auto simp: result_simps split: option.splits)

lemma append_all_content:
  "ReadFile (append_all directory rs w) (journalPath directory) =
    (if rs = [] then ReadFile w (journalPath directory)
     else Some ((case ReadFile w (journalPath directory) of None \<Rightarrow> [] | Some old \<Rightarrow> old) @
       concat (map (\<lambda>(now, r). Marshal (journal_json (r\<lparr>At := now\<rparr>)) @ [10]) rs)))"
  by (induction directory rs w rule: append_all.induct) (auto simp: appendJournal_def ReadFile_append)

definition journal_whole :: "string \<Rightarrow> fs \<Rightarrow> bool" where
  "journal_whole directory w \<longleftrightarrow> (case ReadFile w (journalPath directory) of None \<Rightarrow> True | Some data \<Rightarrow> whole_lines data)"

lemma readJournal_appended:
  assumes "readJournal directory w = Inr old" and "journal_whole directory w" and "\<forall>(now, r)\<in>set rs. record_ok (r\<lparr>At := now\<rparr>)"
  shows "readJournal directory (append_all directory rs w) = Inr (old @ map (\<lambda>(now, r). r\<lparr>At := now\<rparr>) rs)"
proof (cases "rs = []")
  case True
  then show ?thesis
    using assms(1) by simp
next
  case False
  define before where "before = (case ReadFile w (journalPath directory) of None \<Rightarrow> [] | Some data \<Rightarrow> data)"
  define new where "new = map (\<lambda>(now, r). r\<lparr>At := now\<rparr>) rs"
  have before: "whole_lines before" "decode_records (scan_lines before) = Inr old"
    using assms(1,2) by (auto simp: before_def journal_whole_def readJournal_def whole_lines_def scan_lines.simps [of "[]"] split: option.splits)
  have "concat (map (\<lambda>(now, r). Marshal (journal_json (r\<lparr>At := now\<rparr>)) @ [10]) rs) = concat (map (\<lambda>r. Marshal (journal_json r) @ [10]) new)"
    by (simp add: new_def comp_def case_prod_unfold)
  moreover have "\<forall>r\<in>set new. record_ok r"
    using assms(3) by (auto simp: new_def)
  then have "decode_records (scan_lines (concat (map (\<lambda>r. Marshal (journal_json r) @ [10]) new))) = Inr new"
    using decode_records_written [of new "[]"] by (simp add: scan_lines.simps [of "[]"])
  ultimately show ?thesis
    using False before scan_lines_append [OF before(1) decode_records_short [OF before(2)]]
    by (simp add: readJournal_def append_all_content decode_records_append flip: before_def new_def)
qed

text \<open>C39: Every record that is appended to the journal of a session is read back, in order and unchanged, after the records that
  were there before.\<close>

theorem journal_read_back:
  assumes "readJournal directory w = Inr old" and "journal_whole directory w" and "\<forall>(now, r)\<in>set rs. record_ok (r\<lparr>At := now\<rparr>)"
  shows "readJournal directory (append_all directory rs w) = Inr (old @ map (\<lambda>(now, r). r\<lparr>At := now\<rparr>) rs)"
  using assms by (rule readJournal_appended)

text \<open>A session state that is valid for publication is read back exactly from the file that is written for it.\<close>

theorem session_state_read_back:
  assumes "validateSessionStateForDirectory s directory = Inr ()" and "state_text_ok s"
  shows "readSessionState path (writeSessionState path s w) = Inr (s, encodeSessionState s)"
  using assms by (intro state_read_back) (auto simp: validateSessionStateForDirectory_def Let_def split: if_splits)

text \<open>A bound on the length of a printed value.\<close>

fun json_weight :: "jval \<Rightarrow> nat" where
  "json_weight JNull = 4"
| "json_weight (JBool b) = 5"
| "json_weight (JNum t) = length t"
| "json_weight (JStr s) = 6 * length s + 2"
| "json_weight (JArr vs) = 2 + sum_list (map (\<lambda>v. json_weight v + 1) vs)"
| "json_weight (JObj ms) = 2 + sum_list (map (\<lambda>m. 6 * length (fst m) + json_weight (snd m) + 4) ms)"

lemma length_escape: "length (escape_string s) \<le> 6 * length s"
proof (induction s rule: escape_string.induct)
  case (2 c cs)
  have "length (escape_ascii c) \<le> 6"
    by (simp add: escape_ascii_def)
  then show ?case
    using 2 by (auto split: prod.split)
qed simp

lemma length_quote: "length (quote_string s) \<le> 6 * length s + 2"
  using length_escape [of s] by (simp add: quote_string_def)

lemma length_join_le: "length (join_bytes [c] xs) \<le> sum_list (map (\<lambda>x. length x + 1) xs)"
  by (induction "[c]" xs rule: join_bytes.induct) auto

lemma length_print: "length (print_json compact k v) \<le> json_weight v"
proof (induction v arbitrary: k)
  case (JStr s)
  then show ?case
    using length_quote [of s] by simp
next
  case (JArr vs)
  have "sum_list (map (\<lambda>v. length (print_json compact (k + 1) v) + 1) vs) \<le> sum_list (map (\<lambda>v. json_weight v + 1) vs)"
    using JArr by (intro sum_list_mono) auto
  then show ?case
    using length_join_le [of b_comma "map (print_json compact (k + 1)) vs"] by (auto simp: compact_def comp_def)
next
  case (JObj ms)
  have "length (print_json compact (k + 1) (snd m)) \<le> json_weight (snd m)" if "m \<in> set ms" for m
    using JObj.IH [OF that, of "snd m"] by (cases m rule: prod.exhaust) simp
  then have "length (quote_string (fst m) @ b_colon # print_json compact (k + 1) (snd m)) + 1 \<le> 6 * length (fst m) + json_weight (snd m) + 4"
    if "m \<in> set ms" for m
    using that length_quote [of "fst m"] by fastforce
  then have "sum_list (map (\<lambda>m. length (quote_string (fst m) @ b_colon # print_json compact (k + 1) (snd m)) + 1) ms)
      \<le> sum_list (map (\<lambda>m. 6 * length (fst m) + json_weight (snd m) + 4) ms)"
    by (rule sum_list_mono)
  then show ?case
    using length_join_le [of b_comma "map (\<lambda>m. quote_string (fst m) @ b_colon # print_json compact (k + 1) (snd m)) ms"]
    by (auto simp: compact_def comp_def)
qed auto

definition example_state :: session_state where
  "example_state = \<lparr>StVersion = 2, SessionID = ''a'', StGeneration = 1, StManifestPath = ''/s/manifests/a.json'',
     ManifestSHA256 = replicate 64 CHR ''0'', BaseBytes = 3, BaseSHA256 = replicate 64 CHR ''0'',
     DeltaPath = ''/s/fs/sessions/a/delta.jsonl'', BackingPath = '''', NativeSnapshot = zero_native\<rparr>"

lemma example_state_valid: "validateSessionStateForDirectory example_state ''/s/fs/sessions/a'' = Inr ()"
  by code_simp

lemma example_state_text: "state_text_ok example_state"
  by (simp add: example_state_def state_text_ok_def native_ok_def zero_native_def in_int64_def maxInt64_def utf8_short)

theorem session_state_read_back_witness:
  "validateSessionStateForDirectory example_state ''/s/fs/sessions/a'' = Inr () \<and>
   readSessionState ''/p'' (writeSessionState ''/p'' example_state empty_fs) = Inr (example_state, encodeSessionState example_state)"
  using session_state_read_back [OF example_state_valid example_state_text] example_state_valid by simp

definition example_record :: journal_record where
  "example_record = zero_record\<lparr>OperationID := ''cow-1'', RecSessionID := ''a'', Candidate := example_state\<rparr>"

lemma example_record_length: "length (Marshal (journal_json (example_record\<lparr>At := ''t''\<rparr>))) < 1048576"
proof -
  have "json_weight (journal_json (example_record\<lparr>At := ''t''\<rparr>)) < 1048576"
    by (simp add: example_record_def example_state_def zero_record_def zero_native_def journal_json_def state_json_def native_json_def
        member_def omitempty_def enc_string_def enc_int_def enc_uint_def int_text_def itoa.simps go_bytes_def)
  then show ?thesis
    using length_print [of 0 "journal_json (example_record\<lparr>At := ''t''\<rparr>)"] by (simp add: Marshal_def)
qed

theorem journal_read_back_witness:
  "readJournal ''/d'' (append_all ''/d'' [(''t'', example_record)] empty_fs) = Inr [example_record\<lparr>At := ''t''\<rparr>]"
proof -
  have ok: "\<forall>(now, r)\<in>set [(''t'', example_record)]. record_ok (r\<lparr>At := now\<rparr>)"
    using example_record_length example_state_text
    by (simp add: record_ok_def example_record_def zero_record_def native_ok_def zero_native_def in_int64_def maxInt64_def utf8_short)
  have "readJournal ''/d'' empty_fs = Inr []" "journal_whole ''/d'' empty_fs"
    by (simp_all add: readJournal_def journal_whole_def ReadFile_def empty_fs_def)
  from journal_read_back [OF this ok] show ?thesis
    by simp
qed

end
