(* ===== verification/Vfs_Session.thy ===== *)
theory Vfs_Session
  imports View Session_State
begin

text \<open>
  A virtual session, \<open>src/internal/vfs/session.go\<close> and \<open>src/internal/vfs/handles.go\<close>: an immutable base, read through a
  view, with a delta file of appended bytes; a backing file that replaces both at the first write that is not an
  append; the handles that read and write it. The reader of the base, the budget check, the publication of a new state
  (the checkpoint chain of \<open>src/internal/vfs/state_checkpoint.go\<close>) and the clock are arguments.

  An open file is named by its path: no operation here removes or replaces a data file of a session. Cancellation of a
  context and failures of \<open>sync\<close> and \<open>close\<close> are left out; a write that the system cuts short is not.
\<close>

section \<open>Files\<close>

definition os_ReadAt :: "bytes \<Rightarrow> nat \<Rightarrow> int64 \<Rightarrow> bytes" where
  "os_ReadAt f k offset = take k (drop (nat offset) f)"

text \<open>Positioned writes fill a gap behind the end of the file with zeros; writing nothing changes nothing.\<close>

definition write_at :: "bytes \<Rightarrow> nat \<Rightarrow> bytes \<Rightarrow> bytes" where
  "write_at data offset f =
     (if data = [] then f else take offset f @ replicate (offset - length f) 0 @ data @ drop (offset + length data) f)"

definition resize :: "nat \<Rightarrow> bytes \<Rightarrow> bytes" where
  "resize n f = take n f @ replicate (n - length f) 0"

definition change_file :: "string \<Rightarrow> (bytes \<Rightarrow> bytes) \<Rightarrow> fs \<Rightarrow> fs" where
  "change_file path g w =
     w\<lparr>files := (files w)(path := map_option (\<lambda>f. f\<lparr>content := g (content f), modtime := clock w\<rparr>) (files w path))\<rparr>"

text \<open>The names of the files that hold session data.\<close>

definition managedSessionDataName :: "string \<Rightarrow> bool" where
  "managedSessionDataName name \<longleftrightarrow> name = ''delta.jsonl'' \<or> (has_prefix ''delta-'' name \<and> has_suffix ''.jsonl'' name) \<or>
     (has_prefix ''backing-'' name \<and> has_suffix ''.jsonl'' name) \<or> (has_prefix ''.compact-'' name \<and> has_suffix ''.jsonl'' name)"

text \<open>What the system does with a write: all of it, or the given number of bytes before an error, after which truncating the file
  back works or not.\<close>

datatype disk = DiskFull | DiskShort nat bool

definition disk_count :: "disk \<Rightarrow> bytes \<Rightarrow> nat" where
  "disk_count d data = (case d of DiskFull \<Rightarrow> length data | DiskShort n _ \<Rightarrow> min n (length data))"

definition disk_fails :: "disk \<Rightarrow> bool" where
  "disk_fails d = (case d of DiskFull \<Rightarrow> False | DiskShort _ _ \<Rightarrow> True)"

section \<open>Sessions and their handles\<close>

datatype session_error =
    NegativeOffset
  | WriterClosed
  | ErrWriterBusy
  | ErrSessionRecoveryDeferred
  | SessionFileMissing string
  | ShortWrite nat
  | RollbackFailed nat
  | OverBudget
  | BaseReadFailed
  | SourceEndedEarly
  | BackingVerification
  | PublishFailed
  | StateUnreadable
  | StateChangedOutside
  | RetirementMismatch
  | TargetRequired
  | TargetExists string
  | MaterializedVerification

record session =
  s_state :: session_state
  statePath :: string
  directory :: string
  s_view :: view
  readerLeases :: "uint64 \<Rightarrow> nat"
  readerLeaseFiles :: "uint64 \<Rightarrow> bool"
  writerOpen :: bool
  recoveryDeferred :: bool

record read_handle =
  rh_generation :: uint64
  rh_base :: view
  rh_baseBytes :: int64
  rh_file :: string
  rh_backing :: bool
  rh_deltaBytes :: int64
  rh_size :: int64
  rh_closed :: bool

record write_handle =
  wh_closed :: bool
  dirty :: bool
  appendHasher :: bytes
  appendHashPath :: string
  appendHashBytes :: int64
  appendHashValid :: bool

record visible_info =
  VisibleSize :: int64
  VisibleModTime :: int
  VisibleGeneration :: uint64

text \<open>The file that takes the appended bytes.\<close>

definition active_path :: "session_state \<Rightarrow> string" where
  "active_path st = (if BackingPath st \<noteq> '''' then BackingPath st else DeltaPath st)"

definition MetadataPath :: "session \<Rightarrow> string" where
  "MetadataPath s = active_path (s_state s)"

definition VisibleInfo :: "session \<Rightarrow> fs \<Rightarrow> session_error + visible_info" where
  "VisibleInfo s w =
     (let st = s_state s
      in case Stat w (active_path st) of
           None \<Rightarrow> Inl (SessionFileMissing (active_path st))
         | Some info \<Rightarrow>
             Inr \<lparr>VisibleSize = (if BackingPath st = '''' then wrap64 (Size info + BaseBytes st) else Size info),
                  VisibleModTime = ModTime info, VisibleGeneration = StGeneration st\<rparr>)"

text \<open>Readers hold a lease file for their generation while there is at least one of them.\<close>

definition releaseReader :: "uint64 \<Rightarrow> session \<Rightarrow> session" where
  "releaseReader g s =
     (if readerLeases s g \<le> 1
      then s\<lparr>readerLeases := (readerLeases s)(g := 0), readerLeaseFiles := (readerLeaseFiles s)(g := False)\<rparr>
      else s\<lparr>readerLeases := (readerLeases s)(g := readerLeases s g - 1)\<rparr>)"

definition acquire_reader :: "uint64 \<Rightarrow> session \<Rightarrow> session" where
  "acquire_reader g s =
     s\<lparr>readerLeaseFiles := (if readerLeases s g = 0 then (readerLeaseFiles s)(g := True) else readerLeaseFiles s),
       readerLeases := (readerLeases s)(g := readerLeases s g + 1)\<rparr>"

definition OpenReader :: "session \<Rightarrow> fs \<Rightarrow> (session_error + read_handle) \<times> session" where
  "OpenReader s w =
     (let st = s_state s; g = StGeneration st; s = acquire_reader g s; path = active_path st; backed = BackingPath st \<noteq> ''''
      in case Stat w path of
           None \<Rightarrow> (Inl (SessionFileMissing path), releaseReader g s)
         | Some info \<Rightarrow>
             (Inr \<lparr>rh_generation = g, rh_base = s_view s, rh_baseBytes = BaseBytes st, rh_file = path, rh_backing = backed,
                   rh_deltaBytes = (if backed then 0 else Size info),
                   rh_size = (if backed then Size info else wrap64 (BaseBytes st + Size info)), rh_closed = False\<rparr>, s))"

definition ReadHandle_Close :: "read_handle \<Rightarrow> session \<Rightarrow> read_handle \<times> session" where
  "ReadHandle_Close h s = (if rh_closed h then (h, s) else (h\<lparr>rh_closed := True\<rparr>, releaseReader (rh_generation h) s))"

datatype 'e handle_error = NegativeReadOffset | BaseError "'e view_error" | UnexpectedEOF | HandleFileGone

text \<open>
  \<open>ReadHandle.ReadAt\<close>. A read of a file that comes back short has met the end of the file; that it differs from the size the
  handle was opened with means that the file was truncated since.
\<close>

definition read_base :: "('s, 'e) at_reader \<Rightarrow> read_handle \<Rightarrow> nat \<Rightarrow> int64 \<Rightarrow> 's \<Rightarrow>
    (bytes \<times> 'e handle_error at_status) option \<times> bytes \<times> 's" where
  "read_base rd h need offset c =
     (if offset < rh_baseBytes h then
        (let k = (if int need > rh_baseBytes h - offset then nat (rh_baseBytes h - offset) else need)
         in case View_ReadAt rd (rh_base h) k offset c of
              (data, status, c') \<Rightarrow>
                if length data \<noteq> k then
                  (Some (data, case status of AtNil \<Rightarrow> AtErr UnexpectedEOF | AtEOF \<Rightarrow> AtEOF | AtErr e \<Rightarrow> AtErr (BaseError e)), data, c')
                else (case status of
                    AtErr e \<Rightarrow> (Some (data, AtErr (BaseError e)), data, c')
                  | _ \<Rightarrow> (None, data, c')))
      else (None, [], c))"

definition ReadHandle_ReadAt :: "('s, 'e) at_reader \<Rightarrow> read_handle \<Rightarrow> nat \<Rightarrow> int64 \<Rightarrow> fs \<Rightarrow> 's \<Rightarrow>
    bytes \<times> 'e handle_error at_status \<times> 's" where
  "ReadHandle_ReadAt rd h need offset w c =
     (if offset < 0 then ([], AtErr NegativeReadOffset, c)
      else if need = 0 then ([], AtNil, c)
      else if offset \<ge> rh_size h then ([], AtEOF, c)
      else case ReadFile w (rh_file h) of
        None \<Rightarrow> ([], AtErr HandleFileGone, c)
      | Some f \<Rightarrow>
          if rh_backing h then
            (let limit = (if int need > rh_size h - offset then nat (rh_size h - offset) else need);
                 data = os_ReadAt f limit offset
             in (data, if length data < need then AtEOF else AtNil, c))
          else
            (case read_base rd h need offset c of
               (Some (data, status), _, c') \<Rightarrow> (data, status, c')
             | (None, data, c') \<Rightarrow>
                 (let offset' = offset + int (length data)
                  in if length data < need \<and> offset' \<ge> rh_baseBytes h \<and> offset' < rh_size h then
                       (let deltaOffset = offset' - rh_baseBytes h; want = need - length data;
                            k = (if int want > rh_deltaBytes h - deltaOffset then nat (rh_deltaBytes h - deltaOffset) else want);
                            following = os_ReadAt f k deltaOffset
                        in (data @ following, if length data + length following < need then AtEOF else AtNil, c'))
                     else (data, if length data < need then AtEOF else AtNil, c'))))"

section \<open>Copy on write\<close>

text \<open>\<open>hashNativePath\<close>.\<close>

definition hashNativePath :: "string \<Rightarrow> fs \<Rightarrow> session_error + native_file" where
  "hashNativePath path w =
     (case ReadFile w path of
        None \<Rightarrow> Inl (SessionFileMissing path)
      | Some data \<Rightarrow> Inr \<lparr>NativePath = path, NativeBytes = int (length data), NativeSHA256 = sha256_hex data\<rparr>)"

definition copy_need :: "read_handle \<Rightarrow> int64 \<Rightarrow> nat" where
  "copy_need h offset = (if 1048576 > rh_size h - offset then nat (rh_size h - offset) else 1048576)"

text \<open>The copy loop of \<open>ensureBacking\<close>: it ends where a read delivers nothing.\<close>

function cow_copy :: "('s, 'e) at_reader \<Rightarrow> read_handle \<Rightarrow> int64 \<Rightarrow> fs \<Rightarrow> 's \<Rightarrow> (session_error + bytes) \<times> 's" where
  "cow_copy rd h offset w c =
     (if offset < rh_size h then
        (case ReadHandle_ReadAt rd h (copy_need h offset) offset w c of
           (data, AtErr e, c') \<Rightarrow> (Inl BaseReadFailed, c')
         | (data, status, c') \<Rightarrow>
             if data = [] then (Inr [], c')
             else (case cow_copy rd h (offset + int (length data)) w c' of
                 (Inl e, c'') \<Rightarrow> (Inl e, c'')
               | (Inr following, c'') \<Rightarrow> (Inr (data @ following), c'')))
      else (Inr [], c))"
  by pat_completeness auto
termination
  by (relation "measure (\<lambda>(rd, h, offset, w, c). nat (rh_size h - offset))") auto

declare cow_copy.simps [simp del]

text \<open>Decimal numbers of twenty digits.\<close>

definition pad20 :: "uint64 \<Rightarrow> string" where
  "pad20 n = (let t = itoa (unat n) in replicate (20 - length t) CHR ''0'' @ t)"

definition backing_path :: "string \<Rightarrow> uint64 \<Rightarrow> string" where
  "backing_path dir g = path_join [dir, ''backing-'' @ pad20 g @ ''.jsonl'']"

text \<open>What a session is given from outside.\<close>

record ('s, 'e) session_env =
  base_reader :: "('s, 'e) at_reader"
  budget :: "projection \<Rightarrow> bool"
  publish :: "string \<Rightarrow> session_state \<Rightarrow> fs \<Rightarrow> fs option"
  checkpoint :: "string \<Rightarrow> session_state \<Rightarrow> native_file option \<Rightarrow> fs \<Rightarrow> fs option"
  now :: "fs \<Rightarrow> string"
  temporary :: "fs \<Rightarrow> string"

definition cow_record :: "session_state \<Rightarrow> native_file \<Rightarrow> string \<Rightarrow> journal_record" where
  "cow_record st verified phase = zero_record\<lparr>OperationID := ''cow-'' @ pad20 (StGeneration st), RecSessionID := SessionID st,
     RecKind := ''copy-on-write'', Phase := phase, Native := verified\<rparr>"

text \<open>The steps of \<open>ensureBacking\<close> after the data has been copied to a temporary file and verified.\<close>

definition publish_backing :: "('s, 'e) session_env \<Rightarrow> bytes \<Rightarrow> native_file \<Rightarrow> session \<Rightarrow> fs \<Rightarrow> (session_error + string) \<times> session \<times> fs" where
  "publish_backing env data verified s w =
     (let st = s_state s; dir = directory s; path = backing_path dir (StGeneration st + 1);
          log = (\<lambda>r w. appendJournal (now env w) dir r w);
          candidate = st\<lparr>StGeneration := StGeneration st + 1, BackingPath := path\<rparr>;
          w = log ((cow_record st verified ''data-synced'')\<lparr>TempPath := temporary env w\<rparr>) w;
          w = install_file path data w;
          w = log ((cow_record st verified ''after-file-publish'')\<lparr>Candidate := candidate, FinalPath := path\<rparr>) w
      in case publish env (statePath s) candidate w of
           None \<Rightarrow> (Inl PublishFailed, s, w)
         | Some w \<Rightarrow>
             (let w = log ((cow_record st verified ''state-published'')\<lparr>Candidate := candidate, FinalPath := path\<rparr>) w;
                  w = log ((cow_record st verified ''complete'')\<lparr>Candidate := candidate, FinalPath := path\<rparr>) w
              in (Inr path, s\<lparr>s_state := candidate\<rparr>, w)))"

definition ensureBacking :: "('s, 'e) session_env \<Rightarrow> session \<Rightarrow> fs \<Rightarrow> 's \<Rightarrow> (session_error + string) \<times> session \<times> fs \<times> 's" where
  "ensureBacking env s w c =
     (let st = s_state s
      in if BackingPath st \<noteq> '''' then (Inr (BackingPath st), s, w, c)
         else case OpenReader s w of
           (Inl e, s) \<Rightarrow> (Inl e, s, w, c)
         | (Inr h, s) \<Rightarrow>
             if \<not> budget env \<lparr>Operation = ''copy-on-write'', AdditionalPersistentBytes = rh_size h, TemporaryBytes = rh_size h,
                  TemporaryPersistentOverlapBytes = rh_size h, ReclaimableBytes = 0\<rparr>
             then (Inl OverBudget, snd (ReadHandle_Close h s), w, c)
             else (case cow_copy (base_reader env) h 0 w c of
                 (Inl e, c) \<Rightarrow> (Inl e, snd (ReadHandle_Close h s), w, c)
               | (Inr data, c) \<Rightarrow>
                   if int (length data) \<noteq> rh_size h then (Inl SourceEndedEarly, snd (ReadHandle_Close h s), w, c)
                   else (case hashNativePath (temporary env w) (install_file (temporary env w) data w) of
                       Inl e \<Rightarrow> (Inl e, snd (ReadHandle_Close h s), w, c)
                     | Inr verified \<Rightarrow>
                         if NativeBytes verified \<noteq> rh_size h \<or> NativeSHA256 verified \<noteq> sha256_hex data
                         then (Inl BackingVerification, snd (ReadHandle_Close h s), w, c)
                         else (case publish_backing env data verified s w of
                             (res, s, w) \<Rightarrow> (res, snd (ReadHandle_Close h s), w, c)))))"

section \<open>Writing\<close>

definition new_writer :: write_handle where
  "new_writer = \<lparr>wh_closed = False, dirty = False, appendHasher = [], appendHashPath = '''', appendHashBytes = 0, appendHashValid = False\<rparr>"

definition ensureAppendHash :: "string \<Rightarrow> write_handle \<Rightarrow> fs \<Rightarrow> session_error + write_handle" where
  "ensureAppendHash path h w =
     (let path = path_clean path
      in if appendHashValid h \<and> appendHashPath h = path then Inr h
         else case ReadFile w path of
           None \<Rightarrow> Inl (SessionFileMissing path)
         | Some data \<Rightarrow> Inr (h\<lparr>appendHasher := data, appendHashPath := path, appendHashBytes := int (length data), appendHashValid := True\<rparr>))"

text \<open>A short write is rolled back to the original length; only where that fails does part of a record stay behind.\<close>

definition Append :: "bytes \<Rightarrow> disk \<Rightarrow> session \<Rightarrow> write_handle \<Rightarrow> fs \<Rightarrow> (session_error + nat) \<times> write_handle \<times> fs" where
  "Append data d s h w =
     (if wh_closed h then (Inl WriterClosed, h, w)
      else
        (let path = active_path (s_state s)
         in case ensureAppendHash path h w of
              Inl e \<Rightarrow> (Inl e, h, w)
            | Inr h \<Rightarrow>
                (case ReadFile w path of
                   None \<Rightarrow> (Inl (SessionFileMissing path), h, w)
                 | Some original \<Rightarrow>
                     (let n = disk_count d data; w = change_file path (\<lambda>f. f @ take n data) w;
                          failed = disk_fails d \<or> n \<noteq> length data
                      in if failed \<and> n > 0 then
                           (case d of
                              DiskShort _ True \<Rightarrow> (Inl (ShortWrite 0), h, change_file path (\<lambda>f. take (length original) f) w)
                            | _ \<Rightarrow> (Inl (RollbackFailed n), h\<lparr>appendHashValid := False, dirty := True\<rparr>, w))
                         else
                           (let h = (if n > 0 then h\<lparr>appendHasher := appendHasher h @ take n data,
                                       appendHashBytes := wrap64 (appendHashBytes h + int n), dirty := True\<rparr> else h)
                            in (if failed then Inl (ShortWrite n) else Inr n, h, w))))))"

definition WriteAt :: "('s, 'e) session_env \<Rightarrow> bytes \<Rightarrow> int64 \<Rightarrow> disk \<Rightarrow> session \<Rightarrow> write_handle \<Rightarrow> fs \<Rightarrow> 's \<Rightarrow>
    (session_error + nat) \<times> session \<times> write_handle \<times> fs \<times> 's" where
  "WriteAt env data offset d s h w c =
     (if wh_closed h then (Inl WriterClosed, s, h, w, c)
      else if offset < 0 then (Inl NegativeOffset, s, h, w, c)
      else case ensureBacking env s w c of
        (Inl e, s, w, c) \<Rightarrow> (Inl e, s, h, w, c)
      | (Inr path, s, w, c) \<Rightarrow>
          (case ReadFile w path of
             None \<Rightarrow> (Inl (SessionFileMissing path), s, h, w, c)
           | Some _ \<Rightarrow>
               (let n = disk_count d data; w = change_file path (write_at (take n data) (nat offset)) w;
                    h = (if n > 0 then h\<lparr>dirty := True, appendHashValid := False\<rparr> else h)
                in (if disk_fails d then Inl (ShortWrite n) else Inr n, s, h, w, c))))"

definition Truncate :: "('s, 'e) session_env \<Rightarrow> int64 \<Rightarrow> session \<Rightarrow> write_handle \<Rightarrow> fs \<Rightarrow> 's \<Rightarrow>
    (session_error + unit) \<times> session \<times> write_handle \<times> fs \<times> 's" where
  "Truncate env n s h w c =
     (if wh_closed h then (Inl WriterClosed, s, h, w, c)
      else if n < 0 then (Inl NegativeOffset, s, h, w, c)
      else case VisibleInfo s w of
        Inl e \<Rightarrow> (Inl e, s, h, w, c)
      | Inr info \<Rightarrow>
          if n = VisibleSize info then (Inr (), s, h, w, c)
          else (case ensureBacking env s w c of
              (Inl e, s, w, c) \<Rightarrow> (Inl e, s, h, w, c)
            | (Inr path, s, w, c) \<Rightarrow>
                (case ReadFile w path of
                   None \<Rightarrow> (Inl (SessionFileMissing path), s, h, w, c)
                 | Some _ \<Rightarrow> (Inr (), s, h\<lparr>dirty := True, appendHashValid := False\<rparr>, change_file path (resize (nat n)) w, c))))"

text \<open>The identity of the active file that \<open>Sync\<close> hands to the checkpoint, where the running hash is still good for it.\<close>

definition active_identity :: "session_state \<Rightarrow> write_handle \<Rightarrow> fs \<Rightarrow> native_file option" where
  "active_identity st h w =
     (let path = active_path st
      in if appendHashValid h \<and> appendHashPath h = path_clean path then
           (case Stat w path of
              None \<Rightarrow> None
            | Some info \<Rightarrow>
                if Size info \<noteq> appendHashBytes h then None
                else Some \<lparr>NativePath = path_clean path, NativeBytes = appendHashBytes h, NativeSHA256 = sha256_hex (appendHasher h)\<rparr>)
         else None)"

definition Sync :: "('s, 'e) session_env \<Rightarrow> session \<Rightarrow> write_handle \<Rightarrow> fs \<Rightarrow> (session_error + unit) \<times> write_handle \<times> fs" where
  "Sync env s h w =
     (if wh_closed h then (Inl WriterClosed, h, w)
      else
        (let st = s_state s; path = active_path st
         in case Stat w path of
              None \<Rightarrow> (Inl (SessionFileMissing path), h, w)
            | Some info \<Rightarrow>
                if \<not> dirty h then (Inr (), h, w)
                else
                  (let stale = appendHashValid h \<and> appendHashPath h = path_clean path \<and> Size info \<noteq> appendHashBytes h;
                       identity = active_identity st h w; h = (if stale then h\<lparr>appendHashValid := False\<rparr> else h)
                   in case checkpoint env (statePath s) st identity w of
                        None \<Rightarrow> (Inl PublishFailed, h, w)
                      | Some w \<Rightarrow> (Inr (), h\<lparr>dirty := False\<rparr>, w))))"

definition WriteHandle_Close :: "('s, 'e) session_env \<Rightarrow> session \<Rightarrow> write_handle \<Rightarrow> fs \<Rightarrow> (session_error + unit) \<times> session \<times> write_handle \<times> fs" where
  "WriteHandle_Close env s h w =
     (if wh_closed h then (Inr (), s, h, w)
      else case (if dirty h then Sync env s h w else (Inr (), h, w)) of
        (res, h, w) \<Rightarrow> (res, s\<lparr>writerOpen := False\<rparr>, h\<lparr>wh_closed := True\<rparr>, w))"

section \<open>Opening a writer\<close>

text \<open>The fields of a native retirement proof that a session compares.\<close>

record retirement_proof =
  ProofSessionID :: string
  ProofGeneration :: uint64
  ProofSnapshot :: native_file

definition sameSessionStateExceptRetiredNative :: "session_state \<Rightarrow> session_state \<Rightarrow> bool" where
  "sameSessionStateExceptRetiredNative a b \<longleftrightarrow> StVersion a = StVersion b \<and> SessionID a = SessionID b \<and>
     StManifestPath a = StManifestPath b \<and> ManifestSHA256 a = ManifestSHA256 b \<and> BaseBytes a = BaseBytes b \<and>
     BaseSHA256 a = BaseSHA256 b \<and> DeltaPath a = DeltaPath b \<and> BackingPath a = BackingPath b"

text \<open>The persisted state and the proof are what loading them gives.\<close>

definition refreshNativeRetirement :: "session_state option \<Rightarrow> retirement_proof option \<Rightarrow> session \<Rightarrow> session_error + session" where
  "refreshNativeRetirement published proof s =
     (case published of
        None \<Rightarrow> Inl StateUnreadable
      | Some p \<Rightarrow>
          (let current = s_state s
           in if p = current then Inr s
              else if StGeneration current = - 1 \<or> StGeneration p \<noteq> StGeneration current + 1 \<or> NativePath (NativeSnapshot current) = '''' \<or>
                NativeSnapshot p \<noteq> zero_native \<or> \<not> sameSessionStateExceptRetiredNative current p
              then Inl StateChangedOutside
              else case proof of
                None \<Rightarrow> Inl RetirementMismatch
              | Some q \<Rightarrow>
                  if ProofSessionID q \<noteq> SessionID current \<or> ProofGeneration q \<noteq> StGeneration current \<or>
                    ProofSnapshot q \<noteq> NativeSnapshot current
                  then Inl RetirementMismatch
                  else Inr (s\<lparr>s_state := p\<rparr>)))"

text \<open>\<open>locked\<close> says whether the lock on the lease file could be taken.\<close>

definition OpenWriter :: "bool \<Rightarrow> session_state option \<Rightarrow> retirement_proof option \<Rightarrow> session \<Rightarrow> (session_error + write_handle) \<times> session" where
  "OpenWriter locked published proof s =
     (if recoveryDeferred s then (Inl ErrSessionRecoveryDeferred, s)
      else if writerOpen s then (Inl ErrWriterBusy, s)
      else if \<not> locked then (Inl ErrWriterBusy, s)
      else case refreshNativeRetirement published proof (s\<lparr>writerOpen := True\<rparr>) of
        Inl e \<Rightarrow> (Inl e, s\<lparr>writerOpen := False\<rparr>)
      | Inr s \<Rightarrow> (Inr new_writer, s))"

section \<open>Materialising\<close>

text \<open>The copy loop of \<open>MaterializeCurrent\<close>: unlike the one of \<open>ensureBacking\<close> it goes on after a read that delivers nothing.\<close>

partial_function (option) materialize_loop :: "('s, 'e) at_reader \<Rightarrow> read_handle \<Rightarrow> int64 \<Rightarrow> fs \<Rightarrow> 's \<Rightarrow> ((session_error + bytes) \<times> 's) option" where
  "materialize_loop rd h offset w c =
     (if offset < rh_size h then
        (case ReadHandle_ReadAt rd h (copy_need h offset) offset w c of
           (data, status, c') \<Rightarrow>
             (case status of
                AtErr e \<Rightarrow> Some (Inl BaseReadFailed, c')
              | _ \<Rightarrow>
                  Option.bind (materialize_loop rd h (offset + int (length data)) w c') (\<lambda>(res, c'').
                    Some ((case res of Inl e \<Rightarrow> Inl e | Inr following \<Rightarrow> Inr (data @ following)), c''))))
      else Some (Inr [], c))"

definition materialize_finish :: "string \<Rightarrow> bytes \<Rightarrow> fs \<Rightarrow> (session_error + native_file) \<times> fs" where
  "materialize_finish target data w =
     (let w = install_file target data w;
          expected = \<lparr>NativePath = target, NativeBytes = int (length data), NativeSHA256 = sha256_hex data\<rparr>
      in case hashNativePath target w of
           Inl e \<Rightarrow> (Inl e, w)
         | Inr verified \<Rightarrow>
             if NativeBytes verified \<noteq> NativeBytes expected \<or> NativeSHA256 verified \<noteq> NativeSHA256 expected
             then (Inl MaterializedVerification, w) else (Inr expected, w))"

definition MaterializeCurrent :: "('s, 'e) session_env \<Rightarrow> string \<Rightarrow> bool \<Rightarrow> session \<Rightarrow> fs \<Rightarrow> 's \<Rightarrow>
    ((session_error + native_file) \<times> session \<times> fs \<times> 's) option" where
  "MaterializeCurrent env target overwrite s w c =
     (if target = '''' then Some (Inl TargetRequired, s, w, c)
      else if \<not> overwrite \<and> Stat w target \<noteq> None then Some (Inl (TargetExists target), s, w, c)
      else case OpenReader s w of
        (Inl e, s) \<Rightarrow> Some (Inl e, s, w, c)
      | (Inr h, s) \<Rightarrow>
          (let reclaimable = (if overwrite then case Stat w target of Some info \<Rightarrow> Size info | None \<Rightarrow> 0 else 0)
           in if \<not> budget env \<lparr>Operation = ''materialize-current'', AdditionalPersistentBytes = rh_size h, TemporaryBytes = rh_size h,
                TemporaryPersistentOverlapBytes = rh_size h, ReclaimableBytes = reclaimable\<rparr>
              then Some (Inl OverBudget, snd (ReadHandle_Close h s), w, c)
              else Option.bind (materialize_loop (base_reader env) h 0 w c) (\<lambda>(res, c).
                case res of
                  Inl e \<Rightarrow> Some (Inl e, snd (ReadHandle_Close h s), w, c)
                | Inr data \<Rightarrow>
                    (case materialize_finish target data w of (res, w) \<Rightarrow> Some (res, snd (ReadHandle_Close h s), w, c)))))"

definition CreateCurrentNativeBacking :: "('s, 'e) session_env \<Rightarrow> string \<Rightarrow> session \<Rightarrow> fs \<Rightarrow> 's \<Rightarrow>
    ((session_error + native_file) \<times> session \<times> fs \<times> 's) option" where
  "CreateCurrentNativeBacking env target s w c = MaterializeCurrent env target False s w c"

end
