(* ===== verification/Session_Refinement.thy ===== *)
theory Session_Refinement
  imports Vfs_Session
begin

text \<open>
  What a virtual session promises: it is a string of bytes. The bytes are those of the base followed by the delta file, or those
  of the backing file once there is one; reads return slices of them, and every write operation changes them as the operation
  of the same name changes a plain file, whatever the representation does underneath.
\<close>

section \<open>Paths of a session\<close>

definition data_path :: "string \<Rightarrow> bool" where
  "data_path p \<longleftrightarrow> managedSessionDataName (path_base p) \<and> path_clean p = p"

lemma pad20_chars: "c \<in> set (pad20 g) \<Longrightarrow> c \<noteq> slash"
  by (auto simp: pad20_def Let_def slash_def split: if_splits dest!: itoa_chars arg_cong [of _ _ "of_char :: char \<Rightarrow> nat"])

lemma data_name_proper: "proper_comp (''backing-'' @ pad20 g @ ''.jsonl'')" "proper_comp (''delta-'' @ pad20 g @ ''.jsonl'')"
  "proper_comp (''.compact-'' @ pad20 g @ ''.jsonl'')"
  using pad20_chars by (auto simp: proper_comp_def slash_def)

lemma path_join_base: "is_abs dir \<Longrightarrow> proper_comp name \<Longrightarrow> path_base (path_join [dir, name]) = name"
  using path_base_join [of dir "[]" name] by simp

lemma path_join_clean: "is_abs dir \<Longrightarrow> proper_comp name \<Longrightarrow> path_clean (path_join [dir, name]) = path_join [dir, name]"
  by (subst (1 2) path_join_Cons) (simp_all add: is_abs_append)

lemma backing_path_facts:
  assumes "is_abs dir"
  shows "data_path (backing_path dir g)" and "backing_path dir g \<noteq> ''''" and "has_prefix ''backing-'' (path_base (backing_path dir g))"
proof -
  have base: "path_base (backing_path dir g) = ''backing-'' @ pad20 g @ ''.jsonl''"
    unfolding backing_path_def by (rule path_join_base [OF assms data_name_proper(1)])
  then show "has_prefix ''backing-'' (path_base (backing_path dir g))"
    by (simp add: has_prefix_def)
  show "data_path (backing_path dir g)"
    using base path_join_clean [OF assms data_name_proper(1)]
    by (simp add: data_path_def managedSessionDataName_def has_prefix_def has_suffix_def backing_path_def)
  show "backing_path dir g \<noteq> ''''"
    using path_join_proper(1) [OF assms, of "[''backing-'' @ pad20 g @ ''.jsonl'']"] data_name_proper(1) [of g]
    by (auto simp: backing_path_def is_abs_def)
qed

lemma journal_not_data: "is_abs dir \<Longrightarrow> data_path p \<Longrightarrow> p \<noteq> journalPath dir"
  using path_join_base [of dir "''journal.jsonl''"]
  by (auto simp: data_path_def journalPath_def managedSessionDataName_def has_prefix_def proper_comp_def slash_def)

lemma ReadFile_journal: "is_abs dir \<Longrightarrow> data_path q \<Longrightarrow> ReadFile (appendJournal t dir r w) q = ReadFile w q"
  using journal_not_data by (simp add: appendJournal_def ReadFile_append)

lemma ReadFile_change:
  "ReadFile (change_file p g w) q = (if q = p then map_option g (ReadFile w p) else ReadFile w q)"
  by (simp add: change_file_def ReadFile_def option.map_comp comp_def)

section \<open>The bytes of a session\<close>

definition visible :: "bytes \<Rightarrow> session_state \<Rightarrow> fs \<Rightarrow> bytes option" where
  "visible base st w =
     (if BackingPath st \<noteq> '''' then ReadFile w (BackingPath st) else map_option (\<lambda>d. base @ d) (ReadFile w (DeltaPath st)))"

lemma visible_active:
  "visible base st w = Some v \<longleftrightarrow>
   (\<exists>f. ReadFile w (active_path st) = Some f \<and> v = (if BackingPath st \<noteq> '''' then f else base @ f))"
  by (auto simp: visible_def active_path_def)

text \<open>The paths of a session are its own.\<close>

definition placed :: "session \<Rightarrow> bool" where
  "placed s \<longleftrightarrow> is_abs (directory s) \<and> path_base (statePath s) = ''state.json'' \<and> data_path (DeltaPath (s_state s)) \<and>
     \<not> has_prefix ''backing-'' (path_base (DeltaPath (s_state s))) \<and> \<not> has_prefix ''.compact-'' (path_base (DeltaPath (s_state s))) \<and>
     (BackingPath (s_state s) \<noteq> '''' \<longrightarrow> data_path (BackingPath (s_state s)) \<and> has_prefix ''backing-'' (path_base (BackingPath (s_state s))))"

lemma placed_active: "placed s \<Longrightarrow> data_path (active_path (s_state s))"
  by (simp add: placed_def active_path_def)

text \<open>Lease files are held exactly for the generations that have readers.\<close>

definition leases_ok :: "session \<Rightarrow> bool" where
  "leases_ok s \<longleftrightarrow> (\<forall>g. readerLeaseFiles s g \<longleftrightarrow> 0 < readerLeases s g)"

lemma leases_acquire: "leases_ok s \<Longrightarrow> leases_ok (acquire_reader g s)"
  by (simp add: leases_ok_def acquire_reader_def)

lemma leases_release: "leases_ok s \<Longrightarrow> leases_ok (releaseReader g s)"
  by (simp add: leases_ok_def releaseReader_def)

lemma release_acquire: "leases_ok s \<Longrightarrow> releaseReader g (acquire_reader g s) = s"
  by (cases s) (auto simp: leases_ok_def releaseReader_def acquire_reader_def fun_eq_iff)

lemma release_update: "releaseReader g (s\<lparr>s_state := x\<rparr>) = (releaseReader g s)\<lparr>s_state := x\<rparr>"
  by (simp add: releaseReader_def)

section \<open>Reading\<close>

lemma ReadHandle_delta:
  assumes "0 \<le> offset" and "0 < need" and "offset < rh_size h" and "ReadFile w (rh_file h) = Some f" and "\<not> rh_backing h"
    and "read_base rd h need offset c = (None, data, c')" and "length data < need" "offset + int (length data) \<ge> rh_baseBytes h"
    "offset + int (length data) < rh_size h" and "x = offset + int (length data) - rh_baseBytes h" and "want = need - length data"
    and "k = (if int want > rh_deltaBytes h - x then nat (rh_deltaBytes h - x) else want)" and "following = os_ReadAt f k x"
  shows "ReadHandle_ReadAt rd h need offset w c =
    (data @ following, if length data + length following < need then AtEOF else AtNil, c')"
proof -
  have c: "\<not> offset < 0" "need \<noteq> 0" "\<not> rh_size h \<le> offset" "\<not> rh_size h \<le> offset + int (length data)"
    using assms(1-3,9) by auto
  show ?thesis
    unfolding ReadHandle_ReadAt_def Let_def
    by (simp only: c assms(4-9) option.case prod.case if_False if_True simp_thms assms(10-13)[symmetric])
qed

lemma ReadHandle_base:
  assumes "0 \<le> offset" and "0 < need" and "offset < rh_size h" and "ReadFile w (rh_file h) = Some f" and "\<not> rh_backing h"
    and "read_base rd h need offset c = (None, data, c')"
    and "\<not> (length data < need \<and> offset + int (length data) \<ge> rh_baseBytes h \<and> offset + int (length data) < rh_size h)"
  shows "ReadHandle_ReadAt rd h need offset w c = (data, if length data < need then AtEOF else AtNil, c')"
proof -
  have c: "\<not> offset < 0" "need \<noteq> 0" "\<not> rh_size h \<le> offset"
    using assms(1-3) by auto
  show ?thesis
    unfolding ReadHandle_ReadAt_def Let_def by (simp only: c assms(4-7) option.case prod.case if_False)
qed

text \<open>The view reads the given bytes.\<close>

definition base_view :: "(object_ref \<Rightarrow> bytes option) \<Rightarrow> view \<Rightarrow> bytes \<Rightarrow> bool" where
  "base_view bytes_of v base \<longleftrightarrow> (\<exists>m. NewView m = Inr v \<and> parts_content bytes_of (Parts m) = Some base)"

text \<open>A handle that serves the given bytes: those of the backing file, or the base with a beginning of the delta file.\<close>

definition serves :: "(object_ref \<Rightarrow> bytes option) \<Rightarrow> bytes \<Rightarrow> read_handle \<Rightarrow> fs \<Rightarrow> bytes \<Rightarrow> bool" where
  "serves bytes_of base h w v \<longleftrightarrow> rh_size h = int (length v) \<and>
     (if rh_backing h then ReadFile w (rh_file h) = Some v
      else base_view bytes_of (rh_base h) base \<and> rh_baseBytes h = int (length base) \<and>
        (\<exists>d f. v = base @ d \<and> rh_deltaBytes h = int (length d) \<and> ReadFile w (rh_file h) = Some (d @ f)))"

text \<open>A session in a state that stands for the given bytes.\<close>

definition holds :: "(object_ref \<Rightarrow> bytes option) \<Rightarrow> ('s \<Rightarrow> bool) \<Rightarrow> bytes \<Rightarrow> bytes \<Rightarrow> session \<Rightarrow> fs \<Rightarrow> 's \<Rightarrow> bool" where
  "holds bytes_of ready base v s w c \<longleftrightarrow> placed s \<and> leases_ok s \<and> base_view bytes_of (s_view s) base \<and>
     BaseBytes (s_state s) = int (length base) \<and> visible base (s_state s) w = Some v \<and> int (length v) \<le> maxInt64 \<and> ready c"

text \<open>What \<open>ensureBacking\<close> does to a session: its bytes stay, the delta file stays, and on success the backing file holds the bytes.\<close>

definition backed :: "bytes \<Rightarrow> session \<Rightarrow> fs \<Rightarrow> session_error + string \<Rightarrow> session \<Rightarrow> fs \<Rightarrow> bool" where
  "backed v s w res s' w' \<longleftrightarrow> DeltaPath (s_state s') = DeltaPath (s_state s) \<and>
     ReadFile w' (DeltaPath (s_state s)) = ReadFile w (DeltaPath (s_state s)) \<and> (BackingPath (s_state s) \<noteq> '''' \<longrightarrow> s' = s \<and> w' = w) \<and>
     (\<forall>path. res = Inr path \<longrightarrow> path = BackingPath (s_state s') \<and> path \<noteq> '''' \<and> ReadFile w' path = Some v)"

text \<open>With a budget that admits and a publication that works copying on write succeeds.\<close>

definition admitting :: "('s, 'e) session_env \<Rightarrow> bool" where
  "admitting env \<longleftrightarrow> (\<forall>p. budget env p) \<and> (\<forall>p st w. publish env p st w \<noteq> None) \<and> (\<forall>p st i w. checkpoint env p st i w \<noteq> None)"

section \<open>Operations and their specification\<close>

datatype session_op = OpAppend bytes disk | OpWriteAt bytes int64 disk | OpTruncate int64 | OpSync

definition outcome :: "session_error + 'a \<Rightarrow> session_error option" where
  "outcome res = (case res of Inl e \<Rightarrow> Some e | Inr _ \<Rightarrow> None)"

lemma outcome_simps [simp]: "outcome (Inl e) = Some e" "outcome (Inr x) = None"
  by (simp_all add: outcome_def)

fun session_step :: "('s, 'e) session_env \<Rightarrow> session_op \<Rightarrow> session \<times> write_handle \<times> fs \<times> 's \<Rightarrow>
    session_error option \<times> session \<times> write_handle \<times> fs \<times> 's" where
  "session_step env (OpAppend data d) (s, h, w, c) = (case Append data d s h w of (res, h, w) \<Rightarrow> (outcome res, s, h, w, c))"
| "session_step env (OpWriteAt data offset d) (s, h, w, c) =
     (case WriteAt env data offset d s h w c of (res, s, h, w, c) \<Rightarrow> (outcome res, s, h, w, c))"
| "session_step env (OpTruncate n) (s, h, w, c) = (case Truncate env n s h w c of (res, s, h, w, c) \<Rightarrow> (outcome res, s, h, w, c))"
| "session_step env OpSync (s, h, w, c) = (case Sync env s h w of (res, h, w) \<Rightarrow> (outcome res, s, h, w, c))"

text \<open>The same operations on a string of bytes; what a failed operation leaves behind depends on its error.\<close>

fun spec_step :: "session_op \<Rightarrow> session_error option \<Rightarrow> bytes \<Rightarrow> bytes" where
  "spec_step (OpAppend data d) out v =
     (case out of None \<Rightarrow> v @ data | Some (RollbackFailed n) \<Rightarrow> v @ take n data | Some _ \<Rightarrow> v)"
| "spec_step (OpWriteAt data offset d) out v =
     (case out of None \<Rightarrow> write_at data (nat offset) v | Some (ShortWrite n) \<Rightarrow> write_at (take n data) (nat offset) v | Some _ \<Rightarrow> v)"
| "spec_step (OpTruncate n) out v = (case out of None \<Rightarrow> resize (nat n) v | Some _ \<Rightarrow> v)"
| "spec_step OpSync out v = v"

text \<open>The running hash of a writer is that of the active file, where it is valid for it; it is never for a file to come.\<close>

definition hash_ok :: "session_state \<Rightarrow> write_handle \<Rightarrow> fs \<Rightarrow> bool" where
  "hash_ok st h w \<longleftrightarrow> (appendHashValid h \<longrightarrow> appendHashPath h = DeltaPath st \<or> appendHashPath h = active_path st) \<and>
     (appendHashValid h \<and> appendHashPath h = path_clean (active_path st) \<longrightarrow>
     ReadFile w (active_path st) = Some (appendHasher h) \<and> appendHashBytes h = int (length (appendHasher h)))"

fun run_ok :: "(object_ref \<Rightarrow> bytes option) \<Rightarrow> ('s \<Rightarrow> bool) \<Rightarrow> bytes \<Rightarrow> bytes \<Rightarrow> session \<times> write_handle \<times> fs \<times> 's \<Rightarrow> bool" where
  "run_ok bytes_of ready base v (s, h, w, c) \<longleftrightarrow> holds bytes_of ready base v s w c \<and> hash_ok (s_state s) h w"

lemma run_ok_acquire: "run_ok bytes_of ready base v (s, h, w, c) \<Longrightarrow> run_ok bytes_of ready base v (acquire_reader g s, h, w, c)"
  using leases_acquire [of s g] by (auto simp: acquire_reader_def holds_def placed_def)

lemma holds_file:
  assumes "holds bytes_of ready base v s w c"
  obtains f where "ReadFile w (active_path (s_state s)) = Some f" "v = (if BackingPath (s_state s) \<noteq> '''' then f else base @ f)"
    "path_clean (active_path (s_state s)) = active_path (s_state s)"
  using assms placed_active [of s] unfolding holds_def visible_active data_path_def by blast

lemma holds_change:
  assumes "holds bytes_of ready base v s w c" and "ReadFile w (active_path (s_state s)) = Some f"
    and "v' = (if BackingPath (s_state s) \<noteq> '''' then g f else base @ g f)" and "int (length v') \<le> maxInt64"
  shows "holds bytes_of ready base v' s (change_file (active_path (s_state s)) g w) c"
  using assms unfolding holds_def visible_active by (auto simp: ReadFile_change)

lemma change_change: "change_file p g (change_file p f w) = change_file p (\<lambda>x. g (f x)) w"
  by (simp add: change_file_def option.map_comp comp_def)

lemma ensureAppendHash_ok:
  assumes "holds bytes_of ready base v s w c" and "hash_ok (s_state s) h w"
  obtains h1 where "ensureAppendHash (active_path (s_state s)) h w = Inr h1" "hash_ok (s_state s) h1 w" "wh_closed h1 = wh_closed h"
    "appendHashValid h1" "appendHashPath h1 = path_clean (active_path (s_state s))" "dirty h1 = dirty h"
proof -
  obtain f where f: "ReadFile w (active_path (s_state s)) = Some f" "path_clean (active_path (s_state s)) = active_path (s_state s)"
    using holds_file [OF assms(1)] by metis
  show thesis
  proof (cases "appendHashValid h \<and> appendHashPath h = active_path (s_state s)")
    case True
    then show thesis
      using assms(2) f by (intro that [of h]) (simp_all add: ensureAppendHash_def Let_def)
  next
    case False
    then show thesis
      using f by (intro that [of "h\<lparr>appendHasher := f, appendHashPath := active_path (s_state s), appendHashBytes := int (length f),
        appendHashValid := True\<rparr>"]) (auto simp: ensureAppendHash_def Let_def hash_ok_def)
  qed
qed

lemma disk_count_le: "disk_count d data \<le> length data"
  by (simp add: disk_count_def split: disk.split)

lemma Append_keeps:
  assumes ok: "holds bytes_of ready base v s w c" and hash: "hash_ok (s_state s) h w" and run: "Append data d s h w = (res, h', w')"
    and fits: "int (length (spec_step (OpAppend data d) (outcome res) v)) \<le> maxInt64"
  shows "holds bytes_of ready base (spec_step (OpAppend data d) (outcome res) v) s w' c \<and> hash_ok (s_state s) h' w'"
proof (cases "wh_closed h")
  case True
  then show ?thesis
    using ok hash run by (auto simp: Append_def)
next
  case False
  let ?path = "active_path (s_state s)"
  obtain f where f: "ReadFile w ?path = Some f" "v = (if BackingPath (s_state s) \<noteq> '''' then f else base @ f)" "path_clean ?path = ?path"
    using holds_file [OF ok] by blast
  obtain h1 where h1: "ensureAppendHash ?path h w = Inr h1" "hash_ok (s_state s) h1 w" "appendHashValid h1" "appendHashPath h1 = ?path"
    using ensureAppendHash_ok [OF ok hash] f(3) by metis
  have hashed: "appendHasher h1 = f" "appendHashBytes h1 = int (length f)"
    using h1 f by (auto simp: hash_ok_def)
  define n where "n = disk_count d data"
  have n: "n \<le> length data"
    by (simp add: n_def disk_count_le)
  define w1 where "w1 = change_file ?path (\<lambda>f. f @ take n data) w"
  have w1: "holds bytes_of ready base (v @ take n data) s w1 c" if "int (length (v @ take n data)) \<le> maxInt64"
    unfolding w1_def using that f(2) by (intro holds_change [OF ok f(1)]) auto
  have w2: "holds bytes_of ready base v s (change_file ?path (take (length f)) w1) c"
    unfolding w1_def change_change using f(2) ok by (intro holds_change [OF ok f(1)]) (auto simp: holds_def)
  show ?thesis
  proof (cases "(disk_fails d \<or> n \<noteq> length data) \<and> n > 0")
    case failed: True
    show ?thesis
    proof (cases "\<exists>k. d = DiskShort k True")
      case True
      then show ?thesis
        using run False h1 f failed w2
        by (auto simp: Append_def Let_def hash_ok_def ReadFile_change w1_def simp flip: n_def)
    next
      case rollback: False
      then have "res = Inl (RollbackFailed n)" "h' = h1\<lparr>appendHashValid := False, dirty := True\<rparr>" "w' = w1"
        using run False h1 f failed by (auto simp: Append_def Let_def w1_def simp flip: n_def split: disk.splits bool.splits)
      then show ?thesis
        using w1 fits n by (simp add: hash_ok_def)
    qed
  next
    case through: False
    define h2 where "h2 = (if n > 0 then h1\<lparr>appendHasher := appendHasher h1 @ take n data,
      appendHashBytes := wrap64 (appendHashBytes h1 + int n), dirty := True\<rparr> else h1)"
    have res: "res = (if disk_fails d \<or> n \<noteq> length data then Inl (ShortWrite n) else Inr n)" "h' = h2" "w' = w1"
      using run False h1 f through unfolding Append_def Let_def n_def [symmetric] by (auto simp: w1_def h2_def)
    then have spec: "spec_step (OpAppend data d) (outcome res) v = v @ take n data"
      using through n by auto
    have "length f \<le> length v"
      using f(2) by (simp split: if_splits)
    then have "wrap64 (int (length f) + int n) = int (length (f @ take n data))"
      using fits n unfolding spec by (auto intro!: trans [OF wrap64_id] in_int64_nonneg)
    then have "hash_ok (s_state s) h2 w1"
      using hashed f h1(4) by (auto simp: hash_ok_def h2_def w1_def ReadFile_change)
    then show ?thesis
      using w1 fits res(2,3) unfolding spec by simp
  qed
qed

text \<open>A run of operations with their outcomes, and the same run on a string of bytes.\<close>

inductive session_run :: "('s, 'e) session_env \<Rightarrow> session \<times> write_handle \<times> fs \<times> 's \<Rightarrow> (session_op \<times> session_error option) list \<Rightarrow>
    session \<times> write_handle \<times> fs \<times> 's \<Rightarrow> bool" for env where
  run_nil: "session_run env x [] x"
| run_step: "session_step env op x = (out, x1) \<Longrightarrow> session_run env x1 trace x' \<Longrightarrow> session_run env x ((op, out) # trace) x'"

inductive_cases session_run_Cons: "session_run env x ((op, out) # trace) x'"

fun spec_run :: "(session_op \<times> session_error option) list \<Rightarrow> bytes \<Rightarrow> bytes" where
  "spec_run [] v = v"
| "spec_run ((op, out) # trace) v = spec_run trace (spec_step op out v)"

text \<open>The file sizes along a run stay within \<open>int64\<close>.\<close>

fun run_fits :: "(session_op \<times> session_error option) list \<Rightarrow> bytes \<Rightarrow> bool" where
  "run_fits [] v \<longleftrightarrow> True"
| "run_fits ((op, out) # trace) v \<longleftrightarrow> int (length (spec_step op out v)) \<le> maxInt64 \<and> run_fits trace (spec_step op out v)"

text \<open>Publishing a state and refreshing its checkpoint leave the data files of sessions alone.\<close>

definition publication_keeps :: "('s, 'e) session_env \<Rightarrow> bool" where
  "publication_keeps env \<longleftrightarrow>
     (\<forall>p st w w' q. publish env p st w = Some w' \<and> path_base p = ''state.json'' \<and> data_path q \<longrightarrow> ReadFile w' q = ReadFile w q) \<and>
     (\<forall>p st i w w' q. checkpoint env p st i w = Some w' \<and> path_base p = ''state.json'' \<and> data_path q \<longrightarrow> ReadFile w' q = ReadFile w q)"

text \<open>Operations with arguments in range, on a disk that takes them.\<close>

fun valid_op :: "session_op \<Rightarrow> bool" where
  "valid_op (OpAppend data d) \<longleftrightarrow> d = DiskFull"
| "valid_op (OpWriteAt data offset d) \<longleftrightarrow> d = DiskFull \<and> 0 \<le> offset"
| "valid_op (OpTruncate n) \<longleftrightarrow> 0 \<le> n"
| "valid_op OpSync \<longleftrightarrow> True"

locale session_store = object_reader_at "base_reader env" ready bytes_of
  for env :: "('s, 'e) session_env" and ready :: "'s \<Rightarrow> bool" and bytes_of :: "object_ref \<Rightarrow> bytes option" +
  assumes publication_keeps: "publication_keeps env"
begin

lemma publish_keeps: "publish env p st w = Some w' \<Longrightarrow> path_base p = ''state.json'' \<Longrightarrow> data_path q \<Longrightarrow> ReadFile w' q = ReadFile w q"
  using publication_keeps unfolding publication_keeps_def by blast

lemma checkpoint_keeps:
  "checkpoint env p st i w = Some w' \<Longrightarrow> path_base p = ''state.json'' \<Longrightarrow> data_path q \<Longrightarrow> ReadFile w' q = ReadFile w q"
  using publication_keeps unfolding publication_keeps_def by blast

lemma base_view_reads:
  assumes "base_view bytes_of v base" and "ready c"
  shows "\<exists>c'. View_ReadAt (base_reader env) v need (int p) c =
    (take need (drop p base), (if length base - p < need then AtEOF else AtNil), c') \<and> ready c'"
  using assms View_ReadAt_content unfolding base_view_def by blast

lemma read_base_exact:
  assumes "base_view bytes_of (rh_base h) base" and "rh_baseBytes h = int (length base)" and "ready c" and "0 < need"
  shows "\<exists>c'. read_base (base_reader env) h need (int p) c = (None, take need (drop p base), c') \<and> ready c'"
proof (cases "p < length base")
  case True
  define k where "k = (if int need > rh_baseBytes h - int p then nat (rh_baseBytes h - int p) else need)"
  have k: "k = min need (length base - p)"
    using True assms(2) by (auto simp: k_def)
  obtain c' where c': "View_ReadAt (base_reader env) (rh_base h) k (int p) c =
      (take k (drop p base), (if length base - p < k then AtEOF else AtNil), c')" "ready c'"
    using base_view_reads [OF assms(1,3)] by blast
  have data: "take k (drop p base) = take need (drop p base)" "length (take need (drop p base)) = k"
    using k by (simp_all add: min_def)
  have "int p < rh_baseBytes h"
    using True assms(2) by simp
  then show ?thesis
    using c' data k unfolding read_base_def Let_def k_def [symmetric] by simp
next
  case False
  then show ?thesis
    using assms by (simp add: read_base_def)
qed

lemma ReadHandle_ReadAt_serves:
  assumes serves: "serves bytes_of base h w v" and ready: "ready c"
  shows "\<exists>c'. ReadHandle_ReadAt (base_reader env) h need (int p) w c =
    (take need (drop p v), (if length v - p < need then AtEOF else AtNil), c') \<and> ready c'"
proof (cases "0 < need \<and> p < length v")
  case False
  then show ?thesis
    using assms by (auto simp: ReadHandle_ReadAt_def serves_def)
next
  case True
  show ?thesis
  proof (cases "rh_backing h")
    case backing: True
    have "nat (rh_size h - int p) = length v - p"
      using serves True by (simp add: serves_def)
    then show ?thesis
      using serves ready True backing
      by (auto simp: ReadHandle_ReadAt_def serves_def os_ReadAt_def Let_def)
  next
    case delta: False
    then obtain d f where h: "base_view bytes_of (rh_base h) base" "rh_baseBytes h = int (length base)" "v = base @ d"
      "rh_deltaBytes h = int (length d)" "ReadFile w (rh_file h) = Some (d @ f)" "rh_size h = int (length v)"
      using serves by (auto simp: serves_def)
    define data where "data = take need (drop p base)"
    obtain c' where c': "read_base (base_reader env) h need (int p) c = (None, data, c')" "ready c'"
      using read_base_exact [OF h(1,2) ready] True by (auto simp: data_def)
    show ?thesis
    proof (cases "length data < need \<and> int p + int (length data) \<ge> rh_baseBytes h \<and> int p + int (length data) < rh_size h")
      case inside: True
      define q where "q = p + length data - length base"
      have q: "int p + int (length data) - rh_baseBytes h = int q" "q < length d" "p + length data = length base + q"
        using inside h by (auto simp: q_def)
      define k where "k = (if int (need - length data) > rh_deltaBytes h - int q then nat (rh_deltaBytes h - int q) else need - length data)"
      have k: "k = min (need - length data) (length d - q)"
        using q h(4) by (auto simp: k_def)
      have following: "os_ReadAt (d @ f) k (int q) = take (need - length data) (drop q d)"
        using q(2) k by (simp add: os_ReadAt_def min_def)
      have "length data = length base - p"
        using inside by (auto simp: data_def)
      then have "q = p - length base" "data = drop p base"
        using q(3) by (auto simp: data_def)
      then have all: "take need (drop p v) = data @ take (need - length data) (drop q d)"
        using inside h(3) by (simp add: min_def)
      have "ReadHandle_ReadAt (base_reader env) h need (int p) w c =
          (data @ os_ReadAt (d @ f) k (int q), if length data + length (os_ReadAt (d @ f) k (int q)) < need then AtEOF else AtNil, c')"
        using True h(6) inside by (intro ReadHandle_delta [OF _ _ _ h(5) delta c'(1) _ _ _ q(1) [symmetric] refl k_def refl]) simp_all
      moreover have "length data + length (os_ReadAt (d @ f) k (int q)) < need \<longleftrightarrow> length v - p < need"
        using arg_cong [OF all, of length] unfolding following length_append [symmetric] all [symmetric] by (simp add: min_less_iff_disj)
      ultimately show ?thesis
        using c'(2) all following by auto
    next
      case outside: False
      have "length data = min need (length base - p)"
        by (simp add: data_def min.commute)
      then have "length data = need \<and> need \<le> length base - p \<or> d = [] \<and> length data = length base - p"
        using True outside h(2,3,6) by (cases "need \<le> length base - p"; cases "p \<le> length base") auto
      then have "take need (drop p v) = data" "length data < need \<longleftrightarrow> length v - p < need"
        using True h(3) by (auto simp: data_def)
      then show ?thesis
        using True h(6) c'(2) ReadHandle_base [OF _ _ _ h(5) delta c'(1) outside] by auto
    qed
  qed
qed

lemma OpenReader_serves:
  assumes "holds bytes_of ready base v s w c"
  obtains h where "OpenReader s w = (Inr h, acquire_reader (StGeneration (s_state s)) s)" "serves bytes_of base h w v"
    "rh_generation h = StGeneration (s_state s)" "rh_closed h = False" "rh_backing h \<longleftrightarrow> BackingPath (s_state s) \<noteq> ''''"
    "rh_file h = active_path (s_state s)" "rh_size h = int (length v)"
proof -
  let ?st = "s_state s"
  obtain f where f: "ReadFile w (active_path ?st) = Some f" "v = (if BackingPath ?st \<noteq> '''' then f else base @ f)"
    using assms unfolding holds_def visible_active by blast
  obtain info where info: "Stat w (active_path ?st) = Some info" "Size info = int (length f)"
    using f(1) Stat_None_iff [of w] Stat_Some_Size [OF _ f(1)] by (cases "Stat w (active_path ?st)") auto
  have "wrap64 (BaseBytes ?st + Size info) = int (length v)" if "BackingPath ?st = ''''"
    using that assms f(2) info(2) by (auto simp: holds_def intro!: trans [OF wrap64_id] in_int64_nonneg)
  then show thesis
    using that assms f info by (auto simp: OpenReader_def Let_def serves_def holds_def acquire_reader_def)
qed

lemma cow_copy_exact:
  assumes "serves bytes_of base h w v"
  shows "ready c \<Longrightarrow> p \<le> length v \<Longrightarrow> \<exists>c'. cow_copy (base_reader env) h (int p) w c = (Inr (drop p v), c') \<and> ready c'"
proof (induction "length v - p" arbitrary: p c rule: less_induct)
  case less
  have size: "rh_size h = int (length v)"
    using assms by (simp add: serves_def)
  show ?case
  proof (cases "p < length v")
    case False
    then show ?thesis
      using less.prems size by (subst cow_copy.simps) simp
  next
    case True
    define k where "k = copy_need h (int p)"
    define data where "data = take k (drop p v)"
    have k: "0 < k" "k \<le> length v - p"
      using True size by (auto simp: k_def copy_need_def)
    obtain c1 where read: "ReadHandle_ReadAt (base_reader env) h k (int p) w c = (data, AtNil, c1)" "ready c1"
      using ReadHandle_ReadAt_serves [OF assms less.prems(1), of k p] k(2) by (auto simp: data_def)
    have data: "data \<noteq> []" "length data = k"
      using k by (auto simp: data_def)
    have "length v - (p + k) < length v - p" "p + k \<le> length v"
      using k True by auto
    then obtain c2 where "cow_copy (base_reader env) h (int (p + k)) w c1 = (Inr (drop (p + k) v), c2)" "ready c2"
      using less.hyps [OF _ read(2)] by blast
    moreover have "data @ drop (p + k) v = drop p v"
      by (simp add: data_def add.commute flip: drop_drop)
    ultimately show ?thesis
      using True size read data by (subst cow_copy.simps) (simp flip: k_def)
  qed
qed

text \<open>Publishing a backing file: it holds the data, and no other data file changes.\<close>

lemma publish_backing_cases:
  assumes "placed s" and "publish_backing env data verified s w = (res, s', w')"
  defines "path \<equiv> backing_path (directory s) (StGeneration (s_state s) + 1)"
  shows "(\<forall>q. data_path q \<longrightarrow> q \<noteq> path \<longrightarrow> ReadFile w' q = ReadFile w q) \<and>
    (res = Inl PublishFailed \<and> s' = s \<or>
     res = Inr path \<and> s' = s\<lparr>s_state := (s_state s)\<lparr>StGeneration := StGeneration (s_state s) + 1, BackingPath := path\<rparr>\<rparr> \<and>
     ReadFile w' path = Some data)"
proof -
  have dir: "is_abs (directory s)" and state: "path_base (statePath s) = ''state.json''"
    using assms(1) by (simp_all add: placed_def)
  note path = backing_path_facts [OF dir, of "StGeneration (s_state s) + 1", folded path_def]
  show ?thesis
    using assms(2) path(1) ReadFile_journal [OF dir] publish_keeps [OF _ state]
    unfolding publish_backing_def Let_def path_def [symmetric]
    by (auto split: option.splits)
qed

lemma publish_backing_succeeds: "(\<And>p st w. publish env p st w \<noteq> None) \<Longrightarrow> \<exists>path s' w'. publish_backing env data verified s w = (Inr path, s', w')"
  by (auto simp: publish_backing_def Let_def split: option.splits)

lemma ensureBacking_open:
  assumes "holds bytes_of ready base v s w c" and "BackingPath (s_state s) = ''''"
  obtains s1 size c1 verified where "s1 = acquire_reader (StGeneration (s_state s)) s" "ready c1"
    "ensureBacking env s w c =
      (if \<not> budget env \<lparr>Operation = ''copy-on-write'', AdditionalPersistentBytes = size, TemporaryBytes = size,
         TemporaryPersistentOverlapBytes = size, ReclaimableBytes = 0\<rparr>
       then (Inl OverBudget, s, w, c)
       else case publish_backing env v verified s1 w of
         (res, s', w') \<Rightarrow> (res, releaseReader (StGeneration (s_state s)) s', w', c1))"
proof -
  let ?g = "StGeneration (s_state s)"
  obtain h where h: "OpenReader s w = (Inr h, acquire_reader ?g s)" "serves bytes_of base h w v" "rh_generation h = ?g"
    "rh_closed h = False" "rh_size h = int (length v)"
    using OpenReader_serves [OF assms(1)] by metis
  obtain c1 where c1: "cow_copy (base_reader env) h 0 w c = (Inr v, c1)" "ready c1"
    using cow_copy_exact [OF h(2), of c 0] assms(1) by (auto simp: holds_def)
  have release: "releaseReader ?g (acquire_reader ?g s) = s"
    using assms(1) by (simp add: holds_def release_acquire)
  define verified where "verified = \<lparr>NativePath = temporary env w, NativeBytes = int (length v), NativeSHA256 = sha256_hex v\<rparr>"
  have "hashNativePath (temporary env w) (install_file (temporary env w) v w) = Inr verified"
    by (simp add: hashNativePath_def verified_def)
  then show thesis
    using h c1 release assms(2)
    by (intro that [OF refl c1(2), of "rh_size h" verified])
      (simp add: ensureBacking_def ReadHandle_Close_def verified_def case_prod_beta Let_def)
qed

lemma publish_backing_holds:
  assumes ok: "holds bytes_of ready base v s w c" and unbacked: "BackingPath (s_state s) = ''''"
    and s1: "s1 = acquire_reader (StGeneration (s_state s)) s" and pub: "publish_backing env v verified s1 w = (res, s2, w')"
    and s': "s' = releaseReader (StGeneration (s_state s)) s2" and "ready c'"
  shows "holds bytes_of ready base v s' w' c' \<and> backed v s w res s' w'"
proof -
  let ?st = "s_state s" and ?g = "StGeneration (s_state s)"
  have placed: "placed s" and leases: "leases_ok s" and dir: "is_abs (directory s)"
    using ok by (simp_all add: holds_def placed_def)
  have st1: "s_state s1 = ?st" "directory s1 = directory s" "placed s1"
    using placed by (simp_all add: s1 acquire_reader_def placed_def)
  define path where "path = backing_path (directory s) (?g + 1)"
  have cases: "(\<forall>q. data_path q \<longrightarrow> q \<noteq> path \<longrightarrow> ReadFile w' q = ReadFile w q) \<and>
    (res = Inl PublishFailed \<and> s2 = s1 \<or>
     res = Inr path \<and> s2 = s1\<lparr>s_state := ?st\<lparr>StGeneration := ?g + 1, BackingPath := path\<rparr>\<rparr> \<and> ReadFile w' path = Some v)"
    using publish_backing_cases [OF st1(3) pub] by (simp add: st1 path_def)
  note path = backing_path_facts [OF dir, of "?g + 1", folded path_def]
  have "DeltaPath ?st \<noteq> path" "data_path (DeltaPath ?st)"
    using placed path(3) by (auto simp: placed_def)
  then have delta: "ReadFile w' (DeltaPath ?st) = ReadFile w (DeltaPath ?st)"
    using cases by blast
  have release: "releaseReader ?g s1 = s" "releaseReader ?g (s1\<lparr>s_state := x\<rparr>) = s\<lparr>s_state := x\<rparr>" for x
    using release_acquire [OF leases, of ?g] by (simp_all add: s1 release_update)
  show ?thesis
    using cases
  proof (elim conjE disjE)
    assume "res = Inl PublishFailed" "s2 = s1"
    then show ?thesis
      using ok s' assms(6) delta release(1) unbacked by (auto simp: holds_def visible_def backed_def)
  next
    assume "res = Inr path" "s2 = s1\<lparr>s_state := ?st\<lparr>StGeneration := ?g + 1, BackingPath := path\<rparr>\<rparr>" "ReadFile w' path = Some v"
    then show ?thesis
      using ok s' assms(6) delta release(2) path unbacked
      by (auto simp: holds_def visible_def placed_def leases_ok_def backed_def)
  qed
qed

lemma ensureBacking_holds:
  assumes ok: "holds bytes_of ready base v s w c" and run: "ensureBacking env s w c = (res, s', w', c')"
  shows "holds bytes_of ready base v s' w' c'" and "backed v s w res s' w'"
proof -
  have "holds bytes_of ready base v s' w' c' \<and> backed v s w res s' w'"
  proof (cases "BackingPath (s_state s) = ''''")
    case False
    then show ?thesis
      using ok run by (auto simp: ensureBacking_def Let_def holds_def visible_def backed_def)
  next
    case True
    show ?thesis
    proof (rule ensureBacking_open [OF ok True])
      fix s1 size c1 verified
      assume s1: "s1 = acquire_reader (StGeneration (s_state s)) s" "ready c1"
        and step: "ensureBacking env s w c =
          (if \<not> budget env \<lparr>Operation = ''copy-on-write'', AdditionalPersistentBytes = size, TemporaryBytes = size,
             TemporaryPersistentOverlapBytes = size, ReclaimableBytes = 0\<rparr>
           then (Inl OverBudget, s, w, c)
           else case publish_backing env v verified s1 w of
             (res, s', w') \<Rightarrow> (res, releaseReader (StGeneration (s_state s)) s', w', c1))"
      obtain r2 s2 w2 where pub: "publish_backing env v verified s1 w = (r2, s2, w2)"
        by (cases "publish_backing env v verified s1 w")
      have "backed v s w (Inl OverBudget) s w"
        using True by (simp add: backed_def)
      then show ?thesis
        using ok run [unfolded step] publish_backing_holds [OF ok True s1(1) pub refl s1(2)]
        by (auto simp: pub split: if_splits)
    qed
  qed
  then show "holds bytes_of ready base v s' w' c'" "backed v s w res s' w'"
    by simp_all
qed

lemma ensureBacking_succeeds:
  assumes "admitting env" and "holds bytes_of ready base v s w c" and "ensureBacking env s w c = (res, s', w', c')"
  shows "\<exists>path. res = Inr path"
proof (cases "BackingPath (s_state s) = ''''")
  case False
  then show ?thesis
    using assms(3) by (auto simp: ensureBacking_def Let_def)
next
  case True
  show ?thesis
  proof (rule ensureBacking_open [OF assms(2) True])
    fix s1 size c1 verified
    assume "ensureBacking env s w c =
          (if \<not> budget env \<lparr>Operation = ''copy-on-write'', AdditionalPersistentBytes = size, TemporaryBytes = size,
             TemporaryPersistentOverlapBytes = size, ReclaimableBytes = 0\<rparr>
           then (Inl OverBudget, s, w, c)
           else case publish_backing env v verified s1 w of
             (res, s', w') \<Rightarrow> (res, releaseReader (StGeneration (s_state s)) s', w', c1))"
    moreover obtain path s2 w2 where "publish_backing env v verified s1 w = (Inr path, s2, w2)"
      using publish_backing_succeeds [of v verified s1 w] assms(1) by (auto simp: admitting_def)
    ultimately show ?thesis
      using assms(1,3) by (simp add: admitting_def)
  qed
qed

section \<open>Every operation refines its specification\<close>

lemma hash_ok_backed:
  assumes "holds bytes_of ready base v s w c" and "holds bytes_of ready base v s' w' c'" and "backed v s w res s' w'"
    and "hash_ok (s_state s) h w"
  shows "hash_ok (s_state s') h w'"
proof (cases "BackingPath (s_state s) = '''' \<and> BackingPath (s_state s') \<noteq> ''''")
  case False
  then have "active_path (s_state s') = active_path (s_state s) \<and> ReadFile w' (active_path (s_state s)) = ReadFile w (active_path (s_state s))"
    using assms(3) by (auto simp: backed_def active_path_def)
  moreover have "DeltaPath (s_state s') = DeltaPath (s_state s)"
    using assms(3) by (simp add: backed_def)
  ultimately show ?thesis
    using assms(4) by (simp add: hash_ok_def)
next
  case True
  then have "active_path (s_state s) = DeltaPath (s_state s')" "active_path (s_state s') \<noteq> DeltaPath (s_state s')"
    using assms(2,3) by (auto simp: backed_def active_path_def holds_def placed_def)
  moreover have "path_clean (active_path (s_state s')) = active_path (s_state s')"
    using assms(2) placed_active [of s'] by (simp add: holds_def data_path_def)
  ultimately show ?thesis
    using assms(3,4) by (auto simp: hash_ok_def backed_def)
qed

lemma ensureBacking_error:
  assumes "holds bytes_of ready base v s w c" and "ensureBacking env s w c = (Inl e, s', w', c')"
  shows "e = OverBudget \<or> e = PublishFailed"
proof (cases "BackingPath (s_state s) = ''''")
  case False
  then show ?thesis
    using assms(2) by (auto simp: ensureBacking_def Let_def)
next
  case True
  show ?thesis
  proof (rule ensureBacking_open [OF assms(1) True])
    fix s1 size c1 verified
    assume step: "ensureBacking env s w c =
          (if \<not> budget env \<lparr>Operation = ''copy-on-write'', AdditionalPersistentBytes = size, TemporaryBytes = size,
             TemporaryPersistentOverlapBytes = size, ReclaimableBytes = 0\<rparr>
           then (Inl OverBudget, s, w, c)
           else case publish_backing env v verified s1 w of
             (res, s', w') \<Rightarrow> (res, releaseReader (StGeneration (s_state s)) s', w', c1))"
    obtain r s2 w2 where pub: "publish_backing env v verified s1 w = (r, s2, w2)"
      by (cases "publish_backing env v verified s1 w")
    then have "r = Inl PublishFailed \<or> (\<exists>path. r = Inr path)"
      by (auto simp: publish_backing_def Let_def split: option.splits)
    then show ?thesis
      using assms(2) [unfolded step] pub by (auto split: if_splits)
  qed
qed

lemma backed_write:
  assumes ok: "holds bytes_of ready base v s w c" and backing: "BackingPath (s_state s) \<noteq> ''''" and fits: "int (length (g v)) \<le> maxInt64"
  shows "holds bytes_of ready base (g v) s (change_file (BackingPath (s_state s)) g w) c"
proof -
  have "active_path (s_state s) = BackingPath (s_state s)" "ReadFile w (active_path (s_state s)) = Some v"
    using ok backing by (auto simp: active_path_def holds_def visible_def)
  then show ?thesis
    using holds_change [OF ok, of v "g v" g] backing fits by simp
qed

lemma WriteAt_keeps:
  assumes ok: "run_ok bytes_of ready base v (s, h, w, c)" and run: "WriteAt env data offset d s h w c = (res, s', h', w', c')"
    and fits: "int (length (spec_step (OpWriteAt data offset d) (outcome res) v)) \<le> maxInt64"
  shows "run_ok bytes_of ready base (spec_step (OpWriteAt data offset d) (outcome res) v) (s', h', w', c')"
proof (cases "wh_closed h \<or> offset < 0")
  case True
  then show ?thesis
    using ok run by (auto simp: WriteAt_def split: if_splits)
next
  case False
  have holds: "holds bytes_of ready base v s w c" and hash: "hash_ok (s_state s) h w"
    using ok by simp_all
  obtain r s1 w1 c1 where ens: "ensureBacking env s w c = (r, s1, w1, c1)"
    by (cases "ensureBacking env s w c")
  note b = ensureBacking_holds [OF holds ens]
  note hash1 = hash_ok_backed [OF holds b hash]
  show ?thesis
  proof (cases r)
    case (Inl e)
    moreover have "e \<noteq> ShortWrite n" for n
      using ensureBacking_error [OF holds ens [unfolded Inl]] by auto
    ultimately show ?thesis
      using run False ens b(1) hash1 by (cases e) (auto simp: WriteAt_def)
  next
    case (Inr path)
    then have path: "path = BackingPath (s_state s1)" "path \<noteq> ''''" "ReadFile w1 path = Some v"
      using b(2) by (auto simp: backed_def)
    define n where "n = disk_count d data"
    define g where "g = write_at (take n data) (nat offset)"
    have res: "res = (if disk_fails d then Inl (ShortWrite n) else Inr n)" "s' = s1" "c' = c1" "w' = change_file path g w1"
      "h' = (if n > 0 then h\<lparr>dirty := True, appendHashValid := False\<rparr> else h)"
      using run False ens Inr path(3) unfolding WriteAt_def Let_def n_def [symmetric] g_def by auto
    have spec: "spec_step (OpWriteAt data offset d) (outcome res) v = g v"
      by (auto simp: res(1) g_def n_def disk_count_def disk_fails_def split: disk.split)
    have "holds bytes_of ready base (g v) s1 w' c1"
      using backed_write [OF b(1), of g] path fits res(4) unfolding spec by simp
    moreover have "g x = x" if "n = 0" for x
      using that by (simp add: g_def write_at_def)
    then have "hash_ok (s_state s1) h' w'"
      using hash1 res(4,5) by (auto simp: hash_ok_def ReadFile_change)
    ultimately show ?thesis
      unfolding spec using res(2,3) by simp
  qed
qed

lemma resize_self: "resize (length v) v = v"
  by (simp add: resize_def)

lemma VisibleInfo_size:
  assumes "holds bytes_of ready base v s w c"
  obtains info where "VisibleInfo s w = Inr info" "VisibleSize info = int (length v)"
proof -
  obtain f where f: "ReadFile w (active_path (s_state s)) = Some f" "v = (if BackingPath (s_state s) \<noteq> '''' then f else base @ f)"
    using holds_file [OF assms] by metis
  obtain info where info: "Stat w (active_path (s_state s)) = Some info" "Size info = int (length f)"
    using f(1) Stat_None_iff [of w] Stat_Some_Size [OF _ f(1)] by (cases "Stat w (active_path (s_state s))") auto
  have "wrap64 (Size info + BaseBytes (s_state s)) = int (length v)" if "BackingPath (s_state s) = ''''"
    using that assms f(2) info(2) by (auto simp: holds_def intro!: trans [OF wrap64_id] in_int64_nonneg)
  then show thesis
    using that f info by (auto simp: VisibleInfo_def Let_def)
qed

lemma Truncate_keeps:
  assumes ok: "run_ok bytes_of ready base v (s, h, w, c)" and run: "Truncate env n s h w c = (res, s', h', w', c')"
    and fits: "int (length (spec_step (OpTruncate n) (outcome res) v)) \<le> maxInt64"
  shows "run_ok bytes_of ready base (spec_step (OpTruncate n) (outcome res) v) (s', h', w', c')"
proof -
  have holds: "holds bytes_of ready base v s w c" and hash: "hash_ok (s_state s) h w"
    using ok by simp_all
  obtain info where info: "VisibleInfo s w = Inr info" "VisibleSize info = int (length v)"
    using VisibleInfo_size [OF holds] by blast
  show ?thesis
  proof (cases "wh_closed h \<or> n < 0 \<or> n = int (length v)")
    case True
    then show ?thesis
      using ok run info by (auto simp: Truncate_def resize_self split: if_splits)
  next
    case False
    obtain r s1 w1 c1 where ens: "ensureBacking env s w c = (r, s1, w1, c1)"
      by (cases "ensureBacking env s w c")
    note b = ensureBacking_holds [OF holds ens]
    note hash1 = hash_ok_backed [OF holds b hash]
    show ?thesis
    proof (cases r)
      case (Inl e)
      then show ?thesis
        using run False ens b(1) hash1 info by (auto simp: Truncate_def)
    next
      case (Inr path)
      then have path: "path = BackingPath (s_state s1)" "path \<noteq> ''''" "ReadFile w1 path = Some v"
        using b(2) by (auto simp: backed_def)
      then have res: "res = Inr ()" "s' = s1" "c' = c1" "w' = change_file path (resize (nat n)) w1"
        "h' = h\<lparr>dirty := True, appendHashValid := False\<rparr>"
        using run False ens Inr info by (auto simp: Truncate_def)
      then show ?thesis
        using backed_write [OF b(1), of "resize (nat n)"] path fits by (simp add: hash_ok_def)
    qed
  qed
qed

lemma Sync_keeps:
  assumes ok: "run_ok bytes_of ready base v (s, h, w, c)" and run: "Sync env s h w = (res, h', w')"
  shows "run_ok bytes_of ready base v (s, h', w', c)"
proof -
  have holds: "holds bytes_of ready base v s w c" and hash: "hash_ok (s_state s) h w"
    using ok by simp_all
  have path: "data_path (active_path (s_state s))" "path_base (statePath s) = ''state.json''"
    using holds placed_active by (simp_all add: holds_def placed_def)
  have "ReadFile w' (active_path (s_state s)) = ReadFile w (active_path (s_state s))"
    using run checkpoint_keeps [OF _ path(2,1)] by (auto simp: Sync_def Let_def split: if_splits option.splits)
  moreover have "appendHashPath h' = appendHashPath h \<and> appendHasher h' = appendHasher h \<and> appendHashBytes h' = appendHashBytes h \<and>
      (appendHashValid h' \<longrightarrow> appendHashValid h)"
    using run by (auto simp: Sync_def Let_def split: if_splits option.splits)
  ultimately show ?thesis
    using holds hash unfolding run_ok.simps holds_def visible_active hash_ok_def by auto
qed

lemma session_step_keeps:
  assumes "run_ok bytes_of ready base v x" and "session_step env op x = (out, x')" and "int (length (spec_step op out v)) \<le> maxInt64"
  shows "run_ok bytes_of ready base (spec_step op out v) x'"
proof -
  obtain s h w c s' h' w' c' where x: "x = (s, h, w, c)" "x' = (s', h', w', c')"
    by (cases x; cases x')
  show ?thesis
  proof (cases op)
    case (OpAppend data d)
    then show ?thesis
      using assms Append_keeps [of bytes_of ready base v s w c h data d] by (auto simp: x split: prod.splits simp del: spec_step.simps)
  next
    case (OpWriteAt data offset d)
    then show ?thesis
      using assms WriteAt_keeps [of base v s h w c data offset d] by (auto simp: x split: prod.splits simp del: spec_step.simps run_ok.simps)
  next
    case (OpTruncate n)
    then show ?thesis
      using assms Truncate_keeps [of base v s h w c n] by (auto simp: x split: prod.splits simp del: spec_step.simps run_ok.simps)
  next
    case OpSync
    then show ?thesis
      using assms Sync_keeps [of base v s h w c] by (auto simp: x split: prod.splits simp del: run_ok.simps)
  qed
qed

lemma session_run_keeps:
  "session_run env x trace x' \<Longrightarrow> run_ok bytes_of ready base v x \<Longrightarrow> run_fits trace v \<Longrightarrow> run_ok bytes_of ready base (spec_run trace v) x'"
proof (induction arbitrary: v rule: session_run.induct)
  case (run_nil x)
  then show ?case
    by simp
next
  case (run_step op x out x1 trace x')
  then show ?case
    using session_step_keeps [OF run_step.prems(1) run_step.hyps(1)] by simp
qed

section \<open>Readers keep what they have opened\<close>

text \<open>No operation takes anything away from a delta file.\<close>

lemma WriteAt_delta:
  assumes "holds bytes_of ready base v s w c" and "WriteAt env data offset d s h w c = (res, s', h', w', c')"
  shows "DeltaPath (s_state s') = DeltaPath (s_state s) \<and> ReadFile w' (DeltaPath (s_state s)) = ReadFile w (DeltaPath (s_state s))"
proof -
  obtain r s1 w1 c1 where ens: "ensureBacking env s w c = (r, s1, w1, c1)"
    by (cases "ensureBacking env s w c")
  note b = ensureBacking_holds [OF assms(1) ens]
  have "BackingPath (s_state s1) \<noteq> DeltaPath (s_state s)" if "r = Inr path" for path
    using b that by (auto simp: holds_def placed_def backed_def)
  then show ?thesis
    using assms(2) ens b(2) unfolding WriteAt_def
    by (auto simp: backed_def ReadFile_change Let_def split: if_splits sum.splits option.splits)
qed

lemma Truncate_delta:
  assumes "holds bytes_of ready base v s w c" and "Truncate env n s h w c = (res, s', h', w', c')"
  shows "DeltaPath (s_state s') = DeltaPath (s_state s) \<and> ReadFile w' (DeltaPath (s_state s)) = ReadFile w (DeltaPath (s_state s))"
proof -
  obtain r s1 w1 c1 where ens: "ensureBacking env s w c = (r, s1, w1, c1)"
    by (cases "ensureBacking env s w c")
  note b = ensureBacking_holds [OF assms(1) ens]
  have "BackingPath (s_state s1) \<noteq> DeltaPath (s_state s)" if "r = Inr path" for path
    using b that by (auto simp: holds_def placed_def backed_def)
  then show ?thesis
    using assms(2) ens b(2) unfolding Truncate_def
    by (auto simp: backed_def ReadFile_change split: if_splits sum.splits option.splits)
qed

lemma Append_delta:
  assumes ok: "holds bytes_of ready base v s w c" and f: "ReadFile w (DeltaPath (s_state s)) = Some f" and run: "Append data d s h w = (res, h', w')"
  shows "\<exists>g. ReadFile w' (DeltaPath (s_state s)) = Some (f @ g)"
proof (cases "BackingPath (s_state s) = ''''")
  case False
  then have "active_path (s_state s) \<noteq> DeltaPath (s_state s)"
    using ok by (auto simp: holds_def placed_def active_path_def)
  then have "ReadFile w' (DeltaPath (s_state s)) = ReadFile w (DeltaPath (s_state s))"
    using run by (auto simp: Append_def Let_def ReadFile_change split: if_splits sum.splits option.splits disk.splits bool.splits)
  then show ?thesis
    using f by simp
next
  case True
  then have active: "active_path (s_state s) = DeltaPath (s_state s)"
    by (simp add: active_path_def)
  then show ?thesis
    using run f by (auto simp: Append_def Let_def ReadFile_change split: if_splits sum.splits option.splits disk.splits bool.splits)
qed

lemma session_step_delta:
  assumes ok: "run_ok bytes_of ready base v (s, h, w, c)" and f: "ReadFile w (DeltaPath (s_state s)) = Some f"
    and run: "session_step env op (s, h, w, c) = (out, s', h', w', c')"
  shows "DeltaPath (s_state s') = DeltaPath (s_state s) \<and> (\<exists>g. ReadFile w' (DeltaPath (s_state s)) = Some (f @ g))"
proof -
  have holds: "holds bytes_of ready base v s w c"
    using ok by simp
  have path: "data_path (DeltaPath (s_state s))" "path_base (statePath s) = ''state.json''"
    using holds by (simp_all add: holds_def placed_def)
  show ?thesis
  proof (cases op)
    case (OpAppend data d)
    then show ?thesis
      using run Append_delta [OF holds f] by (auto split: prod.splits)
  next
    case (OpWriteAt data offset d)
    then show ?thesis
      using run WriteAt_delta [OF holds, of data offset d h] f by (auto split: prod.splits)
  next
    case (OpTruncate n)
    then show ?thesis
      using run Truncate_delta [OF holds, of n h] f by (auto split: prod.splits)
  next
    case OpSync
    then show ?thesis
      using run f checkpoint_keeps [OF _ path(2,1)] by (auto simp: Sync_def Let_def split: prod.splits if_splits option.splits)
  qed
qed

lemma session_run_delta:
  "session_run env x trace x' \<Longrightarrow> run_ok bytes_of ready base v x \<Longrightarrow> run_fits trace v \<Longrightarrow> x = (s, h, w, c) \<Longrightarrow> x' = (s', h', w', c') \<Longrightarrow>
   ReadFile w (DeltaPath (s_state s)) = Some f \<Longrightarrow> \<exists>g. ReadFile w' (DeltaPath (s_state s)) = Some (f @ g)"
proof (induction arbitrary: v s h w c f rule: session_run.induct)
  case (run_nil x)
  then show ?case
    by simp
next
  case (run_step op x out x1 trace x')
  obtain s1 h1 w1 c1 where x1: "x1 = (s1, h1, w1, c1)"
    by (cases x1)
  obtain g where "DeltaPath (s_state s1) = DeltaPath (s_state s)" "ReadFile w1 (DeltaPath (s_state s)) = Some (f @ g)"
    using session_step_delta [of base v s h w c f op out s1 h1 w1 c1] run_step.prems run_step.hyps(1) x1 by auto
  then show ?case
    using run_step.IH [OF session_step_keeps [OF run_step.prems(1) run_step.hyps(1)] _ x1 run_step.prems(4), of "f @ g"] run_step.prems(2)
    by auto
qed

lemma reader_snapshot:
  assumes ok: "run_ok bytes_of ready base v (s, h, w, c)" and opened: "BackingPath (s_state s) = ''''" "OpenReader s w = (Inr rh, s1)"
    and run: "session_run env (s1, h, w, c) trace (s', h', w', c')" "run_fits trace v" and ready: "ready c2"
  shows "\<exists>c3. ReadHandle_ReadAt (base_reader env) rh need (int p) w' c2 =
    (take need (drop p v), (if length v - p < need then AtEOF else AtNil), c3) \<and> ready c3"
proof -
  have holds: "holds bytes_of ready base v s w c"
    using ok by simp
  obtain h0 where h0: "OpenReader s w = (Inr h0, acquire_reader (StGeneration (s_state s)) s)" "serves bytes_of base h0 w v"
    "rh_backing h0 \<longleftrightarrow> BackingPath (s_state s) \<noteq> ''''" "rh_file h0 = active_path (s_state s)"
    using OpenReader_serves [OF holds] by metis
  then have rh: "rh = h0" and s1: "s1 = acquire_reader (StGeneration (s_state s)) s"
    using opened(2) by simp_all
  have s1': "s_state s1 = s_state s" "run_ok bytes_of ready base v (s1, h, w, c)"
    using run_ok_acquire [OF ok] by (simp_all add: s1 acquire_reader_def)
  obtain f where f: "ReadFile w (DeltaPath (s_state s)) = Some f"
    using holds opened(1) by (auto simp: holds_def visible_def)
  obtain g where "ReadFile w' (DeltaPath (s_state s)) = Some (f @ g)"
    using session_run_delta [OF run(1) s1'(2) run(2) refl refl] f s1'(1) by auto
  then have "serves bytes_of base rh w' v"
    using h0(2-4) f opened(1) rh by (auto simp: serves_def active_path_def)
  then show ?thesis
    using ready by (rule ReadHandle_ReadAt_serves)
qed

section \<open>Operations succeed\<close>

lemma Append_succeeds:
  assumes "holds bytes_of ready base v s w c" and "hash_ok (s_state s) h w" and "\<not> wh_closed h"
  shows "\<exists>h' w'. Append data DiskFull s h w = (Inr (length data), h', w')"
proof -
  obtain h1 where "ensureAppendHash (active_path (s_state s)) h w = Inr h1"
    using ensureAppendHash_ok [OF assms(1,2)] by metis
  moreover obtain f where "ReadFile w (active_path (s_state s)) = Some f"
    using holds_file [OF assms(1)] by metis
  ultimately show ?thesis
    using assms(3) by (simp add: Append_def disk_count_def disk_fails_def Let_def)
qed

lemma step_succeeds:
  assumes env: "admitting env" and ok: "run_ok bytes_of ready base v (s, h, w, c)" and opened: "\<not> wh_closed h" and op: "valid_op op"
  shows "fst (session_step env op (s, h, w, c)) = None"
proof -
  have holds: "holds bytes_of ready base v s w c" and hash: "hash_ok (s_state s) h w"
    using ok by simp_all
  obtain r s1 w1 c1 where ens: "ensureBacking env s w c = (r, s1, w1, c1)"
    by (cases "ensureBacking env s w c")
  obtain path where r: "r = Inr path"
    using ensureBacking_succeeds [OF env holds ens] by blast
  have there: "ReadFile w1 path = Some v"
    using ensureBacking_holds(2) [OF holds ens] r by (auto simp: backed_def)
  obtain info where info: "VisibleInfo s w = Inr info"
    using VisibleInfo_size [OF holds] by metis
  show ?thesis
  proof (cases op)
    case (OpAppend data d)
    then show ?thesis
      using op Append_succeeds [OF holds hash opened, of data] by auto
  next
    case (OpWriteAt data offset d)
    then show ?thesis
      using op opened ens r there by (auto simp: WriteAt_def Let_def disk_fails_def)
  next
    case (OpTruncate n)
    then show ?thesis
      using op opened ens r there info by (auto simp: Truncate_def)
  next
    case OpSync
    have "Stat w (active_path (s_state s)) \<noteq> None"
      using holds_file [OF holds] Stat_None_iff by (metis option.distinct(1))
    moreover have "checkpoint env (statePath s) (s_state s) (active_identity (s_state s) h w) w \<noteq> None"
      using env unfolding admitting_def by blast
    ultimately show ?thesis
      using OpSync opened by (auto simp: Sync_def Let_def)
  qed
qed

lemma opened_reads:
  assumes "holds bytes_of ready base v s w c"
  shows "\<exists>rh s1. OpenReader s w = (Inr rh, s1) \<and> (\<forall>need p. \<exists>c'. ReadHandle_ReadAt (base_reader env) rh need (int p) w c =
    (take need (drop p v), (if length v - p < need then AtEOF else AtNil), c') \<and> ready c')"
proof -
  obtain h where "OpenReader s w = (Inr h, acquire_reader (StGeneration (s_state s)) s)" "serves bytes_of base h w v"
    using OpenReader_serves [OF assms] by metis
  moreover have "ready c"
    using assms by (simp add: holds_def)
  ultimately show ?thesis
    using ReadHandle_ReadAt_serves by blast
qed

end

section \<open>Sessions over a pack generation\<close>

lemma packed_session_store: "base_reader env = packed_reader z r \<Longrightarrow> publication_keeps env \<Longrightarrow>
    session_store env (cache_sound z r) (packed_content z r)"
  by (simp add: session_store_def session_store_axioms_def packed.object_reader_at_axioms)

text \<open>A session whose base is read from a generation and whose state is written to its file.\<close>

definition packed_env :: "zstd \<Rightarrow> resolver \<Rightarrow> (block_cache, pack_error) session_env" where
  "packed_env z r = \<lparr>base_reader = packed_reader z r, budget = (\<lambda>_. True), publish = (\<lambda>p st w. Some (writeSessionState p st w)),
     checkpoint = (\<lambda>p st i w. Some w), now = (\<lambda>_. ''t''), temporary = (\<lambda>_. ''/t'')\<rparr>"

lemma packed_env_keeps: "publication_keeps (packed_env z r)"
  by (auto simp: publication_keeps_def packed_env_def writeSessionState_def data_path_def managedSessionDataName_def has_prefix_def)

lemma packed_env_admits: "admitting (packed_env z r)"
  by (simp add: admitting_def packed_env_def)

interpretation packed_session: session_store "packed_env z r" "cache_sound z r" "packed_content z r" for z r
  by (rule packed_session_store) (simp_all add: packed_env_keeps, simp add: packed_env_def)

text \<open>C3: A virtual session is a string of bytes: after any sequence of appends, positioned writes, truncations and syncs, failed ones
  included, it stands for the bytes that the same sequence makes of a plain file, and a reader opened then returns exactly their
  slices; where the bytes are kept (delta or backing file) does not matter.\<close>

theorem session_refines_bytes:
  assumes "base_reader env = packed_reader z r" and "publication_keeps env"
    and "run_ok (packed_content z r) (cache_sound z r) base v x" and "session_run env x trace (s', h', w', c')" and "run_fits trace v"
  shows "run_ok (packed_content z r) (cache_sound z r) base (spec_run trace v) (s', h', w', c') \<and>
    (\<exists>rh s1. OpenReader s' w' = (Inr rh, s1) \<and> (\<forall>need p. \<exists>c2. ReadHandle_ReadAt (packed_reader z r) rh need (int p) w' c' =
      (take need (drop p (spec_run trace v)), (if length (spec_run trace v) - p < need then AtEOF else AtNil), c2)))"
proof -
  note store = packed_session_store [OF assms(1,2)]
  have ok: "run_ok (packed_content z r) (cache_sound z r) base (spec_run trace v) (s', h', w', c')"
    by (rule session_store.session_run_keeps [OF store assms(4,3,5)])
  then have "holds (packed_content z r) (cache_sound z r) base (spec_run trace v) s' w' c'"
    by simp
  from session_store.opened_reads [OF store this] ok show ?thesis
    unfolding assms(1) by blast
qed

text \<open>C9: A reader that was opened before the first copy-on-write keeps returning the bytes the session had at that moment, whatever is
  appended, overwritten or truncated afterwards.\<close>

theorem reader_keeps_snapshot:
  assumes "base_reader env = packed_reader z r" and "publication_keeps env"
    and "run_ok (packed_content z r) (cache_sound z r) base v (s, h, w, c)" and "BackingPath (s_state s) = ''''"
    and "OpenReader s w = (Inr rh, s1)" and "session_run env (s1, h, w, c) trace (s', h', w', c')" and "run_fits trace v"
    and "cache_sound z r c2"
  shows "\<exists>c3. ReadHandle_ReadAt (packed_reader z r) rh need (int p) w' c2 =
    (take need (drop p v), (if length v - p < need then AtEOF else AtNil), c3)"
  using session_store.reader_snapshot [OF packed_session_store [OF assms(1,2)] assms(3-8)] unfolding assms(1) by blast

text \<open>C40: With a budget that admits and a publication that works every valid operation of an open writer succeeds.\<close>

theorem session_step_succeeds:
  assumes "base_reader env = packed_reader z r" and "publication_keeps env" and "admitting env"
    and "run_ok (packed_content z r) (cache_sound z r) base v (s, h, w, c)" and "\<not> wh_closed h" and "valid_op op"
  shows "fst (session_step env op (s, h, w, c)) = None"
  by (rule session_store.step_succeeds [OF packed_session_store [OF assms(1,2)] assms(3-6)])

section \<open>Materialising\<close>

text \<open>A read through a backing handle.\<close>

lemma ReadHandle_backing:
  assumes "rh_backing h" and "ReadFile w (rh_file h) = Some f" and "0 \<le> offset" and "offset < rh_size h"
  shows "\<exists>status. ReadHandle_ReadAt rd h (copy_need h offset) offset w c = (take (copy_need h offset) (drop (nat offset) f), status, c) \<and>
    (status = AtNil \<or> status = AtEOF)"
proof -
  have "0 < copy_need h offset" "int (copy_need h offset) \<le> rh_size h - offset"
    using assms(3,4) by (auto simp: copy_need_def)
  then show ?thesis
    using assms by (auto simp: ReadHandle_ReadAt_def os_ReadAt_def Let_def)
qed

lemma materialize_step:
  assumes "offset < rh_size h" and "ReadHandle_ReadAt rd h (copy_need h offset) offset w c = (data, status, c')" and "status = AtNil \<or> status = AtEOF"
  shows "materialize_loop rd h offset w c =
    Option.bind (materialize_loop rd h (offset + int (length data)) w c') (\<lambda>(res, c'').
      Some ((case res of Inl e \<Rightarrow> Inl e | Inr following \<Rightarrow> Inr (data @ following)), c''))"
  using assms by (subst materialize_loop.simps) auto

text \<open>A reader whose backing file has become shorter than it was when the reader was opened.\<close>

definition cut_short :: "read_handle \<Rightarrow> int64 \<Rightarrow> fs \<Rightarrow> bool" where
  "cut_short h offset w \<longleftrightarrow> rh_backing h \<and> (\<exists>f. ReadFile w (rh_file h) = Some f \<and> int (length f) < rh_size h) \<and> 0 \<le> offset \<and> offset < rh_size h"

lemma materialize_stuck: "materialize_loop rd h offset w c = Some y \<Longrightarrow> \<not> cut_short h offset w"
  for rd :: "('s, 'e) at_reader"
proof (erule materialize_loop.raw_induct [where P = "\<lambda>rd h offset w c y. \<not> cut_short h offset w", rotated])
  fix loop and rd :: "('s, 'e) at_reader" and h offset w c y
  assume hyp: "\<And>rd h offset w c y. loop rd h offset w c = Some y \<Longrightarrow> \<not> cut_short h offset w"
    and step: "(if offset < rh_size h
      then case ReadHandle_ReadAt rd h (copy_need h offset) offset w c of
           (data, status, c') \<Rightarrow>
             (case status of
                AtErr e \<Rightarrow> Some (Inl BaseReadFailed, c')
              | _ \<Rightarrow> Option.bind (loop rd h (offset + int (length data)) w c') (\<lambda>(res, c'').
                  Some ((case res of Inl e \<Rightarrow> Inl e | Inr following \<Rightarrow> Inr (data @ following)), c'')))
      else Some (Inr [], c)) = Some y"
  show "\<not> cut_short h offset w"
  proof
    assume "cut_short h offset w"
    then obtain f where f: "rh_backing h" "ReadFile w (rh_file h) = Some f" "int (length f) < rh_size h" "0 \<le> offset" "offset < rh_size h"
      by (auto simp: cut_short_def)
    obtain status where read: "ReadHandle_ReadAt rd h (copy_need h offset) offset w c = (take (copy_need h offset) (drop (nat offset) f), status, c)"
      "status = AtNil \<or> status = AtEOF"
      using ReadHandle_backing [OF f(1,2,4,5), of rd c] by (elim exE conjE)
    define data where "data = take (copy_need h offset) (drop (nat offset) f)"
    have "offset + int (length data) < rh_size h"
      using f by (cases "nat offset \<le> length f") (auto simp: data_def)
    then have "cut_short h (offset + int (length data)) w"
      using f by (auto simp: cut_short_def)
    moreover obtain y' where "loop rd h (offset + int (length data)) w c = Some y'"
      using step read f(5) by (auto simp: data_def bind_eq_Some_conv split: at_status.splits)
    ultimately show False
      using hyp by blast
  qed
qed

lemma materialize_backing:
  assumes "rh_backing h" and "ReadFile w (rh_file h) = Some f" and "rh_size h \<le> int (length f)"
  shows "int p \<le> rh_size h \<Longrightarrow> materialize_loop rd h (int p) w c = Some (Inr (take (nat (rh_size h) - p) (drop p f)), c)"
proof (induction "nat (rh_size h) - p" arbitrary: p rule: less_induct)
  case less
  show ?case
  proof (cases "int p < rh_size h")
    case False
    then show ?thesis
      using less.prems by (subst materialize_loop.simps) simp
  next
    case True
    define k where "k = copy_need h (int p)"
    have k: "0 < k" "int p + int k \<le> rh_size h"
      using True by (auto simp: k_def copy_need_def)
    obtain status where read: "ReadHandle_ReadAt rd h k (int p) w c = (take k (drop p f), status, c)" "status = AtNil \<or> status = AtEOF"
      using ReadHandle_backing [OF assms(1,2) _ True, of rd c] by (auto simp: k_def)
    have len: "length (take k (drop p f)) = k"
      using k assms(3) by simp
    have "materialize_loop rd h (int (p + k)) w c = Some (Inr (take (nat (rh_size h) - (p + k)) (drop (p + k) f)), c)"
      using k True by (intro less.hyps) auto
    moreover have "take k (drop p f) @ take (nat (rh_size h) - (p + k)) (drop (p + k) f) = take (nat (rh_size h) - p) (drop p f)"
      using take_add [of k "nat (rh_size h) - (p + k)" "drop p f"] k by (simp add: add.commute)
    ultimately show ?thesis
      using materialize_step [OF True read(1) [unfolded k_def] read(2)] len by (simp flip: k_def)
  qed
qed

context session_store
begin

lemma materialize_exact:
  assumes "serves bytes_of base h w v"
  shows "ready c \<Longrightarrow> p \<le> length v \<Longrightarrow> \<exists>c'. materialize_loop (base_reader env) h (int p) w c = Some (Inr (drop p v), c') \<and> ready c'"
proof (induction "length v - p" arbitrary: p c rule: less_induct)
  case less
  have size: "rh_size h = int (length v)"
    using assms by (simp add: serves_def)
  show ?case
  proof (cases "p < length v")
    case False
    then show ?thesis
      using less.prems size by (subst materialize_loop.simps) simp
  next
    case True
    define k where "k = copy_need h (int p)"
    have k: "0 < k" "k \<le> length v - p" and at: "int p < rh_size h"
      using True size by (auto simp: k_def copy_need_def)
    obtain c1 where read: "ReadHandle_ReadAt (base_reader env) h k (int p) w c = (take k (drop p v), AtNil, c1)" "ready c1"
      using ReadHandle_ReadAt_serves [OF assms less.prems(1), of k p] k(2) by auto
    have "length v - (p + k) < length v - p" "p + k \<le> length v"
      using k True by auto
    then obtain c2 where "materialize_loop (base_reader env) h (int (p + k)) w c1 = Some (Inr (drop (p + k) v), c2)" "ready c2"
      using less.hyps [OF _ read(2)] by blast
    moreover have "take k (drop p v) @ drop (p + k) v = drop p v" "length (take k (drop p v)) = k"
      using k by (simp_all add: add.commute flip: drop_drop)
    ultimately show ?thesis
      using materialize_step [OF at read(1) [unfolded k_def]] by (simp flip: k_def)
  qed
qed

lemma MaterializeCurrent_cases:
  assumes ok: "holds bytes_of ready base v s w c" and "target \<noteq> ''''" and "overwrite \<or> Stat w target = None"
  obtains (refused) "MaterializeCurrent env target overwrite s w c = Some (Inl OverBudget, s, w, c)" "\<exists>p. \<not> budget env p"
  | (written) c' where "MaterializeCurrent env target overwrite s w c =
    Some (Inr \<lparr>NativePath = target, NativeBytes = int (length v), NativeSHA256 = sha256_hex v\<rparr>, s, install_file target v w, c')" "ready c'"
proof -
  let ?g = "StGeneration (s_state s)"
  obtain h where h: "OpenReader s w = (Inr h, acquire_reader ?g s)" "serves bytes_of base h w v" "rh_generation h = ?g" "rh_closed h = False"
    using OpenReader_serves [OF ok] by metis
  obtain c' where c': "materialize_loop (base_reader env) h 0 w c = Some (Inr v, c')" "ready c'"
    using materialize_exact [OF h(2), of c 0] ok by (auto simp: holds_def)
  have "snd (ReadHandle_Close h (acquire_reader ?g s)) = s"
    using ok h(3,4) by (simp add: ReadHandle_Close_def holds_def release_acquire)
  moreover have "materialize_finish target v w =
      (Inr \<lparr>NativePath = target, NativeBytes = int (length v), NativeSHA256 = sha256_hex v\<rparr>, install_file target v w)"
    by (simp add: materialize_finish_def hashNativePath_def Let_def)
  moreover define p where "p = \<lparr>Operation = ''materialize-current'', AdditionalPersistentBytes = rh_size h, TemporaryBytes = rh_size h,
    TemporaryPersistentOverlapBytes = rh_size h,
    ReclaimableBytes = (if overwrite then case Stat w target of Some info \<Rightarrow> Size info | None \<Rightarrow> 0 else 0)\<rparr>"
  moreover have "\<not> (\<not> overwrite \<and> Stat w target \<noteq> None)"
    using assms(3) by auto
  ultimately have "MaterializeCurrent env target overwrite s w c = (if budget env p then
      Some (Inr \<lparr>NativePath = target, NativeBytes = int (length v), NativeSHA256 = sha256_hex v\<rparr>, s, install_file target v w, c')
    else Some (Inl OverBudget, s, w, c))"
    using assms(2) h(1) c' unfolding MaterializeCurrent_def Let_def by simp
  then show thesis
    using that c'(2) by (cases "budget env p") auto
qed

lemma MaterializeCurrent_holds:
  assumes ok: "holds bytes_of ready base v s w c" and "admitting env" and "target \<noteq> ''''" and "overwrite \<or> Stat w target = None"
  shows "\<exists>c'. MaterializeCurrent env target overwrite s w c =
    Some (Inr \<lparr>NativePath = target, NativeBytes = int (length v), NativeSHA256 = sha256_hex v\<rparr>, s, install_file target v w, c') \<and> ready c'"
  using MaterializeCurrent_cases [OF ok assms(3,4)] assms(2) unfolding admitting_def by metis

end



text \<open>C13: In a session that no one else changes \<open>MaterializeCurrent\<close> returns, and writes to its target exactly the bytes the session
  stands for, with their length and digest as its result; the session stays as it is.\<close>

theorem MaterializeCurrent_exact:
  assumes "base_reader env = packed_reader z r" and "publication_keeps env" and "admitting env"
    and "holds (packed_content z r) (cache_sound z r) base v s w c" and "target \<noteq> ''''" and "overwrite \<or> Stat w target = None"
  shows "\<exists>c'. MaterializeCurrent env target overwrite s w c =
    Some (Inr \<lparr>NativePath = target, NativeBytes = int (length v), NativeSHA256 = sha256_hex v\<rparr>, s, install_file target v w, c')"
  using session_store.MaterializeCurrent_holds [OF packed_session_store [OF assms(1,2)] assms(4,3,5,6)] by blast

text \<open>C18: The identity that a sync hands to the checkpoint, taken from the hash that was kept running over the appends, is the length and
  digest of what the active file holds, after any sequence of operations, failed ones included.\<close>

theorem Sync_identity_exact:
  assumes "base_reader env = packed_reader z r" and "publication_keeps env"
    and "run_ok (packed_content z r) (cache_sound z r) base v x" and "session_run env x trace (s', h', w', c')" and "run_fits trace v"
    and "active_identity (s_state s') h' w' = Some identity"
  shows "\<exists>data. ReadFile w' (active_path (s_state s')) = Some data \<and> NativeBytes identity = int (length data) \<and>
    NativeSHA256 identity = sha256_hex data"
proof -
  have "hash_ok (s_state s') h' w'"
    using session_store.session_run_keeps [OF packed_session_store [OF assms(1,2)] assms(4,3,5)] by simp
  then show ?thesis
    using assms(6) by (auto simp: active_identity_def hash_ok_def Let_def split: if_splits option.splits)
qed

section \<open>A small session\<close>

definition small_env :: "(block_cache, pack_error) session_env" where
  "small_env = packed_env plain_zstd gen_resolver"

definition small_session_state :: session_state where
  "small_session_state = zero_state\<lparr>StGeneration := 1, BaseBytes := 6, DeltaPath := ''/d/delta.jsonl''\<rparr>"

definition small_vfs :: session where
  "small_vfs = \<lparr>s_state = small_session_state, statePath = ''/d/state.json'', directory = ''/d'',
     s_view = \<lparr>view_manifest = twice_manifest, ends = [3, 6]\<rparr>, readerLeases = (\<lambda>_. 0), readerLeaseFiles = (\<lambda>_. False),
     writerOpen = True, recoveryDeferred = False\<rparr>"

definition small_files :: fs where
  "small_files = install_file ''/d/delta.jsonl'' [7] empty_fs"

abbreviation small_ok :: "bytes \<Rightarrow> session \<times> write_handle \<times> fs \<times> block_cache \<Rightarrow> bool" where
  "small_ok \<equiv> run_ok (packed_content plain_zstd gen_resolver) (cache_sound plain_zstd gen_resolver) [1, 2, 3, 1, 2, 3]"

lemma small_placed: "placed small_vfs"
proof -
  have "path_base ''/d/state.json'' = ''state.json''" "path_base ''/d/delta.jsonl'' = ''delta.jsonl''" "path_clean ''/d/delta.jsonl'' = ''/d/delta.jsonl''"
    by code_simp+
  then show ?thesis
    by (simp add: placed_def small_vfs_def small_session_state_def zero_state_def data_path_def managedSessionDataName_def is_abs_def
        slash_def has_prefix_def)
qed

lemma small_start: "small_ok [1, 2, 3, 1, 2, 3, 7] (small_vfs, new_writer, small_files, newBlockCache 0)"
proof -
  have "base_view (packed_content plain_zstd gen_resolver) (s_view small_vfs) [1, 2, 3, 1, 2, 3]"
    unfolding base_view_def small_vfs_def using twice_view twice_content by auto
  moreover have "visible [1, 2, 3, 1, 2, 3] small_session_state small_files = Some [1, 2, 3, 1, 2, 3, 7]"
    by (simp add: visible_def small_session_state_def zero_state_def small_files_def)
  ultimately show ?thesis
    using small_placed cache_sound_new
    by (simp add: holds_def hash_ok_def new_writer_def small_vfs_def leases_ok_def small_session_state_def maxInt64_def)
qed

lemma small_env_ok: "base_reader small_env = packed_reader plain_zstd gen_resolver" "publication_keeps small_env" "admitting small_env"
  by (simp_all add: small_env_def packed_env_keeps packed_env_admits) (simp add: packed_env_def)

theorem session_step_succeeds_witness:
  "fst (session_step small_env (OpWriteAt [9] 0 DiskFull) (small_vfs, new_writer, small_files, newBlockCache 0)) = None"
  by (rule session_step_succeeds [OF small_env_ok small_start]) (simp_all add: new_writer_def)

lemma small_write:
  assumes "small_ok [1, 2, 3, 1, 2, 3, 7] (s, new_writer, small_files, newBlockCache 0)"
  obtains s' h' w' c' where "session_run small_env (s, new_writer, small_files, newBlockCache 0) [(OpWriteAt [9] 0 DiskFull, None)] (s', h', w', c')"
proof -
  have "fst (session_step small_env (OpWriteAt [9] 0 DiskFull) (s, new_writer, small_files, newBlockCache 0)) = None"
    unfolding small_env_def by (rule packed_session.step_succeeds [OF packed_env_admits assms]) (simp_all add: new_writer_def)
  then obtain x' where "session_step small_env (OpWriteAt [9] 0 DiskFull) (s, new_writer, small_files, newBlockCache 0) = (None, x')"
    by (metis prod.collapse)
  moreover obtain s' h' w' c' where "x' = (s', h', w', c')"
    by (cases x')
  ultimately show thesis
    using that run_step run_nil by metis
qed

lemma small_fits: "run_fits [(OpWriteAt [9] 0 DiskFull, None)] [1, 2, 3, 1, 2, 3, 7]"
  by (simp add: write_at_def maxInt64_def)

theorem session_refines_bytes_witness:
  "\<exists>s' h' w' c' rh s1 c2. session_run small_env (small_vfs, new_writer, small_files, newBlockCache 0) [(OpWriteAt [9] 0 DiskFull, None)] (s', h', w', c') \<and>
    OpenReader s' w' = (Inr rh, s1) \<and>
    ReadHandle_ReadAt (packed_reader plain_zstd gen_resolver) rh 9 0 w' c' = ([9, 2, 3, 1, 2, 3, 7], AtEOF, c2)"
proof -
  obtain s' h' w' c' where run: "session_run small_env (small_vfs, new_writer, small_files, newBlockCache 0) [(OpWriteAt [9] 0 DiskFull, None)] (s', h', w', c')"
    using small_write [OF small_start] by blast
  obtain rh s1 where "OpenReader s' w' = (Inr rh, s1)" and reads: "\<forall>need p. \<exists>c2. ReadHandle_ReadAt (packed_reader plain_zstd gen_resolver) rh need (int p) w' c' =
      (take need (drop p [9, 2, 3, 1, 2, 3, 7]), (if length [9, 2, 3, 1, 2, 3, 7 :: byte] - p < need then AtEOF else AtNil), c2)"
    using session_refines_bytes [OF small_env_ok(1,2) small_start run small_fits] by (auto simp: write_at_def)
  moreover have "\<exists>c2. ReadHandle_ReadAt (packed_reader plain_zstd gen_resolver) rh 9 0 w' c' = ([9, 2, 3, 1, 2, 3, 7], AtEOF, c2)"
    using spec [OF spec [OF reads, of 9], of 0] by simp
  ultimately show ?thesis
    using run by blast
qed

theorem reader_keeps_snapshot_witness:
  "\<exists>rh s1 s' h' w' c' c3. OpenReader small_vfs small_files = (Inr rh, s1) \<and>
    session_run small_env (s1, new_writer, small_files, newBlockCache 0) [(OpWriteAt [9] 0 DiskFull, None)] (s', h', w', c') \<and>
    ReadHandle_ReadAt (packed_reader plain_zstd gen_resolver) rh 9 0 w' (newBlockCache 0) = ([1, 2, 3, 1, 2, 3, 7], AtEOF, c3)"
proof -
  have "holds (packed_content plain_zstd gen_resolver) (cache_sound plain_zstd gen_resolver) [1, 2, 3, 1, 2, 3] [1, 2, 3, 1, 2, 3, 7]
      small_vfs small_files (newBlockCache 0)"
    using small_start by simp
  then obtain rh where rh: "OpenReader small_vfs small_files = (Inr rh, acquire_reader (StGeneration (s_state small_vfs)) small_vfs)"
    by (rule packed_session.OpenReader_serves)
  define s1 where "s1 = acquire_reader (StGeneration (s_state small_vfs)) small_vfs"
  obtain s' h' w' c' where run: "session_run small_env (s1, new_writer, small_files, newBlockCache 0) [(OpWriteAt [9] 0 DiskFull, None)] (s', h', w', c')"
    using small_write [OF run_ok_acquire [OF small_start]] unfolding s1_def by metis
  have "BackingPath (s_state small_vfs) = ''''"
    by (simp add: small_vfs_def small_session_state_def zero_state_def)
  then have "\<exists>c3. ReadHandle_ReadAt (packed_reader plain_zstd gen_resolver) rh 9 (int 0) w' (newBlockCache 0) =
      (take 9 (drop 0 [1, 2, 3, 1, 2, 3, 7]), (if length [1, 2, 3, 1, 2, 3, 7 :: byte] - 0 < 9 then AtEOF else AtNil), c3)"
    using reader_keeps_snapshot [OF small_env_ok(1,2) small_start _ rh [folded s1_def] run small_fits cache_sound_new] by blast
  then show ?thesis
    using rh run by (auto simp: s1_def)
qed

theorem MaterializeCurrent_exact_witness:
  "\<exists>c'. MaterializeCurrent small_env ''/m'' False small_vfs small_files (newBlockCache 0) =
    Some (Inr \<lparr>NativePath = ''/m'', NativeBytes = 7, NativeSHA256 = sha256_hex [1, 2, 3, 1, 2, 3, 7]\<rparr>, small_vfs,
      install_file ''/m'' [1, 2, 3, 1, 2, 3, 7] small_files, c')"
proof -
  have "holds (packed_content plain_zstd gen_resolver) (cache_sound plain_zstd gen_resolver) [1, 2, 3, 1, 2, 3] [1, 2, 3, 1, 2, 3, 7]
      small_vfs small_files (newBlockCache 0)"
    using small_start by simp
  from MaterializeCurrent_exact [OF small_env_ok this, of "''/m''" False] show ?thesis
    by (simp add: small_files_def Stat_def empty_fs_def install_file_def)
qed

theorem Sync_identity_exact_witness:
  "\<exists>h' w'. Append [8] DiskFull small_vfs new_writer small_files = (Inr 1, h', w') \<and>
    active_identity small_session_state h' w' = Some \<lparr>NativePath = ''/d/delta.jsonl'', NativeBytes = 2, NativeSHA256 = sha256_hex [7, 8]\<rparr> \<and>
    ReadFile w' ''/d/delta.jsonl'' = Some [7, 8]"
proof -
  have clean: "path_clean ''/d/delta.jsonl'' = ''/d/delta.jsonl''"
    by code_simp
  have path: "active_path small_session_state = ''/d/delta.jsonl''"
    by (simp add: active_path_def small_session_state_def zero_state_def)
  define h1 w1 where "h1 = \<lparr>wh_closed = False, dirty = True, appendHasher = [7, 8], appendHashPath = ''/d/delta.jsonl'', appendHashBytes = 2,
      appendHashValid = True\<rparr>" and "w1 = change_file ''/d/delta.jsonl'' (\<lambda>f. f @ [8]) small_files"
  have app: "Append [8] DiskFull small_vfs new_writer small_files = (Inr 1, h1, w1)"
    by (simp add: Append_def small_vfs_def path new_writer_def ensureAppendHash_def clean Let_def small_files_def disk_count_def disk_fails_def
        h1_def w1_def wrap64_id in_int64_def maxInt64_def)
  have identity: "active_identity small_session_state h1 w1 = Some \<lparr>NativePath = ''/d/delta.jsonl'', NativeBytes = 2, NativeSHA256 = sha256_hex [7, 8]\<rparr>"
    by (simp add: active_identity_def path clean h1_def w1_def Stat_def change_file_def small_files_def install_file_def stat_of_def)
  have "session_run small_env (small_vfs, new_writer, small_files, newBlockCache 0) [(OpAppend [8] DiskFull, None)] (small_vfs, h1, w1, newBlockCache 0)"
    using app by (auto intro!: run_step run_nil)
  then have "\<exists>data. ReadFile w1 ''/d/delta.jsonl'' = Some data \<and> int (length data) = 2 \<and> sha256_hex data = sha256_hex [7, 8]"
    using Sync_identity_exact [OF small_env_ok(1,2) small_start, of "[(OpAppend [8] DiskFull, None)]" small_vfs h1 w1 "newBlockCache 0"] identity path
    by (auto simp: small_vfs_def maxInt64_def)
  moreover have "ReadFile w1 ''/d/delta.jsonl'' = Some [7, 8]"
    by (simp add: w1_def ReadFile_change small_files_def)
  ultimately show ?thesis
    using app identity by blast
qed

end
