(* ===== verification/Vfs_Compact.thy ===== *)
theory Vfs_Compact
  imports Session_Refinement
begin

text \<open>
  Compaction of a virtual session, \<open>src/internal/vfs/compact.go\<close>: what the session shows is written to a file, folded into a new
  generation by the function the caller passes, and the session continues on that generation with an empty delta. What the
  caller's function returns is checked before the session trusts it. The registration as maintenance and the hook between the
  phases are left out; the time is the clock of the file system.
\<close>

section \<open>Fingerprints and views\<close>

record file_fingerprint =
  FpBytes :: int64
  FpModTime :: int
  FpSHA256 :: string

definition captureFingerprint :: "string \<Rightarrow> fs \<Rightarrow> session_error + file_fingerprint" where
  "captureFingerprint path w =
     (case Stat w path of
        None \<Rightarrow> Inl (SessionFileMissing path)
      | Some info \<Rightarrow>
          rbind (hashNativePath path w) (\<lambda>current.
          Inr \<lparr>FpBytes = Size info, FpModTime = ModTime info, FpSHA256 = NativeSHA256 current\<rparr>))"

datatype compact_error =
    CompactSession session_error
  | PrepareRequired
  | WriterHeld
  | NotIdle
  | PrepareFailed
  | IncompleteGeneration
  | PreparedLengthDiffers
  | PreparedReadFailed
  | PreparedEndedEarly
  | PreparedDigestDiffers
  | ManifestNotCanonical
  | ManifestOutsideStore
  | ManifestMissing
  | ManifestUndecodable manifest_error
  | ManifestSourceDiffers
  | ManifestDiffers
  | ActiveDataChanged
  | DeltaExists string
  | CompactPublishFailed

definition ensureFingerprintUnchanged :: "string \<Rightarrow> file_fingerprint \<Rightarrow> fs \<Rightarrow> compact_error + unit" where
  "ensureFingerprintUnchanged path initial w =
     (case captureFingerprint path w of
        Inl e \<Rightarrow> Inl (CompactSession e)
      | Inr current \<Rightarrow>
          if FpBytes current \<noteq> FpBytes initial \<or> FpModTime current \<noteq> FpModTime initial \<or> FpSHA256 current \<noteq> FpSHA256 initial
          then Inl ActiveDataChanged else Inr ())"

definition view_need :: "view \<Rightarrow> int64 \<Rightarrow> nat" where
  "view_need v offset = (if 1048576 > ViewSize v - offset then nat (ViewSize v - offset) else 1048576)"

text \<open>The loop of \<open>hashView\<close>, with the bytes that have gone through the hash.\<close>

function hash_view_loop :: "('s, 'e) at_reader \<Rightarrow> view \<Rightarrow> int64 \<Rightarrow> 's \<Rightarrow> (compact_error + bytes) \<times> 's" where
  "hash_view_loop rd v offset c =
     (if offset < ViewSize v then
        (case View_ReadAt rd v (view_need v offset) offset c of
           (data, AtErr e, c') \<Rightarrow> (Inl PreparedReadFailed, c')
         | (data, status, c') \<Rightarrow>
             if data = [] then (Inr [], c')
             else (case hash_view_loop rd v (offset + int (length data)) c' of
                 (Inl e, c'') \<Rightarrow> (Inl e, c'')
               | (Inr following, c'') \<Rightarrow> (Inr (data @ following), c'')))
      else (Inr [], c))"
  by pat_completeness auto
termination
  by (relation "measure (\<lambda>(rd, v, offset, c). nat (ViewSize v - offset))") auto

declare hash_view_loop.simps [simp del]

definition hashView :: "('s, 'e) at_reader \<Rightarrow> view \<Rightarrow> 's \<Rightarrow> (compact_error + string) \<times> 's" where
  "hashView rd v c =
     (case hash_view_loop rd v 0 c of
        (Inl e, c) \<Rightarrow> (Inl e, c)
      | (Inr data, c) \<Rightarrow> (if int (length data) \<noteq> ViewSize v then Inl PreparedEndedEarly else Inr (sha256_hex data), c))"

section \<open>The identity of a manifest\<close>

text \<open>The nearest directory named \<open>manifests\<close> above a file, by the components of an absolute path.\<close>

function manifests_above :: "string list \<Rightarrow> string list option" where
  "manifests_above cs =
     (if cs = [] then None else if last cs = ''manifests'' then Some cs else manifests_above (butlast cs))"
  by pat_completeness auto
termination
  by (relation "measure length") (auto simp: length_greater_0_conv)

declare manifests_above.simps [simp del]

definition captureManifestIdentity :: "string \<Rightarrow> string \<Rightarrow> int64 \<Rightarrow> string \<Rightarrow> fs \<Rightarrow> compact_error + native_file \<times> manifest" where
  "captureManifestIdentity path sessionID baseBytes baseSHA256 w =
     (let path = path_clean path
      in case (if is_abs path then manifests_above (butlast (path_comps path)) else None) of
           None \<Rightarrow> Inl ManifestNotCanonical
         | Some up \<Rightarrow>
             (case path_rel (render True (butlast up)) path of
                None \<Rightarrow> Inl ManifestOutsideStore
              | Some relative \<Rightarrow>
                  if relative = ''.'' \<or> relative = ''..'' \<or> has_prefix ''../'' relative then Inl ManifestOutsideStore
                  else case ReadFile w path of
                    None \<Rightarrow> Inl ManifestMissing
                  | Some data \<Rightarrow>
                      (case DecodeManifest data of
                         Inl e \<Rightarrow> Inl (ManifestUndecodable e)
                       | Inr m \<Rightarrow>
                           if ID (Session m) \<noteq> sessionID \<or> Bytes (Source m) \<noteq> baseBytes \<or> SourceSHA256 (Source m) \<noteq> baseSHA256
                           then Inl ManifestSourceDiffers
                           else Inr (\<lparr>NativePath = path, NativeBytes = int (length data), NativeSHA256 = sha256_hex data\<rparr>, m))))"

section \<open>Compact\<close>

text \<open>A prepared generation: its view comes with the reader it reads through and the cache of that reader.\<close>

record ('s, 'e) prepared_generation =
  PreparedManifestPath :: string
  PreparedManifest :: manifest
  PreparedView :: "view option"
  PreparedReader :: "('s, 'e) at_reader"
  PreparedCache :: 's

record ('s, 'e) compact_options =
  IdleFor :: int
  Prepare :: "(native_file \<Rightarrow> uint64 \<Rightarrow> fs \<Rightarrow> ('s, 'e) prepared_generation option \<times> fs) option"

record compact_result =
  CompactGeneration :: uint64
  CompactBytes :: int64
  CompactSHA256 :: string

definition compact_scratch :: "session \<Rightarrow> string" where
  "compact_scratch s = path_join [directory s, ''.compact-'' @ pad20 (StGeneration (s_state s)) @ ''.jsonl'']"

definition compact_delta :: "session \<Rightarrow> string" where
  "compact_delta s = path_join [directory s, ''delta-'' @ pad20 (StGeneration (s_state s) + 1) @ ''.jsonl'']"

text \<open>The checks of what the preparation returned: the view is read from end to end and the manifest is read back from disk.\<close>

definition check_prepared :: "('s, 'e) prepared_generation \<Rightarrow> native_file \<Rightarrow> fs \<Rightarrow> compact_error + view \<times> string \<times> 's" where
  "check_prepared p current w =
     (let m = PreparedManifest p
      in case PreparedView p of
           None \<Rightarrow> Inl IncompleteGeneration
         | Some v \<Rightarrow>
             if PreparedManifestPath p = '''' \<or> SourceSHA256 (Source m) \<noteq> NativeSHA256 current \<or> Bytes (Source m) \<noteq> NativeBytes current
             then Inl IncompleteGeneration
             else if ViewSize v \<noteq> NativeBytes current then Inl PreparedLengthDiffers
             else (case hashView (PreparedReader p) v (PreparedCache p) of
                 (Inl e, c) \<Rightarrow> Inl e
               | (Inr digest, c) \<Rightarrow>
                   if digest \<noteq> NativeSHA256 current then Inl PreparedDigestDiffers
                   else rbind (captureManifestIdentity (PreparedManifestPath p) (ID (Session m)) (Bytes (Source m)) (SourceSHA256 (Source m)) w)
                     (\<lambda>(identity, stored). if stored \<noteq> m then Inl ManifestDiffers else Inr (v, NativeSHA256 identity, c))))"

definition compact_record :: "session \<Rightarrow> session_state \<Rightarrow> native_file \<Rightarrow> string \<Rightarrow> journal_record" where
  "compact_record s candidate current phase = zero_record\<lparr>OperationID := ''compact-'' @ pad20 (StGeneration (s_state s)),
     RecSessionID := SessionID (s_state s), RecKind := ''compact'', Phase := phase, Candidate := candidate,
     TempPath := path_join [directory s, ''.state-compact-'' @ pad20 (StGeneration candidate) @ ''.tmp''],
     FinalPath := compact_delta s, Native := current\<rparr>"

text \<open>From the new delta file to the last journal record.\<close>

definition compact_publish :: "('s, 'e) session_env \<Rightarrow> ('s, 'e) prepared_generation \<Rightarrow> view \<Rightarrow> string \<Rightarrow> native_file \<Rightarrow> session \<Rightarrow> fs \<Rightarrow>
    (compact_error + compact_result) \<times> session \<times> fs" where
  "compact_publish env p v manifestSHA current s w =
     (let st = s_state s; delta = compact_delta s; log = (\<lambda>r w. appendJournal (now env w) (directory s) r w);
          next = st\<lparr>StGeneration := StGeneration st + 1, StManifestPath := PreparedManifestPath p, ManifestSHA256 := manifestSHA,
            BaseBytes := ViewSize v, BaseSHA256 := NativeSHA256 current, DeltaPath := delta, BackingPath := ''''\<rparr>
      in if ReadFile w delta \<noteq> None then (Inl (DeltaExists delta), s, w)
         else
           (let w = install_file delta [] w;
                w = log (compact_record s next current ''prepared'') w;
                w = log (compact_record s next current ''state-publishing'') w
            in case publish env (statePath s) next w of
                 None \<Rightarrow> (Inl CompactPublishFailed, s, w)
               | Some w \<Rightarrow>
                   (let w = log (compact_record s next current ''state-published'') w;
                        w = log (compact_record s next current ''complete'') w
                    in (Inr \<lparr>CompactGeneration = StGeneration next, CompactBytes = NativeBytes current, CompactSHA256 = NativeSHA256 current\<rparr>,
                        s\<lparr>s_state := next, s_view := v\<rparr>, w))))"

text \<open>The work under the writer lease, from the materialised session on. The scratch file is removed at the end, whatever happened.\<close>

definition compact_current :: "('s, 'e) session_env \<Rightarrow> (native_file \<Rightarrow> uint64 \<Rightarrow> fs \<Rightarrow> ('s, 'e) prepared_generation option \<times> fs) \<Rightarrow>
    file_fingerprint \<Rightarrow> native_file \<Rightarrow> session \<Rightarrow> fs \<Rightarrow> 's \<Rightarrow>
    (compact_error + compact_result) \<times> ('s, 'e) session_env \<times> session \<times> fs \<times> 's" where
  "compact_current env prepare fingerprint current s w c =
     (let tidy = remove_file (NativePath current)
      in case prepare current (StGeneration (s_state s) + 1) w of
           (None, w) \<Rightarrow> (Inl PrepareFailed, env, s, tidy w, c)
         | (Some p, w) \<Rightarrow>
             (case check_prepared p current w of
                Inl e \<Rightarrow> (Inl e, env, s, tidy w, c)
              | Inr (v, manifestSHA, c1) \<Rightarrow>
                  (case ensureFingerprintUnchanged (active_path (s_state s)) fingerprint w of
                     Inl e \<Rightarrow> (Inl e, env, s, tidy w, c)
                   | Inr _ \<Rightarrow>
                       (case compact_publish env p v manifestSHA current s w of
                          (Inl e, s, w) \<Rightarrow> (Inl e, env, s, tidy w, c)
                        | (Inr result, s, w) \<Rightarrow> (Inr result, env\<lparr>base_reader := PreparedReader p\<rparr>, s, tidy w, c1)))))"

definition compact_leased :: "('s, 'e) session_env \<Rightarrow> int \<Rightarrow> (native_file \<Rightarrow> uint64 \<Rightarrow> fs \<Rightarrow> ('s, 'e) prepared_generation option \<times> fs) \<Rightarrow>
    session \<Rightarrow> fs \<Rightarrow> 's \<Rightarrow> ((compact_error + compact_result) \<times> ('s, 'e) session_env \<times> session \<times> fs \<times> 's) option" where
  "compact_leased env idle prepare s w c =
     (case captureFingerprint (active_path (s_state s)) w of
        Inl e \<Rightarrow> Some (Inl (CompactSession e), env, s, w, c)
      | Inr fingerprint \<Rightarrow>
          if 0 < idle \<and> clock w - FpModTime fingerprint < idle then Some (Inl NotIdle, env, s, w, c)
          else Option.bind (MaterializeCurrent env (compact_scratch s) True s w c) (\<lambda>(res, s, w, c).
            case res of
              Inl e \<Rightarrow> Some (Inl (CompactSession e), env, s, w, c)
            | Inr current \<Rightarrow> Some (compact_current env prepare fingerprint current s w c)))"

definition Compact :: "('s, 'e) session_env \<Rightarrow> ('s, 'e) compact_options \<Rightarrow> bool \<Rightarrow> session_state option \<Rightarrow> retirement_proof option \<Rightarrow> session \<Rightarrow> fs \<Rightarrow> 's \<Rightarrow>
    ((compact_error + compact_result) \<times> ('s, 'e) session_env \<times> session \<times> fs \<times> 's) option" where
  "Compact env opts locked published retirement s w c =
     (if recoveryDeferred s then Some (Inl (CompactSession ErrSessionRecoveryDeferred), env, s, w, c)
      else case Prepare opts of
        None \<Rightarrow> Some (Inl PrepareRequired, env, s, w, c)
      | Some prepare \<Rightarrow>
          if writerOpen s then Some (Inl WriterHeld, env, s, w, c)
          else if \<not> locked then Some (Inl (CompactSession ErrWriterBusy), env, s\<lparr>writerOpen := False\<rparr>, w, c)
          else (case refreshNativeRetirement published retirement (s\<lparr>writerOpen := True\<rparr>) of
              Inl e \<Rightarrow> Some (Inl (CompactSession e), env, s\<lparr>writerOpen := False\<rparr>, w, c)
            | Inr s \<Rightarrow>
                map_option (\<lambda>(res, env, s, w, c). (res, env, s\<lparr>writerOpen := False\<rparr>, w, c)) (compact_leased env (IdleFor opts) prepare s w c)))"

section \<open>Hashing a view\<close>

context object_reader_at
begin

lemma hash_view_loop_exact:
  assumes "NewView m = Inr v" and "parts_content bytes_of (Parts m) = Some data" and size: "ViewSize v = int (length data)"
  shows "ready c \<Longrightarrow> p \<le> length data \<Longrightarrow> \<exists>c'. hash_view_loop read v (int p) c = (Inr (drop p data), c') \<and> ready c'"
proof (induction "length data - p" arbitrary: p c rule: less_induct)
  case less
  show ?case
  proof (cases "p < length data")
    case False
    then show ?thesis
      using less.prems size by (subst hash_view_loop.simps) simp
  next
    case True
    define k where "k = view_need v (int p)"
    define piece where "piece = take k (drop p data)"
    have k: "0 < k" "k \<le> length data - p"
      using True size by (auto simp: k_def view_need_def)
    obtain c1 where read: "View_ReadAt read v k (int p) c = (piece, AtNil, c1)" "ready c1"
      using View_ReadAt_content [OF assms(1,2) less.prems(1), of k p] k(2) by (auto simp: piece_def)
    have piece: "piece \<noteq> []" "length piece = k"
      using k by (auto simp: piece_def)
    have "length data - (p + k) < length data - p" "p + k \<le> length data"
      using k True by auto
    then obtain c2 where "hash_view_loop read v (int (p + k)) c1 = (Inr (drop (p + k) data), c2)" "ready c2"
      using less.hyps [OF _ read(2)] by blast
    moreover have "piece @ drop (p + k) data = drop p data"
      by (simp add: piece_def add.commute flip: drop_drop)
    ultimately show ?thesis
      using True size read piece by (subst hash_view_loop.simps) (simp flip: k_def)
  qed
qed

lemma hashView_exact:
  assumes "base_view bytes_of v base" and "ready c"
  shows "ViewSize v = int (length base)" and "\<exists>c'. hashView read v c = (Inr (sha256_hex base), c') \<and> ready c'"
proof -
  obtain m where m: "NewView m = Inr v" "parts_content bytes_of (Parts m) = Some base"
    using assms(1) by (auto simp: base_view_def)
  show size: "ViewSize v = int (length base)"
    using NewView_ok [OF m(1)] parts_content_length [OF m(2)] by (simp add: view_ok_def)
  show "\<exists>c'. hashView read v c = (Inr (sha256_hex base), c') \<and> ready c'"
    using hash_view_loop_exact [OF m size assms(2), of 0] size by (auto simp: hashView_def)
qed

end

section \<open>Compaction keeps the bytes\<close>

lemma data_name_path:
  assumes "is_abs dir" and "proper_comp name" and "managedSessionDataName name"
  shows "data_path (path_join [dir, name])" and "path_base (path_join [dir, name]) = name" and "path_join [dir, name] \<noteq> ''''"
  using path_join_base [OF assms(1,2)] path_join_clean [OF assms(1,2)] path_join_proper(1) [OF assms(1), of "[name]"] assms
  by (auto simp: data_path_def is_abs_def)

lemma compact_paths:
  assumes "is_abs (directory s)"
  shows "data_path (compact_delta s)" "compact_delta s \<noteq> ''''" "\<not> has_prefix ''backing-'' (path_base (compact_delta s))"
    "\<not> has_prefix ''.compact-'' (path_base (compact_delta s))" "data_path (compact_scratch s)" "compact_scratch s \<noteq> ''''"
    "has_prefix ''.compact-'' (path_base (compact_scratch s))"
  using data_name_path [OF assms data_name_proper(2) [of "StGeneration (s_state s) + 1"]]
    data_name_path [OF assms data_name_proper(3) [of "StGeneration (s_state s)"]]
  unfolding compact_delta_def [symmetric] compact_scratch_def [symmetric]
  by (auto simp: managedSessionDataName_def has_prefix_def has_suffix_def)

lemma placed_scratch: "placed s \<Longrightarrow> active_path (s_state s) \<noteq> compact_scratch s"
proof -
  have "\<not> (has_prefix ''backing-'' n \<and> has_prefix ''.compact-'' n)" for n
    by (cases n) (auto simp: has_prefix_def)
  then show "placed s \<Longrightarrow> ?thesis"
    using compact_paths(7) [of s] by (auto simp: placed_def active_path_def split: if_splits)
qed

lemma holds_frame:
  assumes "holds bytes_of ready base v s w c" and "ReadFile w' (active_path (s_state s)) = ReadFile w (active_path (s_state s))" and "ready c'"
  shows "holds bytes_of ready base v s w' c'"
  using assms unfolding holds_def visible_active by auto

lemma holds_writer [simp]: "holds bytes_of ready base v (s\<lparr>writerOpen := b\<rparr>) w c = holds bytes_of ready base v s w c"
  by (simp add: holds_def placed_def leases_ok_def)

lemma refresh_holds:
  assumes "refreshNativeRetirement published retirement s = Inr s'" and "holds bytes_of ready base v s w c"
  shows "holds bytes_of ready base v s' w c"
  using assms
  by (auto simp: refreshNativeRetirement_def sameSessionStateExceptRetiredNative_def holds_def placed_def leases_ok_def visible_def Let_def
      split: option.splits if_splits)

text \<open>
  What a session relies on in the preparation: it leaves the data files of sessions alone, and a view it returns reads through a
  pack generation that holds its objects. That these are the right ones is not assumed.
\<close>

definition prepare_ok :: "zstd \<Rightarrow> (native_file \<Rightarrow> uint64 \<Rightarrow> fs \<Rightarrow> (block_cache, pack_error) prepared_generation option \<times> fs) \<Rightarrow> bool" where
  "prepare_ok z prepare \<longleftrightarrow> (\<forall>current g w res w'. prepare current g w = (res, w') \<longrightarrow>
     (\<forall>q. data_path q \<longrightarrow> ReadFile w' q = ReadFile w q) \<and>
     (\<forall>p v. res = Some p \<and> PreparedView p = Some v \<longrightarrow> (\<exists>r base. PreparedReader p = packed_reader z r \<and> cache_sound z r (PreparedCache p) \<and>
        base_view (packed_content z r) v base)))"

lemma check_prepared_sound:
  assumes "check_prepared p current w = Inr (v, sha, c)" and "PreparedReader p = packed_reader z r" and "cache_sound z r (PreparedCache p)"
    and "\<And>v. PreparedView p = Some v \<Longrightarrow> base_view (packed_content z r) v base"
  shows "base_view (packed_content z r) v base \<and> ViewSize v = int (length base) \<and> int (length base) = NativeBytes current \<and>
    sha256_hex base = NativeSHA256 current \<and> cache_sound z r c"
proof -
  obtain v1 where v1: "PreparedView p = Some v1"
    using assms(1) by (cases "PreparedView p") (simp_all add: check_prepared_def Let_def)
  note base = assms(4) [OF v1]
  obtain c1 where "hashView (packed_reader z r) v1 (PreparedCache p) = (Inr (sha256_hex base), c1)" "cache_sound z r c1"
    using packed.hashView_exact(2) [OF base assms(3)] by blast
  moreover have "ViewSize v1 = int (length base)"
    by (rule packed.hashView_exact(1) [OF base assms(3)])
  ultimately show ?thesis
    using assms(1,2) v1 base by (auto simp: check_prepared_def Let_def result_simps split: if_splits sum.splits)
qed

lemma compact_publish_cases:
  assumes placed: "placed s" and keeps: "publication_keeps env"
    and run: "compact_publish env p v sha current s w = (res, s', w')"
  obtains (failed) e where "res = Inl e" "s' = s" "\<And>q f. data_path q \<Longrightarrow> ReadFile w q = Some f \<Longrightarrow> ReadFile w' q = Some f"
  | (published) "res = Inr \<lparr>CompactGeneration = StGeneration (s_state s) + 1, CompactBytes = NativeBytes current,
      CompactSHA256 = NativeSHA256 current\<rparr>"
    "s' = s\<lparr>s_state := (s_state s)\<lparr>StGeneration := StGeneration (s_state s) + 1, StManifestPath := PreparedManifestPath p,
      ManifestSHA256 := sha, BaseBytes := ViewSize v, BaseSHA256 := NativeSHA256 current, DeltaPath := compact_delta s, BackingPath := ''''\<rparr>,
      s_view := v\<rparr>"
    "ReadFile w' (compact_delta s) = Some []"
proof -
  have dir: "is_abs (directory s)" and state: "path_base (statePath s) = ''state.json''"
    using placed by (simp_all add: placed_def)
  have kept: "publish env (statePath s) st w1 = Some w2 \<Longrightarrow> data_path q \<Longrightarrow> ReadFile w2 q = ReadFile w1 q" for st w1 w2 q
    using keeps state unfolding publication_keeps_def by blast
  show thesis
  proof (cases "ReadFile w (compact_delta s)")
    case (Some f)
    then show thesis
      using run by (intro failed) (auto simp: compact_publish_def Let_def)
  next
    case None
    have other: "ReadFile w q = Some f \<Longrightarrow> q \<noteq> compact_delta s" for q f
      using None by auto
    show thesis
    proof (cases res)
      case (Inl e)
      have "s' = s" "data_path q \<Longrightarrow> ReadFile w q = Some f \<Longrightarrow> ReadFile w' q = Some f" for q f
        using run None Inl other ReadFile_journal [OF dir] unfolding compact_publish_def Let_def by (auto split: option.splits)
      then show thesis
        using failed Inl by blast
    next
      case (Inr out)
      then show thesis
        using run None ReadFile_journal [OF dir compact_paths(1) [OF dir]] kept [OF _ compact_paths(1) [OF dir]]
        unfolding compact_publish_def Let_def by (intro published) (auto split: option.splits)
    qed
  qed
qed

text \<open>What is left of a session after a compaction: it stands for bytes of the same length and digest, read through the reader it has then.\<close>

definition compacted :: "zstd \<Rightarrow> bytes \<Rightarrow> compact_error + compact_result \<Rightarrow> (block_cache, pack_error) session_env \<Rightarrow> session \<Rightarrow> fs \<Rightarrow> block_cache \<Rightarrow> bool" where
  "compacted z v res env' s' w' c' \<longleftrightarrow> (\<exists>r base v'. base_reader env' = packed_reader z r \<and> publication_keeps env' \<and>
     holds (packed_content z r) (cache_sound z r) base v' s' w' c' \<and> length v' = length v \<and> sha256_hex v' = sha256_hex v \<and>
     (case res of
        Inl e \<Rightarrow> v' = v
      | Inr out \<Rightarrow> v' = base \<and> BackingPath (s_state s') = '''' \<and> CompactBytes out = int (length v) \<and> CompactSHA256 out = sha256_hex v \<and>
          CompactGeneration out = StGeneration (s_state s')))"

lemma compacted_failed:
  assumes "base_reader env = packed_reader z r" and "publication_keeps env" and "holds (packed_content z r) (cache_sound z r) base v s w c"
    and "ReadFile w' (active_path (s_state s)) = ReadFile w (active_path (s_state s))" and "cache_sound z r c'"
  shows "compacted z v (Inl e) env s w' c'"
  using assms(1,2) holds_frame [OF assms(3-5)] by (auto simp: compacted_def)

lemma compacted_published:
  assumes "publication_keeps env" and "holds bytes_of ready base v s w c" and "PreparedReader p = packed_reader z r"
    and "base_view (packed_content z r) vw base'" and "ViewSize vw = int (length base')" and "int (length base') = int (length v)"
    and "sha256_hex base' = sha256_hex v" and "cache_sound z r c'" and "ReadFile w' (compact_delta s) = Some []"
  shows "compacted z v (Inr \<lparr>CompactGeneration = StGeneration (s_state s) + 1, CompactBytes = int (length v), CompactSHA256 = sha256_hex v\<rparr>)
    (env\<lparr>base_reader := PreparedReader p\<rparr>)
    (s\<lparr>s_state := (s_state s)\<lparr>StGeneration := StGeneration (s_state s) + 1, StManifestPath := mp,
      ManifestSHA256 := sha, BaseBytes := ViewSize vw, BaseSHA256 := d, DeltaPath := compact_delta s, BackingPath := ''''\<rparr>,
      s_view := vw\<rparr>) w' c'"
proof -
  have dir: "is_abs (directory s)"
    using assms(2) by (simp add: holds_def placed_def)
  show ?thesis
    unfolding compacted_def using assms compact_paths [OF dir]
    by (intro exI [of _ r] exI [of _ base']) (auto simp: holds_def placed_def leases_ok_def visible_def publication_keeps_def)
qed

lemma compact_current_keeps:
  assumes rd: "base_reader env = packed_reader z r" and keeps: "publication_keeps env" and prep: "prepare_ok z prepare"
    and ok: "holds (packed_content z r) (cache_sound z r) base v s w c" and scratch: "NativePath current = compact_scratch s"
    and current: "NativeBytes current = int (length v)" "NativeSHA256 current = sha256_hex v"
    and run: "compact_current env prepare fingerprint current s w c = (res, env', s', w', c')"
  shows "compacted z v res env' s' w' c'"
proof -
  let ?active = "active_path (s_state s)"
  have placed: "placed s" and ready: "cache_sound z r c" and dir: "is_abs (directory s)"
    using ok by (simp_all add: holds_def placed_def)
  obtain f where f: "ReadFile w ?active = Some f"
    using holds_file [OF ok] by metis
  obtain got w1 where w1: "prepare current (StGeneration (s_state s) + 1) w = (got, w1)"
    by (cases "prepare current (StGeneration (s_state s) + 1) w")
  have data: "data_path ?active" and active: "ReadFile w1 ?active = Some f"
    using placed_active [OF placed] prep w1 f unfolding prepare_ok_def by fastforce+
  have fail: "compacted z v (Inl e) env s (remove_file (compact_scratch s) w2) c" if "ReadFile w2 ?active = Some f" for e w2
    using that f placed_scratch [OF placed] by (intro compacted_failed [OF rd keeps ok _ ready]) simp
  show ?thesis
  proof (cases "\<exists>p vw sha c1 x. got = Some p \<and> check_prepared p current w1 = Inr (vw, sha, c1) \<and> ensureFingerprintUnchanged ?active fingerprint w1 = Inr x")
    case False
    then show ?thesis
      using run w1 fail [OF active] scratch
      unfolding compact_current_def Let_def by (auto split: option.splits sum.splits)
  next
    case True
    then obtain p vw sha c1 x where p: "got = Some p" and check: "check_prepared p current w1 = Inr (vw, sha, c1)"
      and fp: "ensureFingerprintUnchanged ?active fingerprint w1 = Inr x"
      by blast
    obtain res2 s2 w2 where pub: "compact_publish env p vw sha current s w1 = (res2, s2, w2)"
      by (cases "compact_publish env p vw sha current s w1")
    have out: "(res, env', s', w', c') = (case res2 of
        Inl e \<Rightarrow> (Inl e, env, s2, remove_file (compact_scratch s) w2, c)
      | Inr result \<Rightarrow> (Inr result, env\<lparr>base_reader := PreparedReader p\<rparr>, s2, remove_file (compact_scratch s) w2, c1))"
      using run w1 p check fp pub scratch unfolding compact_current_def Let_def by (cases res2) auto
    show ?thesis
    proof (cases rule: compact_publish_cases [OF placed keeps pub])
      case (1 e)
      then show ?thesis
        using out fail [OF 1(3) [OF data active]] by simp
    next
      case 2
      have vw: "PreparedView p = Some vw"
        using check by (auto simp: check_prepared_def Let_def result_simps split: option.splits if_splits sum.splits prod.splits)
      then have "\<exists>r base. PreparedReader p = packed_reader z r \<and> cache_sound z r (PreparedCache p) \<and> base_view (packed_content z r) vw base"
        using prep w1 p unfolding prepare_ok_def by blast
      then obtain r' base' where r': "PreparedReader p = packed_reader z r'" "cache_sound z r' (PreparedCache p)"
          "base_view (packed_content z r') vw base'"
        by blast
      have sound: "base_view (packed_content z r') vw base' \<and> ViewSize vw = int (length base') \<and> int (length base') = NativeBytes current \<and>
          sha256_hex base' = NativeSHA256 current \<and> cache_sound z r' c1"
        by (rule check_prepared_sound [OF check r'(1,2)]) (simp add: vw r'(3))
      have "ReadFile (remove_file (compact_scratch s) w2) (compact_delta s) = Some []"
        using 2(3) compact_paths(4,7) [OF dir] by auto
      then show ?thesis
        using out 2(1,2) sound current compacted_published [OF keeps ok r'(1,3), of c1 "remove_file (compact_scratch s) w2"] by simp
    qed
  qed
qed

lemma compact_leased_keeps:
  assumes rd: "base_reader env = packed_reader z r" and keeps: "publication_keeps env" and prep: "prepare_ok z prepare"
    and ok: "holds (packed_content z r) (cache_sound z r) base v s w c"
  shows "\<exists>res env' s' w' c'. compact_leased env idle prepare s w c = Some (res, env', s', w', c') \<and> compacted z v res env' s' w' c'"
proof -
  let ?active = "active_path (s_state s)"
  have placed: "placed s" and ready: "cache_sound z r c" and dir: "is_abs (directory s)"
    using ok by (simp_all add: holds_def placed_def)
  obtain f where f: "ReadFile w ?active = Some f"
    using holds_file [OF ok] by metis
  have fail: "compacted z v (Inl e) env s w c" for e
    by (rule compacted_failed [OF rd keeps ok refl ready])
  obtain fp where fp: "captureFingerprint ?active w = Inr fp"
    using f Stat_None_iff [of w ?active] by (cases "Stat w ?active") (auto simp: captureFingerprint_def hashNativePath_def)
  show ?thesis
  proof (cases "0 < idle \<and> clock w - FpModTime fp < idle")
    case True
    then show ?thesis
      using fp fail by (simp add: compact_leased_def)
  next
    case False
    define current where "current = \<lparr>NativePath = compact_scratch s, NativeBytes = int (length v), NativeSHA256 = sha256_hex v\<rparr>"
    from ok compact_paths(6) [OF dir] disjI1 [OF TrueI] show ?thesis
    proof (rule session_store.MaterializeCurrent_cases [OF packed_session_store [OF rd keeps]])
      assume "MaterializeCurrent env (compact_scratch s) True s w c = Some (Inl OverBudget, s, w, c)"
      then show ?thesis
        using fp False fail by (auto simp: compact_leased_def)
    next
      fix c1
      assume mat: "MaterializeCurrent env (compact_scratch s) True s w c = Some (Inr \<lparr>NativePath = compact_scratch s, NativeBytes = int (length v),
          NativeSHA256 = sha256_hex v\<rparr>, s, install_file (compact_scratch s) v w, c1)" and c1: "cache_sound z r c1"
      have ok1: "holds (packed_content z r) (cache_sound z r) base v s (install_file (compact_scratch s) v w) c1"
        using placed_scratch [OF placed] by (intro holds_frame [OF ok _ c1]) simp
      obtain res env' s' w' c' where run: "compact_current env prepare fp current s (install_file (compact_scratch s) v w) c1 = (res, env', s', w', c')"
        by (metis prod_cases5)
      then have "compact_leased env idle prepare s w c = Some (res, env', s', w', c')"
        using False fp mat by (auto simp: compact_leased_def current_def)
      then show ?thesis
        using compact_current_keeps [OF rd keeps prep ok1 _ _ _ run] by (auto simp: current_def)
    qed
  qed
qed


section \<open>A small compaction\<close>

definition small_manifest :: manifest where
  "small_manifest = twice_manifest\<lparr>Source := \<lparr>Bytes = 6, SourceSHA256 = sha256_hex [1, 2, 3, 1, 2, 3]\<rparr>\<rparr>"

definition folded_view :: view where
  "folded_view = \<lparr>view_manifest = small_manifest, ends = [3, 6]\<rparr>"

definition small_prepared :: "(block_cache, pack_error) prepared_generation" where
  "small_prepared = \<lparr>PreparedManifestPath = ''/s/manifests/a.json'', PreparedManifest = small_manifest, PreparedView = Some folded_view,
     PreparedReader = packed_reader plain_zstd gen_resolver, PreparedCache = newBlockCache 0\<rparr>"

definition small_prepare :: "native_file \<Rightarrow> uint64 \<Rightarrow> fs \<Rightarrow> (block_cache, pack_error) prepared_generation option \<times> fs" where
  "small_prepare current g w = (Some small_prepared, install_file ''/s/manifests/a.json'' (encodeManifest small_manifest) w)"

lemma small_manifest_path:
  "path_base ''/s/manifests/a.json'' = ''a.json''" "path_clean ''/s/manifests/a.json'' = ''/s/manifests/a.json''" "is_abs ''/s/manifests/a.json''"
  "manifests_above (butlast (path_comps ''/s/manifests/a.json'')) = Some [''s'', ''manifests'']"
  "path_rel ''/s'' ''/s/manifests/a.json'' = Some ''manifests/a.json''"
  by code_simp+

lemma small_base_view: "base_view (packed_content plain_zstd gen_resolver) folded_view [1, 2, 3, 1, 2, 3]"
proof -
  have "NewView small_manifest = Inr folded_view"
    by (simp add: folded_view_def small_manifest_def NewView_def twice_manifest_def example_manifest_def zero_manifest_def SupportedManifest_def
        ManifestVersion_def ManifestVersionV2_def ManifestKindV2_def SupportedPart_def gen_ref_def maxInt64_def numeral_2_eq_2 PartResidual_def)
  moreover have "parts_content (packed_content plain_zstd gen_resolver) (Parts small_manifest) = Some [1, 2, 3, 1, 2, 3]"
    using twice_content [of plain_zstd] by (simp add: small_manifest_def)
  ultimately show ?thesis
    by (auto simp: base_view_def)
qed

lemma small_prepare_ok: "prepare_ok plain_zstd small_prepare"
proof -
  have "\<not> data_path ''/s/manifests/a.json''"
    by (simp add: data_path_def small_manifest_path managedSessionDataName_def has_prefix_def)
  then show ?thesis
    unfolding prepare_ok_def small_prepare_def small_prepared_def
    using small_base_view cache_sound_new [of plain_zstd gen_resolver] by auto
qed

lemma small_decoded: "DecodeManifest (encodeManifest small_manifest) = Inr small_manifest"
proof (rule decode_encode)
  show "validateManifest small_manifest = Inr ()"
    by (simp add: small_manifest_def validateManifest_def twice_manifest_def example_manifest_def zero_manifest_def SupportedManifest_def ManifestVersion_def
        ManifestVersionV2_def ManifestKindV2_def validateSessionID_def contains_any_def SupportedPart_def gen_ref_def numeral_2_eq_2 PartResidual_def)
  show "manifest_ok small_manifest"
    by (simp add: small_manifest_def manifest_ok_def twice_manifest_def example_manifest_def zero_manifest_def session_ok_def settings_ok_def in_int64_def
        maxInt64_def utf8_short utf8_digest part_ok_def ref_ok_def gen_ref_def PartResidual_def)
qed

definition compact_small :: "(block_cache, pack_error) compact_options" where
  "compact_small = \<lparr>IdleFor = 0, Prepare = Some small_prepare\<rparr>"

definition quiet_vfs :: session where
  "quiet_vfs = small_vfs\<lparr>writerOpen := False\<rparr>"

definition quiet_files :: fs where
  "quiet_files = install_file ''/d/delta.jsonl'' [] empty_fs"

lemma quiet_paths:
  "compact_delta (small_vfs\<lparr>writerOpen := b\<rparr>) = ''/d/delta-00000000000000000002.jsonl''"
  "compact_scratch (small_vfs\<lparr>writerOpen := b\<rparr>) = ''/d/.compact-00000000000000000001.jsonl''"
proof -
  have "path_join [''/d'', ''delta-'' @ pad20 2 @ ''.jsonl''] = ''/d/delta-00000000000000000002.jsonl''"
    "path_join [''/d'', ''.compact-'' @ pad20 1 @ ''.jsonl''] = ''/d/.compact-00000000000000000001.jsonl''"
    by code_simp+
  then show "compact_delta (small_vfs\<lparr>writerOpen := b\<rparr>) = ''/d/delta-00000000000000000002.jsonl''"
    "compact_scratch (small_vfs\<lparr>writerOpen := b\<rparr>) = ''/d/.compact-00000000000000000001.jsonl''"
    by (simp_all add: compact_delta_def compact_scratch_def small_vfs_def small_session_state_def)
qed

lemma quiet_active: "active_path (s_state small_vfs) = ''/d/delta.jsonl''"
  by (simp add: small_vfs_def small_session_state_def zero_state_def active_path_def)

lemma quiet_holds:
  "holds (packed_content plain_zstd gen_resolver) (cache_sound plain_zstd gen_resolver) [1, 2, 3, 1, 2, 3] [1, 2, 3, 1, 2, 3]
    (small_vfs\<lparr>writerOpen := b\<rparr>) quiet_files (newBlockCache 0)"
proof -
  have "holds (packed_content plain_zstd gen_resolver) (cache_sound plain_zstd gen_resolver) [1, 2, 3, 1, 2, 3] [1, 2, 3, 1, 2, 3, 7]
      small_vfs small_files (newBlockCache 0)"
    using small_start by simp
  then show ?thesis
    by (simp add: holds_def visible_def small_vfs_def small_session_state_def zero_state_def quiet_files_def maxInt64_def placed_def leases_ok_def)
qed

lemma small_checked:
  assumes "ReadFile w ''/s/manifests/a.json'' = Some (encodeManifest small_manifest)"
  obtains c where "check_prepared small_prepared \<lparr>NativePath = path, NativeBytes = 6, NativeSHA256 = sha256_hex [1, 2, 3, 1, 2, 3]\<rparr> w =
    Inr (folded_view, sha256_hex (encodeManifest small_manifest), c)"
proof -
  note view = packed.hashView_exact [OF small_base_view cache_sound_new [of _ _ 0]]
  obtain c where hash: "hashView (packed_reader plain_zstd gen_resolver) folded_view (newBlockCache 0) = (Inr (sha256_hex [1, 2, 3, 1, 2, 3]), c)"
    using view(2) by blast
  have source: "Source small_manifest = \<lparr>Bytes = 6, SourceSHA256 = sha256_hex [1, 2, 3, 1, 2, 3]\<rparr>"
    by (simp add: small_manifest_def)
  have "captureManifestIdentity ''/s/manifests/a.json'' (ID (Session small_manifest)) 6 (sha256_hex [1, 2, 3, 1, 2, 3]) w =
      Inr (\<lparr>NativePath = ''/s/manifests/a.json'', NativeBytes = int (length (encodeManifest small_manifest)),
        NativeSHA256 = sha256_hex (encodeManifest small_manifest)\<rparr>, small_manifest)"
    using small_manifest_path assms small_decoded
    by (simp add: captureManifestIdentity_def Let_def source render_def slash_def has_prefix_def)
  then show thesis
    using hash view(1) by (intro that [of c]) (simp add: check_prepared_def small_prepared_def Let_def source)
qed

lemma small_compact:
  "\<exists>env' s' w' c'. Compact small_env compact_small True (Some small_session_state) None quiet_vfs quiet_files (newBlockCache 0) =
    Some (Inr \<lparr>CompactGeneration = 2, CompactBytes = 6, CompactSHA256 = sha256_hex [1, 2, 3, 1, 2, 3]\<rparr>, env', s', w', c')"
proof -
  let ?s = "small_vfs\<lparr>writerOpen := True\<rparr>" and ?p = "''/d/.compact-00000000000000000001.jsonl''"
  define current where "current = \<lparr>NativePath = ?p, NativeBytes = 6, NativeSHA256 = sha256_hex [1, 2, 3, 1, 2, 3]\<rparr>"
  define w1 where "w1 = install_file ?p [1, 2, 3, 1, 2, 3] quiet_files"
  define w2 where "w2 = install_file ''/s/manifests/a.json'' (encodeManifest small_manifest) w1"
  have st: "s_state ?s = small_session_state" "StGeneration small_session_state = 1" "statePath ?s = ''/d/state.json''"
    by (simp_all add: small_vfs_def small_session_state_def)
  have refresh: "refreshNativeRetirement (Some small_session_state) None ?s = Inr ?s"
    by (simp add: refreshNativeRetirement_def Let_def st)
  obtain fp where fp: "captureFingerprint ''/d/delta.jsonl'' quiet_files = Inr fp" "captureFingerprint ''/d/delta.jsonl'' w2 = Inr fp"
    by (simp add: captureFingerprint_def hashNativePath_def quiet_files_def w1_def w2_def Stat_def install_file_def ReadFile_def)
  obtain c1 where mat: "MaterializeCurrent small_env ?p True ?s quiet_files (newBlockCache 0) = Some (Inr current, ?s, w1, c1)"
    using packed_session.MaterializeCurrent_holds [OF quiet_holds packed_env_admits, of ?p True True] by (auto simp: small_env_def current_def w1_def)
  obtain c2 where check: "check_prepared small_prepared current w2 = Inr (folded_view, sha256_hex (encodeManifest small_manifest), c2)"
    using small_checked [of w2 ?p] by (auto simp: w2_def current_def)
  have "ReadFile w2 ''/d/delta-00000000000000000002.jsonl'' = None"
    by (simp add: w2_def w1_def quiet_files_def empty_fs_def ReadFile_def install_file_def)
  then obtain s3 w3 where pub: "compact_publish small_env small_prepared folded_view (sha256_hex (encodeManifest small_manifest)) current ?s w2 =
      (Inr \<lparr>CompactGeneration = 2, CompactBytes = 6, CompactSHA256 = sha256_hex [1, 2, 3, 1, 2, 3]\<rparr>, s3, w3)"
    by (simp add: compact_publish_def Let_def quiet_paths st small_env_def packed_env_def current_def)
  have "compact_current small_env small_prepare fp current ?s w1 c1 =
      (Inr \<lparr>CompactGeneration = 2, CompactBytes = 6, CompactSHA256 = sha256_hex [1, 2, 3, 1, 2, 3]\<rparr>,
        small_env\<lparr>base_reader := PreparedReader small_prepared\<rparr>, s3, remove_file ?p w3, c2)"
    using check pub fp arg_cong [OF current_def, of NativePath]
    by (simp add: compact_current_def small_prepare_def Let_def quiet_active ensureFingerprintUnchanged_def flip: w2_def)
  then have "compact_leased small_env 0 small_prepare ?s quiet_files (newBlockCache 0) =
      Some (Inr \<lparr>CompactGeneration = 2, CompactBytes = 6, CompactSHA256 = sha256_hex [1, 2, 3, 1, 2, 3]\<rparr>,
        small_env\<lparr>base_reader := PreparedReader small_prepared\<rparr>, s3, remove_file ?p w3, c2)"
    using fp mat by (simp add: compact_leased_def quiet_active quiet_paths)
  then show ?thesis
    using refresh by (simp add: Compact_def quiet_vfs_def compact_small_def small_vfs_def)
qed


end
