(* ===== verification/Spec2Isabelle.thy ===== *)
theory Spec2Isabelle
  imports Fold_Engine Fskit_Wire Contain View Pack_Generation Vfs_Compact
begin

text \<open>
  \<^bold>\<open>codexfold\<close> stores the rollout files of Codex sessions without their redundancy and still shows them as files. A rollout is
  \<^emph>\<open>folded\<close>: cut into content-defined pieces, each stored once as a compressed object under its SHA-256 digest, with a manifest that
  lists the pieces. Objects are collected into \<^emph>\<open>packs\<close>, generations of block files with a sorted index. A \<^emph>\<open>virtual session\<close> reads
  the pieces back through a view, takes appended bytes in a delta file, copies everything to a backing file at the first write that
  is not an append, and is folded again by \<^emph>\<open>compaction\<close>. Every step is priced by a storage budget. This development models these
  parts and proves that no byte changes on the way. Paths below are relative to \<open>src/\<close>.

  \<^bold>\<open>Foundations.\<close>
  \<^item> \<open>Prelude\<close>: the result type \<open>'e + 'a\<close> with \<open>rbind\<close> and \<open>guard\<close>, \<open>int64\<close> as an integer with the wrap-around written out
    (\<open>wrap64\<close>), little-endian words, hexadecimal and decimal texts, and the simplification sets the other theories use.
  \<^item> \<open>Sha256\<close>: the hash function, executable. Where two byte strings are said to be equal because their digests are, the absence of
    a collision between these two (\<open>no_collision\<close>) is a hypothesis or the premise of the conclusion.
  \<^item> \<open>Path\<close>, \<open>Fs\<close>: path names as \<open>path/filepath\<close> treats them on Unix, and the files of a process: contents with modification time
    and identity. A file that is written under a temporary name, synced and renamed appears in one step.
  \<^item> \<open>Bufio\<close>, \<open>Json_Decoder\<close>, \<open>Go_Json\<close>, \<open>Sort_Search\<close>: what the program uses of Go's library: buffered line reading, the token
    stream of the JSON decoder, \<open>Marshal\<close>/\<open>MarshalIndent\<close> and struct decoding with the round trip between them, and the binary search
    of \<open>sort\<close>.

  \<^bold>\<open>Folding\<close> (\<open>internal/cdc\<close>, \<open>internal/jsonraw\<close>, \<open>internal/fold\<close>).
  \<^item> \<open>Cdc\<close> is \<open>chunker.go\<close>: the chunks of a stream concatenate to it, stay within the size bounds, do not depend on how the stream
    is split into writes, and agree again after a common boundary.
  \<^item> \<open>Jsonraw\<close> is \<open>spans.go\<close>: the long strings found in a line are ordered, disjoint and JSON strings. The fuel of the scanner is
    one more than the length of the line, and the search is shown to end within it.
  \<^item> \<open>Manifest\<close>, \<open>Object_Store\<close>, \<open>Unfold\<close>, \<open>Fold_Engine\<close> are \<open>manifest.go\<close>, \<open>store.go\<close>/\<open>stream.go\<close>/\<open>reader.go\<close>, \<open>unfold.go\<close> and
    \<open>fold.go\<close>. A manifest is read back as written; a verified stream is the one-shot read; the parts of a fold are digests of pieces
    whose concatenation is the rollout; a fold without \<open>Apply\<close> changes nothing and a rollout is removed only when told; folding and
    unfolding is the identity; a session that verifies restores. The compressor is an argument with the documented law
    \<open>zstd_ok\<close> that compressed data decodes to itself.

  \<^bold>\<open>Budget\<close> (\<open>internal/storage\<close>: \<open>budget.go\<close>, \<open>guard.go\<close>, \<open>policy.go\<close>, \<open>accounting.go\<close>, \<open>space.go\<close>), theory \<open>Budget\<close>: the
  overflow-guarded sums decide exactly as the integers do, the report holds the integer sums or saturates, the shared inventory
  never runs two scans and never answers with an unfinished one, and a policy that loads is valid. The locale \<open>storage_checker\<close> is
  the contract of the guards.

  \<^bold>\<open>Containment\<close> (\<open>internal/contain\<close>), theory \<open>Contain\<close>: the search with a prefix table answers yes exactly when the records of one
  rollout occur consecutively, byte for byte, in the other.

  \<^bold>\<open>Wire protocol\<close> (\<open>internal/fskitproto\<close>), theory \<open>Fskit_Wire\<close>: frames, descriptors and directory entries survive the wire however
  the transport splits the writes.

  \<^bold>\<open>Packs\<close> (\<open>internal/pack\<close>).
  \<^item> \<open>Pack_Index\<close> is \<open>format.go\<close> and \<open>index_v3.go\<close>: records, validation, and the binary search of a lookup.
  \<^item> \<open>Pack_Cache\<close> is \<open>cache.go\<close>: the LRU cache refines a map that may forget.
  \<^item> \<open>Pack_Resolver\<close> is \<open>resolver.go\<close> and the verification of \<open>doctor.go\<close>: positioned reads and streams return the bytes of an object
    whatever the cache holds, and a verified generation serves every object with its digest.
  \<^item> \<open>Pack_Build\<close>, \<open>Pack_Generation\<close> are \<open>build.go\<close>: a generation built from verified loose objects passes its verification and serves
    them; the merge that decides on compaction is exact. The reference table is the sorted list of references; \<open>zstd_frames\<close> adds that
    compressed data is not empty.

  \<^bold>\<open>Virtual sessions\<close> (\<open>internal/vfs\<close>).
  \<^item> \<open>View\<close> is \<open>view.go\<close>, proved in the locale \<open>object_reader_at\<close>, which says what a view relies on in its reader, and interpreted on
    the pack resolver.
  \<^item> \<open>Session_State\<close> is \<open>state.go\<close> and \<open>journal.go\<close>: states and journals are read back as written.
  \<^item> \<open>Vfs_Session\<close> is \<open>session.go\<close>, \<open>handles.go\<close>, \<open>fallback.go\<close> and the refresh of \<open>native_retirement.go\<close>. The record \<open>session_env\<close> holds
    what a session is given: the reader of its base, the budget, the publication of a state and of a checkpoint, the clock.
  \<^item> \<open>Session_Refinement\<close>: a session refines a string of bytes. Runs of operations with their outcomes are the inductive relation
    \<open>session_run\<close>; every operation, failed ones included, acts on the bytes as its specification says; readers opened before the first
    copy keep their snapshot; the running hash handed to a checkpoint is that of the file; with an admitting budget operations
    succeed. The locale \<open>session_store\<close> adds to \<open>object_reader_at\<close> that publication leaves data files alone and is interpreted on
    packs. The copy loop of \<open>MaterializeCurrent\<close> is a partial function, because it need not return: a theorem says exactly when it does.
  \<^item> \<open>Vfs_Compact\<close> is \<open>compact.go\<close> and \<open>captureManifestIdentity\<close> of \<open>state_checkpoint.go\<close>: compaction keeps the bytes whatever the
    caller's preparation returns.

  This theory composes folding, packing and viewing.

  \<^bold>\<open>Bounds and abstractions.\<close> Loops with a decreasing measure are functions with a termination proof. The fallback loop of the prefix
  search runs on fuel equal to the number of matched records, which every step decreases; draining a packed object runs on its length.
  Cancellation of contexts, failures of \<open>sync\<close> and \<open>close\<close>, permissions and symbolic links are left out; failures of writes are
  modelled in \<open>Vfs_Session\<close> and \<open>Fskit_Wire\<close>. Concurrency appears as the order of steps: the shared inventory is a transition system,
  and a session run interleaves readers and a writer at the granularity of calls.

  \<^bold>\<open>Not modelled.\<close>
  \<^item> The checkpoint chain, initial publication, recovery, native retirement and deletion of sessions (\<open>state_checkpoint.go\<close>,
    \<open>initial_publish.go\<close>, \<open>recover.go\<close>, \<open>native_retirement.go\<close>, \<open>session_deletion*.go\<close>), the recovery catalogue and removal guards of
    packs, and the inventory, garbage collection and leases of \<open>internal/storage\<close>: protocols over directories, advisory locks and
    renames, whose meaning is that of the operating system. A session relies on publication only as stated by \<open>publication_keeps\<close>.
  \<^item> The mounted file system, service, command line, tray and status: platform calls, processes and user interface.
  \<^item> Scan, archive, prune, family, reconcile, enrollment: transactions over SQLite databases and reports about them.
  \<^item> The digest set, doctor and garbage collection of \<open>internal/fold\<close>: reports over directory walks.
\<close>

section \<open>A folded session in a pack generation\<close>

lemma part_ends_total:
  assumes "\<forall>p\<in>set ps. SupportedPart version (PartKind p) \<and> length (SHA256 (Object p)) = 64 \<and> 0 < RawBytes (Object p)"
  shows "sofar + raw_sum ps \<le> maxInt64 \<Longrightarrow> \<exists>es. part_ends version n sofar ps = Inr (es, sofar + raw_sum ps)"
  using assms
proof (induction ps arbitrary: n sofar)
  case Nil
  then show ?case
    by simp
next
  case (Cons p ps)
  have "0 \<le> raw_sum ps"
    using Cons.prems unfolding raw_sum_def by (intro sum_list_nonneg) force
  then show ?case
    using Cons.IH [of "sofar + RawBytes (Object p)" "n + 1"] Cons.prems by (auto simp: algebra_simps)
qed

lemma validateParts_parts:
  "validateParts version n ps = Inr () \<Longrightarrow> p \<in> set ps \<Longrightarrow> SupportedPart version (PartKind p) \<and> length (SHA256 (Object p)) = 64"
  by (induction ps arbitrary: n) (auto split: if_splits)

text \<open>What the store reconstructs for a list of parts, and what a generation that was built from the store holds for them.\<close>

lemma reconstruct_sizes: "reconstruct (fetch_object z w store) ps = Inr data \<Longrightarrow> raw_sum ps = int (length data)"
proof (induction ps arbitrary: data)
  case Nil
  then show ?case
    by simp
next
  case (Cons p ps)
  then obtain d rest' where "fetch_object z w store (Object p) = Inr d" "reconstruct (fetch_object z w store) ps = Inr rest'" "data = d @ rest'"
    by (auto simp: result_simps)
  then show ?case
    using Cons.IH [of rest'] fetch_object_verified [of z w store "Object p" d] by simp
qed

lemma fetch_object_same: "sameObjectBytes a b \<Longrightarrow> fetch_object z w store a = fetch_object z w store b"
  by (simp add: fetch_is_Read Read_def sameObjectBytes_def verify_object_def split: option.split)

lemma generation_reconstructs:
  assumes "\<And>p d. p \<in> set ps \<Longrightarrow> fetch_object z w store (Object p) = Inr d \<Longrightarrow> packed_content z r (Object p) = Some d"
  shows "reconstruct (fetch_object z w store) ps = Inr data \<Longrightarrow> parts_content (packed_content z r) ps = Some data"
  using assms
proof (induction ps arbitrary: data)
  case Nil
  then show ?case
    by simp
next
  case (Cons p ps)
  then show ?case
    by (auto simp: result_simps)
qed

lemma built_content:
  assumes "buildable z bopts w store refs datas"
    and "\<And>k. k < length refs \<Longrightarrow> \<exists>obj. served z r obj (datas ! k) \<and> lookupObject r (PackedSHA256 obj) = Inr (Some obj) \<and> lookup_ref r (refs ! k) = Inr obj"
    and "ref \<in> set refs" and "sameObjectBytes ref a" and "fetch_object z w store a = Inr d"
  shows "packed_content z r a = Some d"
proof -
  obtain k where k: "k < length refs" "ref = refs ! k"
    using assms(3) by (metis in_set_conv_nth)
  have fetch: "fetch_object z w store ref = Inr (datas ! k)"
    using assms(1) k by (simp add: buildable_def list_all2_conv_all_nth)
  obtain obj where "served z r obj (datas ! k)" "lookupObject r (PackedSHA256 obj) = Inr (Some obj)" "lookup_ref r ref = Inr obj"
    using assms(2) [OF k(1)] k(2) by blast
  then have "packed_content z r ref = Some (datas ! k)"
    by (simp add: packed_content_def served_def)
  then show ?thesis
    using packed.bytes_of_same [OF assms(4), of z r] fetch_object_same [OF assms(4), of z w store] fetch assms(5) by simp
qed

text \<open>C2: A folded rollout that has been packed is shown by its view as it was: after an applied fold the pack generation built from
  the store passes its verification and opens, the session's view opens on it, and every positioned read through the view
  returns the slices of bytes that have the length and digest of the rollout, so of the rollout itself unless SHA-256 collides
  on the two.\<close>

theorem folded_session_served:
  assumes "Fold z check lock_free sync_ok stamp session opts (Some v) w = Inr (res, m, w')"
    and "Apply opts" "ExistingReader opts = None" "ManifestPathOverride opts = ''''" "is_abs (FoldStoreDir opts)" and "manifest_ok m"
    and "RemoveSource opts \<longrightarrow> RolloutPath session \<noteq> ManifestPath (FoldStoreDir opts) (ID session) \<and>
      RolloutPath session \<notin> range (ObjectPath (NewObjectStore (FoldStoreDir opts)))"
    and "zstd_frames z" "buildable z bopts w' (NewObjectStore (FoldStoreDir opts)) refs datas" "good_names tag createdAt"
    and "\<forall>p\<in>set (Parts m). 0 < RawBytes (Object p) \<and> (\<exists>ref\<in>set refs. sameObjectBytes ref (Object p))"
  shows "\<exists>dir r vw data. build_generation z bopts w' (NewObjectStore (FoldStoreDir opts)) None refs tag createdAt = Inr dir \<and>
    loadResolverResources (''gen-'' @ tag) dir = Inr r \<and> NewView m = Inr vw \<and>
    (\<forall>need p c. cache_sound z r c \<longrightarrow> (\<exists>c'. View_ReadAt (packed_reader z r) vw need (int p) c =
       (take need (drop p data), (if length data - p < need then AtEOF else AtNil), c') \<and> cache_sound z r c')) \<and>
    length data = length (seen v) \<and> sha256 data = sha256 (seen v) \<and> (no_collision {data, seen v} \<longrightarrow> data = seen v)"
proof -
  let ?store = "NewObjectStore (FoldStoreDir opts)"
  have "VerifySession z w' (FoldStoreDir opts) (ID session) = Inr m"
    using assms(1-7) by (rule Fold_VerifySession)
  then obtain data where data: "reconstruct (fetch_object z w' ?store) (Parts m) = Inr data" "int (length data) = Bytes (Source m)"
      "sha256_hex data = SourceSHA256 (Source m)" and valid: "validateManifest m = Inr ()"
    by (auto simp: VerifySession_def store_reader_def verifyStoredManifest_def verifySourceDigest_def LoadManifest_def LoadManifestPath_def
        DecodeManifest_def result_simps split: sum.splits option.splits if_splits)
  have source: "Bytes (Source m) = int (length (seen v)) \<and> SourceSHA256 (Source m) = sha256_hex (seen v)"
    using assms(1) by (rule Fold_Inr) (auto dest!: fold_commit_Inr(1) simp: fold_manifest_def)
  have "\<forall>p\<in>set (Parts m). SupportedPart (Version m) (PartKind p) \<and> length (SHA256 (Object p)) = 64 \<and> 0 < RawBytes (Object p)"
    and "SupportedManifest (Version m) (Kind m)"
    using valid assms(11) validateParts_parts [of "Version m" _ "Parts m"] by (auto simp: validateManifest_def result_simps split: if_splits)
  moreover have "raw_sum (Parts m) = Bytes (Source m)" "raw_sum (Parts m) \<le> maxInt64"
    using reconstruct_sizes [OF data(1)] data(2) assms(6) by (simp_all add: manifest_ok_def in_int64_def)
  ultimately obtain vw where vw: "NewView m = Inr vw"
    using part_ends_total [of "Parts m" "Version m" 0 0] by (auto simp: NewView_def)
  from assms(8-10) show ?thesis
  proof (rule build_serves)
    fix dir r
    assume built: "build_generation z bopts w' ?store None refs tag createdAt = Inr dir" "loadResolverResources (''gen-'' @ tag) dir = Inr r"
      and objs: "\<And>k. k < length refs \<Longrightarrow> \<exists>obj. served z r obj (datas ! k) \<and> lookupObject r (PackedSHA256 obj) = Inr (Some obj) \<and>
        lookup_ref r (refs ! k) = Inr obj"
    have "parts_content (packed_content z r) (Parts m) = Some data"
      using data(1) assms(11) built_content [OF assms(9) objs] by (intro generation_reconstructs) blast
    note reads = packed.View_ReadAt_content [OF vw this]
    have "length data = length (seen v)" "sha256 data = sha256 (seen v)"
      using data source by (auto simp: sha256_hex_def)
    then show ?thesis
      using built vw reads no_collisionD [of "{data, seen v}" data "seen v"] by (intro exI [of _ dir] exI [of _ r] exI [of _ vw] exI [of _ data]) auto
  qed
qed

theorem folded_session_served_witness:
  "\<exists>res m w' refs dir r vw data c'.
    Fold plain_zstd admit_all True (\<lambda>_. True) '''' small_session small_options (Some small_view) empty_fs = Inr (res, m, w') \<and>
    build_generation plain_zstd loose_options w' (NewObjectStore ''/s'') None refs ''1'' ''t'' = Inr dir \<and>
    loadResolverResources ''gen-1'' dir = Inr r \<and> NewView m = Inr vw \<and>
    View_ReadAt (packed_reader plain_zstd r) vw 4 0 (newBlockCache 0) = (data, AtEOF, c') \<and> sha256 data = sha256 [65]"
proof -
  obtain res m w' where run: "Fold plain_zstd admit_all True (\<lambda>_. True) '''' small_session small_options (Some small_view) empty_fs = Inr (res, m, w')"
    and ok: "manifest_ok m" and parts: "Parts m = [small_part]"
    using small_fold by blast
  have fields: "Apply small_options" "ExistingReader small_options = None" "ManifestPathOverride small_options = ''''" "FoldStoreDir small_options = ''/s''"
    "is_abs ''/s''" "RemoveSource small_options = False" "seen small_view = [65]"
    by (simp_all add: small_simps is_abs_def slash_def Let_def)
  have "VerifySession plain_zstd w' ''/s'' (ID small_session) = Inr m"
    using Fold_VerifySession [OF run] fields ok by simp
  then obtain data where fetch: "fetch_object plain_zstd w' (NewObjectStore ''/s'') (Object small_part) = Inr data"
    by (auto simp: VerifySession_def verifyStoredManifest_def parts result_simps split: sum.splits)
  then have "length data = 1"
    using fetch_object_verified [OF fetch] by (simp add: small_part_def)
  then have "buildable plain_zstd loose_options w' (NewObjectStore ''/s'') [Object small_part] [data]"
    using fetch by (cases data) (simp_all add: buildable_def loose_options_def default_build_options_def maxInt64_def in_int64_def cut_blocks.simps)
  moreover have "\<forall>p\<in>set (Parts m). 0 < RawBytes (Object p) \<and> (\<exists>ref\<in>set [Object small_part]. sameObjectBytes ref (Object p))"
    by (simp add: parts small_part_def sameObjectBytes_def)
  moreover have "zstd_frames plain_zstd"
    by (simp add: zstd_frames_def zstd_ok_def plain_zstd_def)
  moreover have "good_names ''1'' ''t''"
    by (simp add: good_names_def safeGeneration_def path_base_plain slash_def utf8_short)
  ultimately have "\<exists>dir r vw data. build_generation plain_zstd loose_options w' (NewObjectStore (FoldStoreDir small_options)) None [Object small_part] ''1'' ''t'' = Inr dir \<and>
    loadResolverResources (''gen-'' @ ''1'') dir = Inr r \<and> NewView m = Inr vw \<and>
    (\<forall>need p c. cache_sound plain_zstd r c \<longrightarrow> (\<exists>c'. View_ReadAt (packed_reader plain_zstd r) vw need (int p) c =
       (take need (drop p data), (if length data - p < need then AtEOF else AtNil), c') \<and> cache_sound plain_zstd r c')) \<and>
    length data = length (seen small_view) \<and> sha256 data = sha256 (seen small_view) \<and> (no_collision {data, seen small_view} \<longrightarrow> data = seen small_view)"
    using fields ok by (intro folded_session_served [OF run]) simp_all
  then obtain dir r vw data where built: "build_generation plain_zstd loose_options w' (NewObjectStore (FoldStoreDir small_options)) None [Object small_part] ''1'' ''t'' = Inr dir"
    "loadResolverResources (''gen-'' @ ''1'') dir = Inr r" "NewView m = Inr vw" "length data = length (seen small_view)" "sha256 data = sha256 (seen small_view)"
    and reads: "\<forall>need p c. cache_sound plain_zstd r c \<longrightarrow> (\<exists>c'. View_ReadAt (packed_reader plain_zstd r) vw need (int p) c =
       (take need (drop p data), (if length data - p < need then AtEOF else AtNil), c') \<and> cache_sound plain_zstd r c')"
    by blast
  have "\<exists>c'. View_ReadAt (packed_reader plain_zstd r) vw 4 0 (newBlockCache 0) = (data, AtEOF, c')"
    using spec [OF spec [OF spec [OF reads, of 4], of 0], of "newBlockCache 0"] cache_sound_new built(4) by (auto simp: fields)
  then show ?thesis
    using run built [unfolded fields append.simps] by blast
qed

end
